(* ===== verification/Prelude.thy ===== *)
theory Prelude
  imports Main "HOL-Library.AList"
begin

text \<open>
  Shared vocabulary of the development: JavaScript containers, errors as values, loops over
  them, and the two contracts every component uses.

  A JavaScript \<^verbatim>\<open>Map\<close> (and a plain object used as a dictionary) keeps its entries in insertion
  order, and overwriting a key keeps its position; it is an association list updated by
  \<open>AList.update\<close>. A JavaScript \<^verbatim>\<open>Set\<close> is a list without duplicates that grows at the end.
  A thrown error is \<open>Inl\<close> of a sum.

  The locale \<open>keyed_store\<close> is the contract of a dictionary and the locale \<open>traversal\<close> that of the
  recursive depth-first searches of the program.
\<close>

named_theorems js_simps
named_theorems wf_intros

section \<open>Errors as values\<close>

text \<open>The exceptions the modelled code can raise, without their wording where nothing depends on it.\<close>

datatype js_error =
    AssertionError
  | TypeError
  | UserError string
  | OperationalError string
  | UnexpectedError string
  | ExecutionAlreadyResumingError
  | JsError string

type_synonym 'a result = "js_error + 'a"

text \<open>A \<^verbatim>\<open>for\<close> loop whose body updates a state and may throw.\<close>

fun fold_res :: "('a \<Rightarrow> 's \<Rightarrow> 'e + 's) \<Rightarrow> 'a list \<Rightarrow> 's \<Rightarrow> 'e + 's" where
  "fold_res f [] s = Inr s"
| "fold_res f (x # xs) s = (case f x s of Inl e \<Rightarrow> Inl e | Inr s' \<Rightarrow> fold_res f xs s')"

lemma fold_res_append:
  "fold_res f (xs @ ys) s =
     (case fold_res f xs s of Inl e \<Rightarrow> Inl e | Inr s' \<Rightarrow> fold_res f ys s')"
  by (induction xs arbitrary: s) (auto split: sum.splits)

lemma fold_res_inv:
  assumes "fold_res f xs s = Inr s'" and "P s"
    and "\<And>x t t'. x \<in> set xs \<Longrightarrow> P t \<Longrightarrow> f x t = Inr t' \<Longrightarrow> P t'"
  shows "P s'"
  using assms
proof (induction xs arbitrary: s)
  case (Cons x xs)
  then obtain t where "f x s = Inr t" "fold_res f xs t = Inr s'" by (auto split: sum.splits)
  with Cons show ?case by (metis list.set_intros(1) list.set_intros(2))
qed simp

lemma fold_res_total:
  assumes "P s" and "\<And>x t. x \<in> set xs \<Longrightarrow> P t \<Longrightarrow> \<exists>t'. f x t = Inr t' \<and> P t'"
  shows "\<exists>s'. fold_res f xs s = Inr s' \<and> P s'"
  using assms
proof (induction xs arbitrary: s)
  case Nil
  then show ?case by simp
next
  case (Cons x xs)
  then obtain t where t: "f x s = Inr t" "P t" by (meson list.set_intros(1))
  have "\<exists>s'. fold_res f xs t = Inr s' \<and> P s'"
    using t(2) Cons.prems(2) by (intro Cons.IH) auto
  with t show ?case by simp
qed

text \<open>What one element establishes and the others keep holds after the loop.\<close>

lemma fold_res_hits:
  assumes "fold_res f xs s = Inr s'" and "x \<in> set xs" and "P s"
    and P: "\<And>y t t'. y \<in> set xs \<Longrightarrow> P t \<Longrightarrow> f y t = Inr t' \<Longrightarrow> P t'"
    and Q: "\<And>t t'. P t \<Longrightarrow> f x t = Inr t' \<Longrightarrow> Q t'"
    and keep: "\<And>y t t'. y \<in> set xs \<Longrightarrow> P t \<Longrightarrow> Q t \<Longrightarrow> f y t = Inr t' \<Longrightarrow> Q t'"
  shows "Q s'"
proof -
  obtain ys zs where xs: "xs = ys @ x # zs" using assms(2) by (auto simp: in_set_conv_decomp)
  obtain s1 s2 where r: "fold_res f ys s = Inr s1" "f x s1 = Inr s2" "fold_res f zs s2 = Inr s'"
    using assms(1) unfolding xs by (auto simp: fold_res_append split: sum.splits)
  have "P s1" using r(1) assms(3) by (rule fold_res_inv) (auto simp: xs intro: P)
  with r(2) have "P s2 \<and> Q s2" using P[of x] Q xs by auto
  with r(3) have "P s' \<and> Q s'" by (rule fold_res_inv) (auto simp: xs intro: P keep)
  then show ?thesis by simp
qed

lemma fold_res_cong [fundef_cong]:
  assumes "xs = ys" and "s = t" and "\<And>x u. x \<in> set ys \<Longrightarrow> f x u = g x u"
  shows "fold_res f xs s = fold_res g ys t"
proof -
  have "fold_res f ys t = fold_res g ys t"
    using assms(3) by (induction ys arbitrary: t) (auto split: sum.splits)
  with assms(1,2) show ?thesis by simp
qed

section \<open>JavaScript sets\<close>

definition set_add :: "'a list \<Rightarrow> 'a \<Rightarrow> 'a list" where
  "set_add xs x = (if x \<in> set xs then xs else xs @ [x])"

lemma set_set_add [simp]: "set (set_add xs x) = insert x (set xs)"
  by (auto simp: set_add_def)

lemma distinct_set_add [simp]: "distinct (set_add xs x) = distinct xs"
  by (auto simp: set_add_def)

definition set_add_all :: "'a list \<Rightarrow> 'a list \<Rightarrow> 'a list" where
  "set_add_all xs ys = foldl set_add xs ys"

lemma set_set_add_all [simp]: "set (set_add_all xs ys) = set xs \<union> set ys"
  unfolding set_add_all_def by (induction ys arbitrary: xs) auto

lemma distinct_set_add_all [simp]: "distinct (set_add_all xs ys) = distinct xs"
  unfolding set_add_all_def by (induction ys arbitrary: xs) auto

lemma set_add_all_distinct: "distinct (xs @ ys) \<Longrightarrow> set_add_all xs ys = xs @ ys"
  unfolding set_add_all_def
proof (induction ys arbitrary: xs)
  case (Cons y ys)
  then have "set_add xs y = xs @ [y]" by (auto simp: set_add_def)
  with Cons.IH[of "xs @ [y]"] Cons.prems show ?case by simp
qed simp

definition set_del :: "'a list \<Rightarrow> 'a \<Rightarrow> 'a list" where
  "set_del xs x = filter (\<lambda>y. y \<noteq> x) xs"

lemma set_set_del [simp]: "set (set_del xs x) = set xs - {x}"
  by (auto simp: set_del_def)

lemma distinct_set_del [simp]: "distinct xs \<Longrightarrow> distinct (set_del xs x)"
  by (simp add: set_del_def)

section \<open>JavaScript maps\<close>

type_synonym ('k, 'v) jsmap = "('k \<times> 'v) list"

abbreviation jget :: "('k, 'v) jsmap \<Rightarrow> 'k \<Rightarrow> 'v option" where
  "jget m k \<equiv> map_of m k"

abbreviation jset :: "('k, 'v) jsmap \<Rightarrow> 'k \<Rightarrow> 'v \<Rightarrow> ('k, 'v) jsmap" where
  "jset m k v \<equiv> AList.update k v m"

abbreviation jdel :: "('k, 'v) jsmap \<Rightarrow> 'k \<Rightarrow> ('k, 'v) jsmap" where
  "jdel m k \<equiv> AList.delete k m"

abbreviation jkeys :: "('k, 'v) jsmap \<Rightarrow> 'k list" where
  "jkeys m \<equiv> map fst m"

abbreviation jvalues :: "('k, 'v) jsmap \<Rightarrow> 'v list" where
  "jvalues m \<equiv> map snd m"

abbreviation jok :: "('k, 'v) jsmap \<Rightarrow> bool" where
  "jok m \<equiv> distinct (map fst m)"

text \<open>The contract of a dictionary: what a lookup returns after a write or a removal, and that the
  enumeration agrees with the lookups.\<close>

locale keyed_store =
  fixes get :: "'m \<Rightarrow> 'k \<Rightarrow> 'v option"
    and put :: "'m \<Rightarrow> 'k \<Rightarrow> 'v \<Rightarrow> 'm"
    and del :: "'m \<Rightarrow> 'k \<Rightarrow> 'm"
    and entries :: "'m \<Rightarrow> ('k \<times> 'v) list"
    and ok :: "'m \<Rightarrow> bool"
  assumes get_put: "get (put m k v) k' = (if k' = k then Some v else get m k')"
    and get_del: "get (del m k) k' = (if k' = k then None else get m k')"
    and entries_get: "ok m \<Longrightarrow> (k, v) \<in> set (entries m) \<longleftrightarrow> get m k = Some v"
    and ok_put: "ok m \<Longrightarrow> ok (put m k v)"
    and ok_del: "ok m \<Longrightarrow> ok (del m k)"
begin

lemma entries_put:
  assumes "ok m"
  shows "set (entries (put m k v)) = insert (k, v) {e \<in> set (entries m). fst e \<noteq> k}"
  using entries_get[OF assms] entries_get[OF ok_put[OF assms]]
  by (auto simp: get_put split: if_splits)

lemma entries_del:
  assumes "ok m"
  shows "set (entries (del m k)) = {e \<in> set (entries m). fst e \<noteq> k}"
  using entries_get[OF assms] entries_get[OF ok_del[OF assms]]
  by (auto simp: get_del split: if_splits)

lemma values_put_subset:
  assumes "ok m"
  shows "snd ` set (entries (put m k v)) \<subseteq> insert v (snd ` set (entries m))"
  using entries_put[OF assms] by auto

lemma values_put_fresh:
  assumes "ok m" and "get m k = None \<or> get m k = Some v"
  shows "snd ` set (entries (put m k v)) = insert v (snd ` set (entries m))"
proof -
  have "{e \<in> set (entries m). fst e = k} \<subseteq> {(k, v)}"
    using assms(2) entries_get[OF assms(1)] by auto
  then have "insert (k, v) {e \<in> set (entries m). fst e \<noteq> k} = insert (k, v) (set (entries m))"
    by auto
  with entries_put[OF assms(1)] show ?thesis by auto
qed

end

interpretation jm: keyed_store
  "map_of :: ('k \<times> 'v) list \<Rightarrow> 'k \<Rightarrow> 'v option"
  "\<lambda>m k v. AList.update k v m" "\<lambda>m k. AList.delete k m" "\<lambda>m. m"
  "\<lambda>m. distinct (map fst m)"
  by unfold_locales
    (auto simp: update_conv' delete_conv' distinct_update distinct_delete map_of_eq_Some_iff)

lemma jset_get [simp]: "map_of (AList.update k v m) k' = (if k' = k then Some v else map_of m k')"
  by (rule jm.get_put)

lemma jdel_get [simp]: "map_of (AList.delete k m) k' = (if k' = k then None else map_of m k')"
  by (rule jm.get_del)

lemma jset_keys [simp]: "fst ` set (AList.update k v m) = insert k (fst ` set m)"
  by (simp add: dom_update dom_map_of_conv_image_fst[symmetric] update_conv')

lemma jdel_keys [simp]: "fst ` set (AList.delete k m) = fst ` set m - {k}"
  by (auto simp: AList.delete_eq)

lemma jok_jset [wf_intros]: "jok m \<Longrightarrow> jok (jset m k v)"
  by (rule jm.ok_put)

lemma jok_jdel [wf_intros]: "jok m \<Longrightarrow> jok (jdel m k)"
  by (rule jm.ok_del)


lemma set_jset_subset: "set (jset m k v) \<subseteq> insert (k, v) (set m)" for m :: "('k, 'v) jsmap"
  by (induction m) auto

text \<open>Writing a new key appends; filling an empty map from distinct entries rebuilds them in order.\<close>

lemma update_fresh: "k \<notin> fst ` set m \<Longrightarrow> AList.update k v m = m @ [(k, v)]"
  by (induction m) auto

lemma foldl_update_fresh:
  assumes "distinct (map fst (m @ xs))"
  shows "foldl (\<lambda>m x. AList.update (fst x) (snd x) m) m xs = m @ xs"
  using assms
proof (induction xs arbitrary: m)
  case (Cons x xs)
  have "AList.update (fst x) (snd x) m = m @ [x]"
    using Cons.prems by (subst update_fresh) auto
  with Cons show ?case by auto
qed simp

lemma foldl_rel:
  assumes "rel s t" and "\<And>x s t. x \<in> set xs \<Longrightarrow> rel s t \<Longrightarrow> rel (f s x) (g t x)"
  shows "rel (foldl f s xs) (foldl g t xs)"
  using assms by (induction xs arbitrary: s t) auto

text \<open>Removing a vertex without a self-loop and joining its predecessors to its successors keeps
  the paths between the other vertices.\<close>

lemma bypass_trancl:
  assumes F: "\<And>x y. (x, y) \<in> F \<longleftrightarrow>
      x \<noteq> n \<and> y \<noteq> n \<and> ((x, y) \<in> E \<or> (x, n) \<in> E \<and> (n, y) \<in> E)"
    and loop: "(n, n) \<notin> E" and ne: "x \<noteq> n" "y \<noteq> n"
  shows "(x, y) \<in> F\<^sup>+ \<longleftrightarrow> (x, y) \<in> E\<^sup>+"
proof
  assume "(x, y) \<in> F\<^sup>+"
  then show "(x, y) \<in> E\<^sup>+"
  proof (induction rule: trancl_induct)
    case (base y)
    then show ?case using F by (auto intro: trancl_trans)
  next
    case (step y z)
    then show ?case using F by (meson r_into_trancl trancl_trans)
  qed
next
  assume "(x, y) \<in> E\<^sup>+"
  then have "(y \<noteq> n \<longrightarrow> (x, y) \<in> F\<^sup>+) \<and>
      (y = n \<longrightarrow> (\<exists>p. p \<noteq> n \<and> (p, n) \<in> E \<and> (x, p) \<in> F\<^sup>*))"
  proof (induction rule: trancl_induct)
    case (base y)
    then show ?case using F ne by auto
  next
    case (step y z)
    show ?case
    proof (cases "y = n")
      case True
      with step obtain p where p: "p \<noteq> n" "(p, n) \<in> E" "(x, p) \<in> F\<^sup>*" by auto
      have "z \<noteq> n" using loop step True by auto
      with p step True have "(p, z) \<in> F" using F by auto
      with p \<open>z \<noteq> n\<close> show ?thesis by auto
    next
      case False
      with step have xy: "(x, y) \<in> F\<^sup>+" by auto
      show ?thesis
      proof (cases "z = n")
        case True
        with False step xy show ?thesis by (auto intro: trancl_into_rtrancl)
      next
        case z: False
        with False step have "(y, z) \<in> F" using F by auto
        with xy z show ?thesis by auto
      qed
    qed
  qed
  with ne show "(x, y) \<in> F\<^sup>+" by auto
qed

end
