(* ===== verification/Workflow_Model.thy ===== *)
theory Workflow_Model
  imports Prelude
begin

text \<open>
  The data the workflow engine works on, from \<^verbatim>\<open>packages/workflow/src/interfaces.ts\<close>: nodes,
  connections in the nested form of a workflow file, the data a node produced in each of its runs,
  and the entries of the execution stack and of the waiting list.

  A node object is its address and its fields. The modelled code compares nodes with \<^verbatim>\<open>===\<close>
  and never writes to one it holds in a graph (but for \<open>rewireGraph\<close>, which says what it does), so two references are the same
  object exactly when they agree, address included. Fields that the modelled code neither reads nor
  writes are left out. Object keys are enumerated in insertion order, as JavaScript does for all
  keys but canonical array indices.
\<close>

section \<open>Arrays with holes\<close>

text \<open>An element of a JavaScript array that may be missing, \<^verbatim>\<open>null\<close> or a value.\<close>

datatype 'a slot = Undefined | Null | Value 'a

text \<open>\<open>a[i] = v\<close>: past the end the array grows and leaves holes.\<close>

definition slot_set :: "'a slot list \<Rightarrow> nat \<Rightarrow> 'a slot \<Rightarrow> 'a slot list" where
  "slot_set xs i v =
     (if i < length xs then xs[i := v] else xs @ replicate (i - length xs) Undefined @ [v])"

text \<open>\<open>a[i]\<close>.\<close>

definition slot_get :: "'a slot list \<Rightarrow> nat \<Rightarrow> 'a slot" where
  "slot_get xs i = (if i < length xs then xs ! i else Undefined)"

text \<open>\<open>a.at(i)\<close>: negative indices count from the end.\<close>

definition js_at :: "'a list \<Rightarrow> int \<Rightarrow> 'a option" where
  "js_at xs i =
     (let n = int (length xs); j = (if i < 0 then n + i else i)
      in if 0 \<le> j \<and> j < n then Some (xs ! nat j) else None)"

text \<open>\<open>x ?? d\<close> for a slot.\<close>

fun slot_or :: "'a slot \<Rightarrow> 'a \<Rightarrow> 'a" where
  "slot_or (Value x) d = x"
| "slot_or _ d = d"

lemma length_slot_set [simp]: "length (slot_set xs i v) = max (length xs) (Suc i)"
  by (auto simp: slot_set_def)

lemma slot_get_set [simp]: "slot_get (slot_set xs i v) j = (if j = i then v else slot_get xs j)"
proof (cases "i < length xs")
  case True
  then show ?thesis by (auto simp: slot_set_def slot_get_def)
next
  case False
  then show ?thesis
    by (auto simp: slot_set_def slot_get_def nth_append not_less nth_Cons' le_diff_conv split: if_splits)
qed

section \<open>Nodes and connections\<close>

text \<open>\<^verbatim>\<open>NodeConnectionTypes\<close>; a connection type is its string, since the code takes it from object
  keys without checking it.\<close>

type_synonym connection_type = string

definition NodeConnectionTypes :: "connection_type list" where
  "NodeConnectionTypes =
    [''ai_agent'', ''ai_chain'', ''ai_document'', ''ai_embedding'', ''ai_languageModel'',
     ''ai_memory'', ''ai_outputParser'', ''ai_retriever'', ''ai_reranker'', ''ai_textSplitter'',
     ''ai_tool'', ''ai_vectorStore'', ''main'']"

abbreviation main_type :: connection_type where
  "main_type \<equiv> ''main''"

abbreviation ai_tool_type :: connection_type where
  "ai_tool_type \<equiv> ''ai_tool''"

datatype json = JNull | JBool bool | JNum int | JStr string | JArr "json list"
  | JObj "(string \<times> json) list"

text \<open>The settings of a node that steer its execution; a missing property is \<open>None\<close>, and numbers are
  integers.\<close>

record NodeSettings =
  ns_retryOnFail :: "bool option"
  ns_maxTries :: "int option"
  ns_waitBetweenTries :: "int option"
  ns_alwaysOutputData :: "bool option"
  ns_executeOnce :: "bool option"
  ns_onError :: "string option"
  ns_continueOnFail :: "bool option"

abbreviation no_settings :: NodeSettings where
  "no_settings \<equiv> \<lparr>ns_retryOnFail = None, ns_maxTries = None, ns_waitBetweenTries = None,
     ns_alwaysOutputData = None, ns_executeOnce = None, ns_onError = None, ns_continueOnFail = None\<rparr>"

record INode =
  node_ref :: nat
  node_id :: string
  node_name :: string
  node_typeVersion :: string
  node_type :: string
  node_disabled :: "bool option"
  node_parameters :: "(string \<times> json) list"
  node_rewireOutputLogTo :: "connection_type option"
  node_position :: "int \<times> int"
  node_settings :: NodeSettings

definition is_disabled :: "INode \<Rightarrow> bool" where
  "is_disabled n \<longleftrightarrow> node_disabled n = Some True"

record IConnection =
  con_node :: string
  con_type :: connection_type
  con_index :: nat

type_synonym NodeInputConnections = "IConnection list slot list"
type_synonym INodeConnections = "(connection_type, NodeInputConnections) jsmap"
type_synonym IConnections = "(string, INodeConnections) jsmap"

section \<open>Execution data\<close>

record ISourceData =
  previousNode :: string
  previousNodeOutput :: "nat option"
  previousNodeRun :: "nat option"

record IPairedItemData =
  pi_item :: nat
  pi_input :: "nat option"
  pi_sourceOverwrite :: "ISourceData option"

text \<open>\<^verbatim>\<open>pairedItem\<close> is a number, an object or an array of objects.\<close>

datatype PairedItem = PairedNumber nat | PairedObject IPairedItemData | PairedArray "IPairedItemData list"

text \<open>The properties of an item's \<^verbatim>\<open>json\<close> object, the item its data comes from, and its error object with
  the properties that are read (the message).\<close>

record INodeExecutionData =
  ned_json :: "(string \<times> json) list"
  ned_pairedItem :: "PairedItem option"
  ned_error :: "json option"

abbreviation plain_item :: "(string \<times> json) list \<Rightarrow> INodeExecutionData" where
  "plain_item j \<equiv> \<lparr>ned_json = j, ned_pairedItem = None, ned_error = None\<rparr>"

type_synonym ITaskDataConnections = "(connection_type, INodeExecutionData list slot list) jsmap"
type_synonym ITaskDataConnectionsSource = "(connection_type, ISourceData slot list) jsmap"

text \<open>An error object: its name and its message.\<close>

record ExecutionError =
  err_name :: string
  err_message :: string

text \<open>An action of a node that asks the engine to run other nodes, as an agent does with its tools.\<close>

record EngineAction =
  ea_id :: string
  ea_nodeName :: string
  ea_type :: connection_type
  ea_input :: "(string \<times> json) list"
  ea_parentNodeName :: "string option"
  ea_itemIndex :: "nat option"

record ITaskMetadata =
  tm_subNodeActions :: "(EngineAction \<times> string \<times> nat) list option"
  tm_subNodeMetadata :: json
  tm_preserveSourceOverwrite :: bool
  tm_preservedSourceOverwrite :: "ISourceData option"
  tm_nodeWasResumed :: bool
  tm_forwardAllOutputs :: bool
  tm_resumeError :: "ExecutionError option"

record ITaskData =
  td_executionIndex :: "nat option"
  td_source :: "ISourceData slot list"
  td_data :: "ITaskDataConnections option"
  td_error :: "string option"
  td_executionStatus :: "string option"
  td_inputOverride :: "ITaskDataConnections option"
  td_metadata :: "ITaskMetadata option"

type_synonym IRunData = "(string, ITaskData list) jsmap"
type_synonym IPinData = "(string, INodeExecutionData list) jsmap"

record IExecuteData =
  ed_node :: INode
  ed_data :: ITaskDataConnections
  ed_source :: "ITaskDataConnectionsSource option"

type_synonym IWaitingForExecution = "(string, (nat, ITaskDataConnections) jsmap) jsmap"
type_synonym IWaitingForExecutionSource = "(string, (nat, ITaskDataConnectionsSource) jsmap) jsmap"

definition empty_item :: INodeExecutionData where
  "empty_item = plain_item []"

end
