(* ===== verification/Directed_Graph.thy ===== *)
theory Directed_Graph
  imports Workflow_Model
begin

text \<open>
  \<^verbatim>\<open>packages/core/src/execution-engine/partial-execution-utils/directed-graph.ts\<close>: the editable
  graph of a workflow. The class' two private maps are a record; every method is a function of the
  graph, and a method that asserts returns a \<open>result\<close>. This theory has the data, the editing
  methods and the conversions; the recursive queries are in \<open>Graph_Search\<close> and
  \<open>Graph_Components\<close>.
\<close>

section \<open>Decimal numerals\<close>

text \<open>The text of a number in a template literal.\<close>

fun show_nat :: "nat \<Rightarrow> string" where
  "show_nat n =
     (if n < 10 then [char_of (48 + n)] else show_nat (n div 10) @ [char_of (48 + n mod 10)])"

declare show_nat.simps [simp del]

definition read_digit :: "char \<Rightarrow> nat" where
  "read_digit c = of_char c - 48"

definition read_nat :: "string \<Rightarrow> nat" where
  "read_nat s = foldl (\<lambda>n c. n * 10 + read_digit c) 0 s"

lemma read_digit_char_of: "n < 10 \<Longrightarrow> read_digit (char_of (48 + n)) = n"
  by (simp add: read_digit_def)

lemma read_show_nat: "read_nat (show_nat n) = n"
proof (induction n rule: show_nat.induct)
  case (1 n)
  show ?case
  proof (cases "n < 10")
    case True
    then show ?thesis by (subst show_nat.simps) (simp add: read_nat_def read_digit_def)
  next
    case False
    with 1 have "read_nat (show_nat (n div 10)) = n div 10" by simp
    with False show ?thesis
      by (subst show_nat.simps) (simp add: read_nat_def read_digit_def)
  qed
qed

lemma show_nat_inj: "show_nat m = show_nat n \<Longrightarrow> m = n"
  by (metis read_show_nat)

lemma show_nat_chars: "c \<in> set (show_nat n) \<Longrightarrow> 48 \<le> (of_char c :: nat) \<and> (of_char c :: nat) < 58"
proof (induction n rule: show_nat.induct)
  case (1 n)
  then show ?case
    by (subst (asm) show_nat.simps) (auto split: if_splits)
qed

lemma show_nat_no_dash: "CHR ''-'' \<notin> set (show_nat n)"
  using show_nat_chars[of "CHR ''-''" n] by auto


section \<open>Data\<close>

record GraphConnection =
  gc_from :: INode
  gc_to :: INode
  gc_type :: connection_type
  gc_outputIndex :: nat
  gc_inputIndex :: nat

record DirectedGraph =
  dg_nodes :: "(string, INode) jsmap"
  dg_connections :: "(string, GraphConnection) jsmap"

definition new_graph :: DirectedGraph where
  "new_graph = \<lparr>dg_nodes = [], dg_connections = []\<rparr>"

text \<open>\<^verbatim>\<open>makeKey\<close>: fromName-outputType-outputIndex-inputIndex-toName.\<close>

definition makeKey :: "GraphConnection \<Rightarrow> string" where
  "makeKey c =
     node_name (gc_from c) @ ''-'' @ gc_type c @ ''-'' @ show_nat (gc_outputIndex c) @ ''-'' @
     show_nat (gc_inputIndex c) @ ''-'' @ node_name (gc_to c)"

section \<open>Reading\<close>

definition hasNode :: "DirectedGraph \<Rightarrow> string \<Rightarrow> bool" where
  "hasNode g name \<longleftrightarrow> jget (dg_nodes g) name \<noteq> None"

definition getNodesByNames :: "DirectedGraph \<Rightarrow> string list \<Rightarrow> INode list" where
  "getNodesByNames g names =
     foldl (\<lambda>nodes name. case jget (dg_nodes g) name of None \<Rightarrow> nodes | Some n \<Rightarrow> set_add nodes n)
       [] names"

definition getConnections :: "DirectedGraph \<Rightarrow> INode option \<Rightarrow> GraphConnection list" where
  "getConnections g to =
     filter (\<lambda>c. case to of None \<Rightarrow> True | Some n \<Rightarrow> gc_to c = n) (jvalues (dg_connections g))"

text \<open>The node is the object the graph holds under its name.\<close>

definition isMember :: "DirectedGraph \<Rightarrow> INode \<Rightarrow> bool" where
  "isMember g n \<longleftrightarrow> jget (dg_nodes g) (node_name n) = Some n"

definition getDirectChildConnections :: "DirectedGraph \<Rightarrow> INode \<Rightarrow> GraphConnection list result" where
  "getDirectChildConnections g node =
     (if isMember g node
      then Inr (filter (\<lambda>c. gc_from c = node) (jvalues (dg_connections g)))
      else Inl AssertionError)"

definition getDirectParentConnections :: "DirectedGraph \<Rightarrow> INode \<Rightarrow> GraphConnection list result" where
  "getDirectParentConnections g node =
     (if isMember g node
      then Inr (filter (\<lambda>c. gc_to c = node) (jvalues (dg_connections g)))
      else Inl AssertionError)"

definition getConnection ::
    "DirectedGraph \<Rightarrow> INode \<Rightarrow> nat \<Rightarrow> connection_type \<Rightarrow> nat \<Rightarrow> INode \<Rightarrow> GraphConnection option" where
  "getConnection g from outputIndex type inputIndex to =
     jget (dg_connections g)
       (makeKey \<lparr>gc_from = from, gc_to = to, gc_type = type, gc_outputIndex = outputIndex,
                 gc_inputIndex = inputIndex\<rparr>)"

section \<open>Editing\<close>

definition addNode :: "DirectedGraph \<Rightarrow> INode \<Rightarrow> DirectedGraph" where
  "addNode g n = g\<lparr>dg_nodes := jset (dg_nodes g) (node_name n) n\<rparr>"

definition addNodes :: "DirectedGraph \<Rightarrow> INode list \<Rightarrow> DirectedGraph" where
  "addNodes g ns = foldl addNode g ns"

definition addConnection ::
    "DirectedGraph \<Rightarrow> INode \<Rightarrow> INode \<Rightarrow> connection_type option \<Rightarrow> nat option \<Rightarrow> nat option \<Rightarrow>
     DirectedGraph result" where
  "addConnection g from to type outputIndex inputIndex =
     (if \<not> isMember g from then Inl AssertionError
      else if \<not> isMember g to then Inl AssertionError
      else
        let connection =
          \<lparr>gc_from = from, gc_to = to,
           gc_type = (case type of None \<Rightarrow> main_type | Some t \<Rightarrow> t),
           gc_outputIndex = (case outputIndex of None \<Rightarrow> 0 | Some i \<Rightarrow> i),
           gc_inputIndex = (case inputIndex of None \<Rightarrow> 0 | Some i \<Rightarrow> i)\<rparr>
        in Inr (g\<lparr>dg_connections := jset (dg_connections g) (makeKey connection) connection\<rparr>))"

text \<open>\<open>addConnection\<close> applied to a connection object.\<close>

definition addGraphConnection :: "GraphConnection \<Rightarrow> DirectedGraph \<Rightarrow> DirectedGraph result" where
  "addGraphConnection c g =
     addConnection g (gc_from c) (gc_to c) (Some (gc_type c)) (Some (gc_outputIndex c))
       (Some (gc_inputIndex c))"

definition addConnections :: "DirectedGraph \<Rightarrow> GraphConnection list \<Rightarrow> DirectedGraph result" where
  "addConnections g cs = fold_res addGraphConnection cs g"

definition touches :: "INode \<Rightarrow> GraphConnection \<Rightarrow> bool" where
  "touches node c \<longleftrightarrow> gc_to c = node \<or> gc_from c = node"

text \<open>\<^verbatim>\<open>removeNode\<close> with \<^verbatim>\<open>reconnectConnections: false\<close>.\<close>

definition removeNode :: "DirectedGraph \<Rightarrow> INode \<Rightarrow> DirectedGraph" where
  "removeNode g node =
     g\<lparr>dg_connections := filter (\<lambda>(_, c). \<not> touches node c) (dg_connections g),
       dg_nodes := jdel (dg_nodes g) (node_name node)\<rparr>"

text \<open>\<^verbatim>\<open>removeNode\<close> with \<^verbatim>\<open>reconnectConnections: true\<close>; \<open>skip\<close> is \<^verbatim>\<open>skipConnectionFn\<close>.\<close>

definition join_connections :: "GraphConnection \<Rightarrow> GraphConnection \<Rightarrow> GraphConnection" where
  "join_connections incoming outgoing =
     incoming\<lparr>gc_to := gc_to outgoing, gc_inputIndex := gc_inputIndex outgoing\<rparr>"

definition reconnections ::
    "(GraphConnection \<Rightarrow> bool) \<Rightarrow> GraphConnection list \<Rightarrow> GraphConnection list \<Rightarrow>
     GraphConnection list" where
  "reconnections skip incoming outgoing =
     concat (map (\<lambda>i. if skip i then []
       else concat (map (\<lambda>out. if skip out then []
         else [join_connections i out]) outgoing)) incoming)"

definition setConnection :: "DirectedGraph \<Rightarrow> GraphConnection \<Rightarrow> DirectedGraph" where
  "setConnection g c = g\<lparr>dg_connections := jset (dg_connections g) (makeKey c) c\<rparr>"

definition removeNodeReconnect ::
    "DirectedGraph \<Rightarrow> (GraphConnection \<Rightarrow> bool) \<Rightarrow> INode \<Rightarrow>
     (DirectedGraph \<times> GraphConnection list) result" where
  "removeNodeReconnect g skip node =
     (case getDirectParentConnections g node of
        Inl e \<Rightarrow> Inl e
      | Inr incoming \<Rightarrow>
          (case getDirectChildConnections g node of
             Inl e \<Rightarrow> Inl e
           | Inr outgoing \<Rightarrow>
               let newConnections = reconnections skip incoming outgoing;
                   g1 = g\<lparr>dg_connections := filter (\<lambda>(_, c). \<not> touches node c) (dg_connections g)\<rparr>;
                   g2 = foldl setConnection g1 newConnections
               in Inr (g2\<lparr>dg_nodes := jdel (dg_nodes g2) (node_name node)\<rparr>, newConnections)))"

definition clone :: "DirectedGraph \<Rightarrow> DirectedGraph result" where
  "clone g = addConnections (addNodes new_graph (jvalues (dg_nodes g))) (getConnections g None)"

section \<open>Conversions\<close>

text \<open>The common loops of \<^verbatim>\<open>fromWorkflow\<close> and \<^verbatim>\<open>fromNodesAndConnections\<close>: every output of
  every type of every source node; \<open>lookup\<close> is \<^verbatim>\<open>workflow.getNode\<close> and \<^verbatim>\<open>nodeMap.get\<close>.\<close>

definition addOutputs ::
    "(string \<Rightarrow> INode option) \<Rightarrow> INode \<Rightarrow> connection_type \<Rightarrow> (nat \<times> IConnection list slot) \<Rightarrow>
     DirectedGraph \<Rightarrow> DirectedGraph result" where
  "addOutputs lookup from outputType out =
     fold_res (\<lambda>conn g.
         case lookup (con_node conn) of
           None \<Rightarrow> Inl AssertionError
         | Some to \<Rightarrow> addConnection g from to (Some outputType) (Some (fst out))
                        (Some (con_index conn)))
       (slot_or (snd out) [])"

definition addIConnections ::
    "(string \<Rightarrow> INode option) \<Rightarrow> IConnections \<Rightarrow> DirectedGraph \<Rightarrow> DirectedGraph result" where
  "addIConnections lookup connections =
     fold_res (\<lambda>(fromName, iConnection) g.
         case lookup fromName of
           None \<Rightarrow> Inl AssertionError
         | Some from \<Rightarrow>
             fold_res (\<lambda>(outputType, outputs).
                 fold_res (addOutputs lookup from outputType) (List.enumerate 0 outputs))
               iConnection g)
       connections"

definition fromNodesAndConnections :: "INode list \<Rightarrow> IConnections \<Rightarrow> DirectedGraph result" where
  "fromNodesAndConnections nodes connections =
     (let nodeMap = foldl (\<lambda>m n. jset m (node_name n) n) [] nodes
      in addIConnections (jget nodeMap) connections (addNodes new_graph nodes))"

text \<open>\<^verbatim>\<open>fromWorkflow\<close>, of the workflow's node object and its connections by source node.\<close>

definition fromWorkflow :: "(string, INode) jsmap \<Rightarrow> IConnections \<Rightarrow> DirectedGraph result" where
  "fromWorkflow nodes connectionsBySourceNode =
     addIConnections (jget nodes) connectionsBySourceNode (addNodes new_graph (jvalues nodes))"

text \<open>\<^verbatim>\<open>toIConnections\<close>. The object of a source node is created with the type of its first
  connection only; reading another type of it is a \<^verbatim>\<open>TypeError\<close>.\<close>

definition toIConnections_step :: "GraphConnection \<Rightarrow> IConnections \<Rightarrow> IConnections result" where
  "toIConnections_step c acc =
     (let name = node_name (gc_from c);
          resultConnection = (case jget acc name of None \<Rightarrow> [(gc_type c, [])] | Some m \<Rightarrow> m)
      in case jget resultConnection (gc_type c) of
           None \<Rightarrow> Inl TypeError
         | Some outputs \<Rightarrow>
             let group = slot_or (slot_get outputs (gc_outputIndex c)) [];
                 group' = group @ [\<lparr>con_node = node_name (gc_to c), con_type = gc_type c,
                                    con_index = gc_inputIndex c\<rparr>]
             in Inr (jset acc name
                  (jset resultConnection (gc_type c)
                    (slot_set outputs (gc_outputIndex c) (Value group')))))"

definition toIConnections :: "DirectedGraph \<Rightarrow> IConnections result" where
  "toIConnections g = fold_res toIConnections_step (jvalues (dg_connections g)) []"

end
