(* ===== verification/Graph_Laws.thy ===== *)
theory Graph_Laws
  imports Directed_Graph
begin

text \<open>
  What the editing methods of \<open>DirectedGraph\<close> keep true: the well-formedness of a graph, the
  sets of nodes and connections each edit leaves, when the string keys of connections identify
  them, and that removing a node with reconnection keeps the paths between the other nodes.
\<close>

section \<open>Views and well-formedness\<close>

definition node_set :: "DirectedGraph \<Rightarrow> INode set" where
  "node_set g = set (jvalues (dg_nodes g))"

definition conn_set :: "DirectedGraph \<Rightarrow> GraphConnection set" where
  "conn_set g = set (jvalues (dg_connections g))"

definition edges :: "DirectedGraph \<Rightarrow> (INode \<times> INode) set" where
  "edges g = (\<lambda>c. (gc_from c, gc_to c)) ` conn_set g"

definition type_edges :: "connection_type \<Rightarrow> DirectedGraph \<Rightarrow> (INode \<times> INode) set" where
  "type_edges t g = (\<lambda>c. (gc_from c, gc_to c)) ` {c \<in> conn_set g. gc_type c = t}"

text \<open>Nodes and connections are filed under their own names and keys, and every connection joins
  two nodes of the graph.\<close>

definition wf_graph :: "DirectedGraph \<Rightarrow> bool" where
  "wf_graph g \<longleftrightarrow>
     jok (dg_nodes g) \<and> (\<forall>(k, n) \<in> set (dg_nodes g). k = node_name n) \<and>
     jok (dg_connections g) \<and> (\<forall>(k, c) \<in> set (dg_connections g). k = makeKey c) \<and>
     (\<forall>c \<in> conn_set g. isMember g (gc_from c) \<and> isMember g (gc_to c))"

definition subgraph_of :: "DirectedGraph \<Rightarrow> DirectedGraph \<Rightarrow> bool" where
  "subgraph_of h g \<longleftrightarrow> wf_graph h \<and> node_set h \<subseteq> node_set g \<and> conn_set h \<subseteq> conn_set g"

lemma finite_edges [simp]: "finite (edges g)" and finite_conn_set [simp]: "finite (conn_set g)"
  and finite_node_set [simp]: "finite (node_set g)"
  by (simp_all add: edges_def conn_set_def node_set_def)

lemma wf_nodesD:
  assumes "wf_graph g"
  shows "(k, n) \<in> set (dg_nodes g) \<longleftrightarrow> k = node_name n \<and> isMember g n"
  using assms by (auto simp: wf_graph_def isMember_def)

lemma wf_member [simp]: "wf_graph g \<Longrightarrow> n \<in> node_set g \<longleftrightarrow> isMember g n"
  by (auto simp: node_set_def wf_nodesD image_iff Bex_def split_paired_Ex)

lemma wf_ends:
  "wf_graph g \<Longrightarrow> c \<in> conn_set g \<Longrightarrow> isMember g (gc_from c) \<and> isMember g (gc_to c)"
  by (auto simp: wf_graph_def)

lemma wf_key:
  "wf_graph g \<Longrightarrow> (k, c) \<in> set (dg_connections g) \<longleftrightarrow> k = makeKey c \<and> c \<in> conn_set g"
  by (force simp: wf_graph_def conn_set_def)

lemma wf_get:
  assumes "wf_graph g"
  shows "jget (dg_connections g) (makeKey c) = Some c \<longleftrightarrow> c \<in> conn_set g"
proof -
  have "jget (dg_connections g) (makeKey c) = Some c \<longleftrightarrow> (makeKey c, c) \<in> set (dg_connections g)"
    using assms by (simp add: wf_graph_def)
  with wf_key[OF assms] show ?thesis by simp
qed

lemma wf_key_unique:
  "wf_graph g \<Longrightarrow> c \<in> conn_set g \<Longrightarrow> d \<in> conn_set g \<Longrightarrow> makeKey c = makeKey d \<Longrightarrow> c = d"
  by (metis wf_get option.inject)

lemma member_unique: "isMember g m \<Longrightarrow> isMember g n \<Longrightarrow> node_name m = node_name n \<Longrightarrow> m = n"
  by (simp add: isMember_def)

lemma edges_members: "wf_graph g \<Longrightarrow> (x, y) \<in> edges g \<Longrightarrow> isMember g x \<and> isMember g y"
  by (auto simp: edges_def dest: wf_ends)

section \<open>Adding\<close>

lemma wf_new_graph [wf_intros]: "wf_graph new_graph"
  by (simp add: wf_graph_def new_graph_def conn_set_def)

text \<open>The name of the new node is unused, or used for this very node.\<close>

definition fits :: "DirectedGraph \<Rightarrow> INode \<Rightarrow> bool" where
  "fits g n \<longleftrightarrow> jget (dg_nodes g) (node_name n) = None \<or> isMember g n"

lemma isMember_addNode:
  "isMember (addNode g n) m \<longleftrightarrow> (if node_name m = node_name n then m = n else isMember g m)"
  by (auto simp: isMember_def addNode_def)

lemma isMember_addNode_fits: "fits g n \<Longrightarrow> isMember (addNode g n) m \<longleftrightarrow> m = n \<or> isMember g m"
  unfolding isMember_addNode by (auto simp: fits_def isMember_def)

lemma dg_connections_addNode [simp]: "dg_connections (addNode g n) = dg_connections g"
  by (simp add: addNode_def)

lemma wf_addNode [wf_intros]:
  assumes "wf_graph g" and "fits g n"
  shows "wf_graph (addNode g n)"
proof -
  have "\<forall>(k, m) \<in> set (dg_nodes (addNode g n)). k = node_name m"
    using assms jm.entries_put[of "dg_nodes g" "node_name n" n]
    by (auto simp: wf_graph_def addNode_def)
  moreover have "jok (dg_nodes (addNode g n))"
    using assms by (auto simp: wf_graph_def addNode_def intro: wf_intros)
  ultimately show ?thesis
    using assms by (auto simp: wf_graph_def conn_set_def isMember_addNode_fits)
qed

lemma node_set_addNode: "wf_graph g \<Longrightarrow> fits g n \<Longrightarrow> node_set (addNode g n) = insert n (node_set g)"
  using wf_addNode[of g n] by (auto simp: isMember_addNode_fits set_eq_iff)

lemma wf_setConnection [wf_intros]:
  assumes "wf_graph g" and "isMember g (gc_from c)" and "isMember g (gc_to c)"
  shows "wf_graph (setConnection g c)"
proof -
  have "jok (dg_connections g)" using assms by (simp add: wf_graph_def)
  from jm.entries_put[OF this, of "makeKey c" c] jok_jset[OF this, of "makeKey c" c] assms
  show ?thesis by (auto simp: wf_graph_def setConnection_def isMember_def conn_set_def)
qed

lemma dg_nodes_setConnection [simp]: "dg_nodes (setConnection g c) = dg_nodes g"
  by (simp add: setConnection_def)

lemma isMember_setConnection [simp]: "isMember (setConnection g c) n = isMember g n"
  by (simp add: isMember_def)

lemma conn_set_setConnection:
  assumes "jok (dg_connections g)" and "\<And>k d. (k, d) \<in> set (dg_connections g) \<Longrightarrow> k = makeKey d"
  shows "conn_set (setConnection g c) = insert c {d \<in> conn_set g. makeKey d \<noteq> makeKey c}"
  using jm.entries_put[OF assms(1), of "makeKey c" c] assms(2)
  by (force simp: setConnection_def image_iff conn_set_def)

lemma addGraphConnection_eq:
  "addGraphConnection c g =
     (if isMember g (gc_from c) \<and> isMember g (gc_to c) then Inr (setConnection g c)
      else Inl AssertionError)"
  by (cases c) (simp add: addGraphConnection_def addConnection_def setConnection_def Let_def)

lemma wf_addConnection [wf_intros]:
  "wf_graph g \<Longrightarrow> addConnection g f t ty out inp = Inr g' \<Longrightarrow> wf_graph g'"
  using wf_setConnection
  by (force simp: addConnection_def setConnection_def Let_def split: if_splits)

section \<open>Building inside a given graph\<close>

lemma subgraph_refl: "wf_graph g \<Longrightarrow> subgraph_of g g"
  by (simp add: subgraph_of_def)

lemma subgraph_wf [wf_intros]: "subgraph_of h g \<Longrightarrow> wf_graph h"
  by (simp add: subgraph_of_def)

lemma subgraph_new [wf_intros]: "subgraph_of new_graph g"
  by (simp add: subgraph_of_def wf_new_graph) (simp add: new_graph_def node_set_def conn_set_def)

lemma subgraph_member: "wf_graph g \<Longrightarrow> subgraph_of h g \<Longrightarrow> isMember h n \<Longrightarrow> isMember g n"
  by (metis subgraph_of_def subsetD wf_member)

lemma subgraph_fits:
  assumes "wf_graph g" "subgraph_of h g" "isMember g n"
  shows "fits h n"
proof (cases "jget (dg_nodes h) (node_name n)")
  case (Some m)
  then have "(node_name n, m) \<in> set (dg_nodes h)" by (rule map_of_SomeD)
  with assms(2) have m: "node_name n = node_name m" "isMember h m"
    by (auto simp: subgraph_of_def wf_nodesD)
  with assms have "isMember g m" by (blast intro: subgraph_member)
  with assms m have "m = n" by (metis member_unique)
  with m show ?thesis by (simp add: fits_def)
qed (simp add: fits_def)

lemma subgraph_addNode:
  assumes "wf_graph g" "subgraph_of h g" "isMember g n"
  shows "subgraph_of (addNode h n) g"
    and "node_set (addNode h n) = insert n (node_set h)"
    and "conn_set (addNode h n) = conn_set h"
proof -
  show c: "conn_set (addNode h n) = conn_set h" by (simp add: conn_set_def)
  have f: "fits h n" using assms by (rule subgraph_fits)
  show n: "node_set (addNode h n) = insert n (node_set h)"
    using assms f by (intro node_set_addNode) (auto intro: wf_intros)
  have "wf_graph (addNode h n)" using assms f by (auto intro: wf_intros)
  moreover have "insert n (node_set h) \<subseteq> node_set g"
    using assms by (auto simp: subgraph_of_def)
  ultimately show "subgraph_of (addNode h n) g"
    using assms(2) n c by (simp add: subgraph_of_def)
qed

lemma subgraph_setConnection:
  assumes "wf_graph g" "subgraph_of h g" "c \<in> conn_set g"
    and "isMember h (gc_from c)" "isMember h (gc_to c)"
  shows "subgraph_of (setConnection h c) g"
    and "node_set (setConnection h c) = node_set h"
    and "conn_set (setConnection h c) = insert c (conn_set h)"
proof -
  have wf: "wf_graph (setConnection h c)" using assms by (auto intro: wf_intros)
  have h: "wf_graph h" using assms by (auto intro: wf_intros)
  have "conn_set (setConnection h c) = insert c {d \<in> conn_set h. makeKey d \<noteq> makeKey c}"
    using h by (intro conn_set_setConnection) (auto simp: wf_graph_def)
  also have "\<dots> = insert c (conn_set h)"
    using assms(2,3) wf_key_unique[OF assms(1)] by (auto simp: subgraph_of_def)
  finally show c: "conn_set (setConnection h c) = insert c (conn_set h)" .
  show "node_set (setConnection h c) = node_set h" by (simp add: node_set_def)
  with wf c assms show "subgraph_of (setConnection h c) g"
    by (simp add: subgraph_of_def)
qed


section \<open>Keys of connections\<close>

definition dashless :: "string \<Rightarrow> bool" where
  "dashless s \<longleftrightarrow> CHR ''-'' \<notin> set s"

definition plain_key :: "GraphConnection \<Rightarrow> bool" where
  "plain_key c \<longleftrightarrow> dashless (node_name (gc_from c)) \<and> dashless (gc_type c)"

lemma dash_split:
  "dashless a \<Longrightarrow> dashless b \<Longrightarrow> a @ CHR ''-'' # x = b @ CHR ''-'' # y \<longleftrightarrow> a = b \<and> x = y"
proof (induction a arbitrary: b)
  case Nil
  then show ?case by (cases b) (auto simp: dashless_def)
next
  case (Cons c a)
  then show ?case by (cases b) (auto simp: dashless_def)
qed

lemma dashless_show_nat [simp]: "dashless (show_nat n)"
  using show_nat_no_dash by (simp add: dashless_def)

lemma show_nat_eq [simp]: "show_nat m = show_nat n \<longleftrightarrow> m = n"
  by (auto dest: show_nat_inj)

lemma makeKey_plain:
  assumes "plain_key c" "plain_key d"
  shows "makeKey c = makeKey d \<longleftrightarrow>
    node_name (gc_from c) = node_name (gc_from d) \<and> gc_type c = gc_type d \<and>
    gc_outputIndex c = gc_outputIndex d \<and> gc_inputIndex c = gc_inputIndex d \<and>
    node_name (gc_to c) = node_name (gc_to d)"
  using assms by (auto simp: makeKey_def plain_key_def dash_split)

lemma plain_key_inj:
  assumes "plain_key c" "plain_key d" "makeKey c = makeKey d"
    and "isMember g (gc_from c)" "isMember g (gc_to c)"
    and "isMember g (gc_from d)" "isMember g (gc_to d)"
  shows "c = d"
  using assms by (cases c, cases d) (auto simp: makeKey_plain dest: member_unique)

lemma wf_foldl_setConnection:
  assumes "wf_graph g" and "\<And>c. c \<in> set cs \<Longrightarrow> isMember g (gc_from c) \<and> isMember g (gc_to c)"
    and "\<And>c. c \<in> conn_set g \<union> set cs \<Longrightarrow> plain_key c"
  shows "wf_graph (foldl setConnection g cs) \<and>
    dg_nodes (foldl setConnection g cs) = dg_nodes g \<and>
    conn_set (foldl setConnection g cs) = conn_set g \<union> set cs"
  using assms
proof (induction cs arbitrary: g)
  case Nil
  then show ?case by simp
next
  case (Cons c cs)
  let ?g = "setConnection g c"
  have wf: "wf_graph ?g" using Cons.prems by (auto intro: wf_intros)
  have "conn_set ?g = insert c {d \<in> conn_set g. makeKey d \<noteq> makeKey c}"
    using Cons.prems(1) by (intro conn_set_setConnection) (auto simp: wf_graph_def)
  also have "\<dots> = insert c (conn_set g)"
  proof -
    have "d = c" if "d \<in> conn_set g" "makeKey d = makeKey c" for d
      using that Cons.prems(2)[of c] wf_ends[OF Cons.prems(1) that(1)]
      by (intro plain_key_inj[of d c g]) (auto intro: Cons.prems(3))
    then show ?thesis by blast
  qed
  finally have cs: "conn_set ?g = insert c (conn_set g)" .
  have "wf_graph (foldl setConnection ?g cs) \<and> dg_nodes (foldl setConnection ?g cs) = dg_nodes ?g \<and>
    conn_set (foldl setConnection ?g cs) = conn_set ?g \<union> set cs"
    using Cons.prems wf cs by (intro Cons.IH) auto
  with cs show ?case by simp
qed

section \<open>Cloning\<close>

lemma dg_nodes_addNodes:
  "dg_nodes (addNodes g ns) =
     foldl (\<lambda>m x. AList.update (fst x) (snd x) m) (dg_nodes g) (map (\<lambda>n. (node_name n, n)) ns)"
  unfolding addNodes_def by (induction ns arbitrary: g) (auto simp: addNode_def)

lemma dg_connections_addNodes [simp]: "dg_connections (addNodes g ns) = dg_connections g"
  unfolding addNodes_def by (induction ns arbitrary: g) auto

lemma addConnections_members:
  assumes "\<And>c. c \<in> set cs \<Longrightarrow> isMember g (gc_from c) \<and> isMember g (gc_to c)"
  shows "addConnections g cs = Inr (foldl setConnection g cs)"
  using assms unfolding addConnections_def
  by (induction cs arbitrary: g) (auto simp: addGraphConnection_eq)

lemma dg_connections_foldl_setConnection:
  "dg_connections (foldl setConnection g cs) =
     foldl (\<lambda>m x. AList.update (fst x) (snd x) m) (dg_connections g)
       (map (\<lambda>c. (makeKey c, c)) cs)"
  by (induction cs arbitrary: g) (auto simp: setConnection_def)

lemma dg_nodes_foldl_setConnection [simp]: "dg_nodes (foldl setConnection g cs) = dg_nodes g"
  by (induction cs arbitrary: g) auto

lemma rekey:
  assumes "\<forall>(k, v) \<in> set m. k = f v"
  shows "map (\<lambda>v. (f v, v)) (map snd m) = m"
  using assms by (induction m) auto

lemma clone_ok:
  assumes "wf_graph g"
  shows "clone g = Inr g"
proof -
  let ?h = "addNodes new_graph (jvalues (dg_nodes g))"
  have "map (\<lambda>n. (node_name n, n)) (jvalues (dg_nodes g)) = dg_nodes g"
    using assms by (intro rekey) (auto simp: wf_graph_def)
  then have n: "dg_nodes ?h = dg_nodes g"
    using assms by (simp add: dg_nodes_addNodes new_graph_def foldl_update_fresh wf_graph_def)
  have all: "getConnections g None = jvalues (dg_connections g)"
    by (simp add: getConnections_def)
  have "isMember ?h (gc_from c) \<and> isMember ?h (gc_to c)" if "c \<in> set (jvalues (dg_connections g))" for c
    using assms wf_ends[of g c] that n by (simp add: isMember_def conn_set_def)
  then have "clone g = Inr (foldl setConnection ?h (jvalues (dg_connections g)))"
    unfolding clone_def all by (rule addConnections_members)
  moreover have "map (\<lambda>c. (makeKey c, c)) (jvalues (dg_connections g)) = dg_connections g"
    using assms by (intro rekey) (auto simp: wf_graph_def)
  then have "dg_connections (foldl setConnection ?h (jvalues (dg_connections g))) = dg_connections g"
    using assms by (simp add: dg_connections_foldl_setConnection foldl_update_fresh wf_graph_def new_graph_def)
  ultimately show ?thesis using n by (simp add: DirectedGraph.equality)
qed

text \<open>\<open>clone\<close> of a well-formed graph never fails an assertion and rebuilds the very same
  graph, the order of its nodes and connections included.\<close>

lemma clone_same:
  assumes "wf_graph g"
  shows "clone g = Inr g"
  by (rule clone_ok[OF assms])

section \<open>Removing\<close>

lemma isMember_removeNode [simp]:
  "isMember (removeNode g n) m \<longleftrightarrow> isMember g m \<and> node_name m \<noteq> node_name n"
  by (auto simp: isMember_def removeNode_def)

lemma distinct_fst_filter: "distinct (map fst xs) \<Longrightarrow> distinct (map fst (filter P xs))"
  by (induction xs) auto

lemma conn_set_filter:
  "set (map snd (filter (\<lambda>(k, c). P c) m)) = {c \<in> set (map snd m). P c}"
  by force

lemma removeNode_ok:
  assumes "wf_graph g" and "isMember g n"
  shows "wf_graph (removeNode g n) \<and> node_set (removeNode g n) = node_set g - {n} \<and>
    conn_set (removeNode g n) = {c \<in> conn_set g. gc_from c \<noteq> n \<and> gc_to c \<noteq> n}"
proof -
  let ?h = "removeNode g n"
  have c: "conn_set ?h = {c \<in> conn_set g. gc_from c \<noteq> n \<and> gc_to c \<noteq> n}"
    unfolding conn_set_def removeNode_def by (auto simp: touches_def image_iff)
  have ok: "jok (dg_nodes g)" using assms by (simp add: wf_graph_def)
  have keys: "\<forall>(k, m) \<in> set (dg_nodes ?h). k = node_name m" "jok (dg_nodes ?h)"
    using assms jm.entries_del[OF ok, of "node_name n"] jok_jdel[OF ok, of "node_name n"]
    by (auto simp: wf_graph_def removeNode_def)
  have wf: "wf_graph ?h"
    unfolding wf_graph_def
  proof (intro conjI ballI)
    show "jok (dg_connections ?h)" 
      using assms by (auto simp: removeNode_def wf_graph_def intro: distinct_fst_filter)
    show "case x of (k, c) \<Rightarrow> k = makeKey c" if "x \<in> set (dg_connections ?h)" for x
      using assms that by (auto simp: removeNode_def wf_graph_def)
    fix d assume d: "d \<in> conn_set ?h"
    with c wf_ends[OF assms(1), of d] have
      "isMember g (gc_from d)" "isMember g (gc_to d)" "gc_from d \<noteq> n" "gc_to d \<noteq> n" by auto
    with assms(2) show "isMember ?h (gc_from d)" "isMember ?h (gc_to d)"
      by (auto dest: member_unique)
  qed (use keys in auto)
  moreover have "node_set ?h = node_set g - {n}"
    using wf assms by (auto dest: member_unique)
  ultimately show ?thesis using c by blast
qed

text \<open>\<open>removeNode\<close> without reconnection leaves a well-formed graph that holds every other node,
  exactly the connections that do not use the removed node, and nothing else.\<close>

lemma removeNode_spec:
  assumes "wf_graph g" and "isMember g n"
  shows "wf_graph (removeNode g n) \<and> node_set (removeNode g n) = node_set g - {n} \<and>
    conn_set (removeNode g n) = {c \<in> conn_set g. gc_from c \<noteq> n \<and> gc_to c \<noteq> n}"
  by (rule removeNode_ok[OF assms])

lemma reconnections_mem:
  "c \<in> set (reconnections skip is os) \<longleftrightarrow>
     (\<exists>i \<in> set is. \<exists>out \<in> set os. \<not> skip i \<and> \<not> skip out \<and>
        c = join_connections i out)"
  by (force simp: reconnections_def)

lemma join_connections_sel [simp]:
  "gc_from (join_connections i out) = gc_from i" "gc_to (join_connections i out) = gc_to out"
  "gc_type (join_connections i out) = gc_type i"
  by (simp_all add: join_connections_def)


text \<open>Removal with reconnection over the connections of one type, the way \<open>filterDisabledNodes\<close>
  calls it.\<close>

abbreviation other_type :: "connection_type \<Rightarrow> GraphConnection \<Rightarrow> bool" where
  "other_type t c \<equiv> gc_type c \<noteq> t"

definition plain_graph :: "DirectedGraph \<Rightarrow> bool" where
  "plain_graph g \<longleftrightarrow> (\<forall>c \<in> conn_set g. plain_key c)"

lemma type_edges_iff:
  "(x, y) \<in> type_edges t g \<longleftrightarrow> (\<exists>c \<in> conn_set g. gc_type c = t \<and> gc_from c = x \<and> gc_to c = y)"
  by (auto simp: type_edges_def)

definition joined :: "connection_type \<Rightarrow> INode \<Rightarrow> DirectedGraph \<Rightarrow> GraphConnection set" where
  "joined t n g =
     (\<lambda>(i, out). join_connections i out) `
       {(i, out). i \<in> conn_set g \<and> out \<in> conn_set g \<and> gc_to i = n \<and> gc_from out = n \<and>
          gc_type i = t \<and> gc_type out = t}"

lemma joinedE:
  assumes "c \<in> joined t n g"
  obtains i out where "i \<in> conn_set g" "out \<in> conn_set g" "gc_to i = n" "gc_from out = n"
    "gc_type i = t" "gc_type out = t" "c = join_connections i out"
proof -
  from assms obtain p where p: "c = (\<lambda>(i, out). join_connections i out) p"
    "p \<in> {(i, out). i \<in> conn_set g \<and> out \<in> conn_set g \<and> gc_to i = n \<and> gc_from out = n \<and>
          gc_type i = t \<and> gc_type out = t}"
    unfolding joined_def by (rule imageE)
  show thesis by (rule that[of "fst p" "snd p"]) (use p in \<open>simp_all add: case_prod_beta\<close>)
qed

lemma removeNodeReconnect_sets:
  assumes wf: "wf_graph g" and n: "isMember g n" and pl: "plain_graph g"
    and loop: "(n, n) \<notin> type_edges t g"
  obtains h cs where "removeNodeReconnect g (other_type t) n = Inr (h, cs)"
    and "wf_graph h" and "plain_graph h" and "node_set h = node_set g - {n}"
    and "conn_set h = {c \<in> conn_set g. \<not> touches n c} \<union>
      joined t n g"
proof -
  let ?is = "filter (\<lambda>c. gc_to c = n) (jvalues (dg_connections g))"
  let ?os = "filter (\<lambda>c. gc_from c = n) (jvalues (dg_connections g))"
  let ?cs = "reconnections (other_type t) ?is ?os"
  let ?m = "removeNode g n"
  let ?h = "foldl setConnection ?m ?cs"
  have new: "set ?cs = joined t n g"
    unfolding set_eq_iff reconnections_mem joined_def conn_set_def[symmetric] set_filter
    by (simp add: image_iff conn_set_def[symmetric] del: set_map) blast
  have m: "wf_graph ?m" "node_set ?m = node_set g - {n}"
    "conn_set ?m = {c \<in> conn_set g. \<not> touches n c}"
    using removeNode_ok[OF wf n] by (auto simp: touches_def)
  have ends: "isMember ?m (gc_from c) \<and> isMember ?m (gc_to c)" if "c \<in> joined t n g" for c
  proof -
    from that obtain i out where io: "i \<in> conn_set g" "out \<in> conn_set g" "gc_to i = n"
      "gc_from out = n" "gc_type i = t" "gc_type out = t"
      and c: "c = join_connections i out" by (auto simp: joined_def)
    have "gc_from i \<noteq> n" "gc_to out \<noteq> n" using loop io by (auto simp: type_edges_iff)
    moreover have "isMember g (gc_from i)" "isMember g (gc_to out)" using wf io by (auto dest: wf_ends)
    ultimately show ?thesis using c n by (auto dest: member_unique)
  qed
  have plain: "plain_key c" if "c \<in> conn_set ?m \<union> set ?cs" for c
    using that m new pl by (auto simp: plain_graph_def plain_key_def joined_def)
  have h: "wf_graph ?h \<and> dg_nodes ?h = dg_nodes ?m \<and> conn_set ?h = conn_set ?m \<union> set ?cs"
    using ends new by (intro wf_foldl_setConnection m plain) auto
  have "dg_nodes (foldl setConnection (g\<lparr>dg_connections := filter (\<lambda>(_, c). \<not> touches n c)
      (dg_connections g)\<rparr>) ?cs) = dg_nodes g" by simp
  moreover have "dg_connections (foldl setConnection (g\<lparr>dg_connections := filter (\<lambda>(_, c). \<not> touches n c)
      (dg_connections g)\<rparr>) ?cs) = dg_connections ?h"
    by (simp add: dg_connections_foldl_setConnection removeNode_def)
  ultimately have "removeNodeReconnect g (other_type t) n = Inr (?h, ?cs)"
    using n h unfolding removeNodeReconnect_def getDirectParentConnections_def
      getDirectChildConnections_def
    by (auto simp: Let_def removeNode_def intro!: DirectedGraph.equality)
  moreover have "plain_graph ?h" using h plain by (auto simp: plain_graph_def)
  moreover have "node_set ?h = node_set g - {n}" using h m by (simp add: node_set_def)
  ultimately show thesis using that[of ?h ?cs] h m new by simp
qed

lemma removeNodeReconnect_edges:
  assumes "conn_set h = {c \<in> conn_set g. \<not> touches n c} \<union>
      joined t n g"
    and loop: "(n, n) \<notin> type_edges t g"
  shows "(x, y) \<in> type_edges t h \<longleftrightarrow> x \<noteq> n \<and> y \<noteq> n \<and>
    ((x, y) \<in> type_edges t g \<or> (x, n) \<in> type_edges t g \<and> (n, y) \<in> type_edges t g)"
  (is "_ = ?R")
proof
  assume "(x, y) \<in> type_edges t h"
  then obtain c where c: "c \<in> conn_set h" "gc_type c = t" "gc_from c = x" "gc_to c = y"
    by (auto simp: type_edges_iff)
  show ?R
  proof (cases "c \<in> joined t n g")
    case False
    with c assms(1) have "c \<in> conn_set g" "\<not> touches n c" by auto
    with c show ?thesis by (auto simp: type_edges_iff touches_def)
  next
    case True
    then obtain i out where io: "i \<in> conn_set g" "out \<in> conn_set g" "gc_to i = n"
        "gc_from out = n" "gc_type i = t" "gc_type out = t" "c = join_connections i out"
      by (rule joinedE)
    with c have "gc_from i = x" "gc_to out = y" by simp_all
    with io have "(x, n) \<in> type_edges t g" "(n, y) \<in> type_edges t g"
      unfolding type_edges_iff by blast+
    with loop show ?thesis by auto
  qed
next
  assume R: ?R
  show "(x, y) \<in> type_edges t h"
  proof (cases "(x, y) \<in> type_edges t g")
    case True
    with R obtain c where "c \<in> conn_set g" "gc_type c = t" "gc_from c = x" "gc_to c = y"
      "\<not> touches n c" by (auto simp: type_edges_iff touches_def)
    with assms(1) show ?thesis by (auto simp: type_edges_iff)
  next
    case False
    with R obtain i out where io: "i \<in> conn_set g" "out \<in> conn_set g" "gc_to i = n"
      "gc_from out = n" "gc_type i = t" "gc_type out = t" "gc_from i = x" "gc_to out = y"
      by (auto simp: type_edges_iff)
    then have "join_connections i out \<in> conn_set h"
      unfolding assms(1) joined_def by blast
    with io show ?thesis unfolding type_edges_iff by (intro bexI[of _ "join_connections i out"]) auto
  qed
qed

text \<open>Removing a node with reconnection keeps, between any two other nodes, exactly the paths
  that existed before: the parents of the removed node reach its children, nothing else becomes
  reachable, and no connection is left dangling. The node must have no connection to itself, and
  the source names no dash (\<open>makeKey_collision\<close> and \<open>removeNode_self_loop\<close> show what happens
  otherwise).\<close>

lemma removeNodeReconnect_paths:
  assumes "wf_graph g" and "isMember g n" and "plain_graph g" and "(n, n) \<notin> type_edges t g"
  shows "\<exists>h cs. removeNodeReconnect g (other_type t) n = Inr (h, cs) \<and> wf_graph h \<and>
    node_set h = node_set g - {n} \<and>
    (\<forall>x y. x \<noteq> n \<longrightarrow> y \<noteq> n \<longrightarrow> (x, y) \<in> (type_edges t h)\<^sup>+ \<longleftrightarrow> (x, y) \<in> (type_edges t g)\<^sup>+)"
proof -
  obtain h cs where h: "removeNodeReconnect g (other_type t) n = Inr (h, cs)" "wf_graph h"
    "node_set h = node_set g - {n}"
    and cs: "conn_set h = {c \<in> conn_set g. \<not> touches n c} \<union> joined t n g"
    by (rule removeNodeReconnect_sets[OF assms])
  have E: "(x, y) \<in> type_edges t h \<longleftrightarrow> x \<noteq> n \<and> y \<noteq> n \<and>
      ((x, y) \<in> type_edges t g \<or> (x, n) \<in> type_edges t g \<and> (n, y) \<in> type_edges t g)" for x y
    by (rule removeNodeReconnect_edges[OF cs assms(4)])
  have "\<forall>x y. x \<noteq> n \<longrightarrow> y \<noteq> n \<longrightarrow> (x, y) \<in> (type_edges t h)\<^sup>+ \<longleftrightarrow> (x, y) \<in> (type_edges t g)\<^sup>+"
    by (intro allI impI bypass_trancl[where n = n] E assms(4))
  with h show ?thesis by (intro exI[of _ h] exI[of _ cs] conjI)
qed


section \<open>Sample graphs\<close>

text \<open>Nodes and graphs the closed examples are evaluated on.\<close>

definition sample_node :: "nat \<Rightarrow> string \<Rightarrow> INode" where
  "sample_node r name =
     \<lparr>node_ref = r, node_id = name, node_name = name, node_typeVersion = ''1'',
      node_type = ''n8n-nodes-base.set'', node_disabled = None, node_parameters = [],
      node_rewireOutputLogTo = None,
     node_position = (0, 0), node_settings = no_settings\<rparr>"

definition sample_conn :: "INode \<Rightarrow> INode \<Rightarrow> GraphConnection" where
  "sample_conn a b =
     \<lparr>gc_from = a, gc_to = b, gc_type = main_type, gc_outputIndex = 0, gc_inputIndex = 0\<rparr>"

definition sample_graph :: "INode list \<Rightarrow> (INode \<times> INode) list \<Rightarrow> DirectedGraph" where
  "sample_graph ns es =
     foldl setConnection (addNodes new_graph ns) (map (\<lambda>(a, b). sample_conn a b) es)"

abbreviation "nA \<equiv> sample_node 1 ''a''"
abbreviation "nB \<equiv> sample_node 2 ''b''"
abbreviation "nC \<equiv> sample_node 3 ''c''"
abbreviation "nD \<equiv> sample_node 4 ''d''"

section \<open>Where the keys and the reconnection go wrong\<close>

text \<open>Over connection types of the program and source names without a dash, the string key of
  a connection determines its source, type, output index, input index and target, so distinct
  connections of such a graph never overwrite each other.\<close>

lemma makeKey_injective:
  assumes "dashless (node_name (gc_from c))" "dashless (node_name (gc_from d))"
    and "gc_type c \<in> set NodeConnectionTypes" "gc_type d \<in> set NodeConnectionTypes"
  shows "makeKey c = makeKey d \<longleftrightarrow>
    node_name (gc_from c) = node_name (gc_from d) \<and> gc_type c = gc_type d \<and>
    gc_outputIndex c = gc_outputIndex d \<and> gc_inputIndex c = gc_inputIndex d \<and>
    node_name (gc_to c) = node_name (gc_to d)"
proof -
  have "\<forall>t \<in> set NodeConnectionTypes. dashless t" by code_simp
  with assms show ?thesis by (intro makeKey_plain) (auto simp: plain_key_def)
qed

text \<open>With dashes in node names two connections between different nodes have the same key: in
  a graph of four nodes, adding the second connection silently drops the first.\<close>

lemma makeKey_collision:
  "let a = nA; b = sample_node 2 ''b-main-0-0-c''; a' = sample_node 3 ''a-main-0-0-b''; c = nC;
       g = addNodes new_graph [a, b, a', c]
   in gc_from (sample_conn a b) \<noteq> gc_from (sample_conn a' c) \<and>
      gc_to (sample_conn a b) \<noteq> gc_to (sample_conn a' c) \<and>
      (case addConnections g [sample_conn a b, sample_conn a' c] of
         Inl e \<Rightarrow> False | Inr h \<Rightarrow> getConnections h None = [sample_conn a' c])"
  by code_simp

text \<open>Removing a node that is connected to itself, with reconnection, leaves connections from
  and to the removed node in the graph.\<close>

lemma removeNode_self_loop:
  "case removeNodeReconnect (sample_graph [nA, nB, nC] [(nA, nB), (nB, nB), (nB, nC)])
      (other_type main_type) nB of
     Inl e \<Rightarrow> False
   | Inr (h, _) \<Rightarrow> \<not> isMember h nB \<and> \<not> wf_graph h \<and>
       {sample_conn nA nB, sample_conn nB nC} \<subseteq> conn_set h"
  by code_simp

end
