(* ===== verification/Traversal.thy ===== *)
theory Traversal
  imports Prelude
begin

text \<open>
  The contract of the recursive depth-first searches of the program, and what any search that
  meets it computes. A search has a function for the successors of an item (which may throw), a
  predicate that stops it, and a run over the pending items of one loop with the items seen so
  far; \<open>run_Cons\<close> is the body of that loop. The clients (children and parent connections of a
  node, the depth-first search for a node) discharge the two equations by their definitions and
  inherit totality, soundness and completeness.
\<close>

locale traversal =
  fixes succ :: "'a \<Rightarrow> 'a list result"
    and stop :: "'a \<Rightarrow> bool"
    and run :: "'a list \<Rightarrow> 'a list \<Rightarrow> ('a option \<times> 'a list) result"
    and U :: "'a set"
  assumes finite_U: "finite U"
    and succ_U: "succ x = Inr ys \<Longrightarrow> set ys \<subseteq> U"
    and run_Nil: "run [] seen = Inr (None, seen)"
    and run_Cons: "run (x # xs) seen =
      (if x \<in> set seen then run xs seen
       else if stop x then Inr (Some x, seen @ [x])
       else case succ x of
         Inl e \<Rightarrow> Inl e
       | Inr ys \<Rightarrow>
           (case run ys (seen @ [x]) of
              Inl e \<Rightarrow> Inl e
            | Inr (r, s) \<Rightarrow> (case r of Some y \<Rightarrow> Inr (Some y, s) | None \<Rightarrow> run xs s)))"
begin

definition step_rel :: "('a \<times> 'a) set" where
  "step_rel = {(x, y). \<exists>ys. succ x = Inr ys \<and> y \<in> set ys}"

lemma run_induct [consumes 1, case_names Nil Cons]:
  assumes "set xs \<subseteq> U"
    and Nil: "\<And>seen. P [] seen"
    and Cons: "\<And>x xs seen. x \<in> U \<Longrightarrow> set xs \<subseteq> U \<Longrightarrow>
      (\<And>seen'. set seen \<subseteq> set seen' \<Longrightarrow> P xs seen') \<Longrightarrow>
      (\<And>ys. x \<notin> set seen \<Longrightarrow> set ys \<subseteq> U \<Longrightarrow> P ys (seen @ [x])) \<Longrightarrow> P (x # xs) seen"
  shows "P xs seen"
proof -
  have "\<forall>xs seen. (card (U - set seen), length xs) = m \<longrightarrow> set xs \<subseteq> U \<longrightarrow> P xs seen" for m
  proof (induction m rule: wf_induct_rule [OF wf_lex_prod [OF wf_less_than wf_less_than]])
    case (1 m)
    show ?case
    proof (intro allI impI)
      fix xs seen
      assume m: "(card (U - set seen), length xs) = m" and U: "set xs \<subseteq> U"
      show "P xs seen"
      proof (cases xs)
        case Nil
        then show ?thesis by (simp add: assms(2))
      next
        case (Cons x xs')
        show ?thesis unfolding Cons
        proof (rule assms(3))
          show "x \<in> U" "set xs' \<subseteq> U" using U Cons by auto
          show "P xs' seen'" if "set seen \<subseteq> set seen'" for seen'
          proof -
            have "card (U - set seen') \<le> card (U - set seen)"
              using that finite_U by (intro card_mono) auto
            then have "((card (U - set seen'), length xs'), m) \<in> less_than <*lex*> less_than"
              using m Cons by auto
            from 1[OF this] U Cons show ?thesis by simp
          qed
          show "P ys (seen @ [x])" if "x \<notin> set seen" "set ys \<subseteq> U" for ys
          proof -
            have "card (U - set (seen @ [x])) < card (U - set seen)"
              using that U Cons finite_U by (intro psubset_card_mono) auto
            then have "((card (U - set (seen @ [x])), length ys), m) \<in> less_than <*lex*> less_than"
              using m by auto
            from 1[OF this] that show ?thesis by simp
          qed
        qed
      qed
    qed
  qed
  with assms(1) show ?thesis by blast
qed

lemma run_mono:
  assumes "set xs \<subseteq> U" and "run xs seen = Inr (r, s)"
  shows "set seen \<subseteq> set s"
  using assms
proof (induction xs seen arbitrary: r s rule: run_induct)
  case (Cons x xs seen)
  show ?case
  proof (cases "x \<in> set seen \<or> stop x")
    case True
    with Cons.prems Cons.IH(1)[of seen] show ?thesis by (auto simp: run_Cons split: if_splits)
  next
    case False
    with Cons.prems obtain ys r1 s1 where
      ys: "succ x = Inr ys" "run ys (seen @ [x]) = Inr (r1, s1)"
      by (auto simp: run_Cons split: sum.splits)
    with Cons.IH(2) succ_U False have sub: "set seen \<subseteq> set s1" by fastforce
    with ys False Cons.prems Cons.IH(1)[OF sub] show ?thesis
      by (cases r1) (auto simp: run_Cons)
  qed
qed (simp add: run_Nil)

lemma run_distinct:
  assumes "set xs \<subseteq> U" and "run xs seen = Inr (r, s)" and "distinct seen"
  shows "distinct s"
  using assms
proof (induction xs seen arbitrary: r s rule: run_induct)
  case (Cons x xs seen)
  show ?case
  proof (cases "x \<in> set seen \<or> stop x")
    case True
    with Cons.prems Cons.IH(1)[of seen] show ?thesis by (auto simp: run_Cons split: if_splits)
  next
    case False
    with Cons.prems obtain ys r1 s1 where
      ys: "succ x = Inr ys" "run ys (seen @ [x]) = Inr (r1, s1)"
      by (auto simp: run_Cons split: sum.splits)
    then have U: "set ys \<subseteq> U" by (auto dest: succ_U)
    have sub: "set seen \<subseteq> set s1" using run_mono[OF U ys(2)] by auto
    have "distinct s1" using Cons.IH(2)[OF _ U ys(2)] False Cons.prems by auto
    with ys False Cons.prems Cons.IH(1)[OF sub] show ?thesis
      by (cases r1) (auto simp: run_Cons)
  qed
qed (simp add: run_Nil)

text \<open>If nothing stops the search, every item it added is fully expanded into what it added.\<close>

lemma run_None:
  assumes "set xs \<subseteq> U" and "run xs seen = Inr (None, s)"
  shows "set xs \<subseteq> set s \<and>
    (\<forall>x \<in> set s - set seen. \<not> stop x \<and> (\<exists>ys. succ x = Inr ys \<and> set ys \<subseteq> set s))"
  using assms
proof (induction xs seen arbitrary: s rule: run_induct)
  case (Cons x xs seen)
  show ?case
  proof (cases "x \<in> set seen")
    case True
    with Cons.prems Cons.IH(1)[of seen s] have "run xs seen = Inr (None, s)"
      by (auto simp: run_Cons)
    with Cons.IH(1)[of seen s] run_mono[OF Cons.hyps(2)] True show ?thesis by auto
  next
    case False
    with Cons.prems obtain ys s1 where
      ys: "succ x = Inr ys" "run ys (seen @ [x]) = Inr (None, s1)" "run xs s1 = Inr (None, s)"
        and ns: "\<not> stop x"
      by (auto simp: run_Cons split: sum.splits option.splits if_splits)
    have U: "set ys \<subseteq> U" using ys by (auto dest: succ_U)
    have m1: "insert x (set seen) \<subseteq> set s1" using run_mono[OF U ys(2)] by auto
    have m2: "set s1 \<subseteq> set s" using run_mono[OF Cons.hyps(2) ys(3)] .
    have A: "set ys \<subseteq> set s1 \<and> (\<forall>x \<in> set s1 - set (seen @ [x]).
        \<not> stop x \<and> (\<exists>ys. succ x = Inr ys \<and> set ys \<subseteq> set s1))"
      using Cons.IH(2)[OF False U ys(2)] .
    have B: "set xs \<subseteq> set s \<and> (\<forall>x \<in> set s - set s1.
        \<not> stop x \<and> (\<exists>ys. succ x = Inr ys \<and> set ys \<subseteq> set s))"
      using Cons.IH(1)[OF _ ys(3)] m1 by auto
    have C: "\<not> stop z \<and> (\<exists>ys. succ z = Inr ys \<and> set ys \<subseteq> set s)" if z: "z \<in> set s - set seen" for z
    proof -
      consider "z = x" | "z \<in> set s1 - set (seen @ [x])" | "z \<in> set s - set s1" using z by auto
      then show ?thesis
      proof cases
        case 1
        have "set ys \<subseteq> set s" using A m2 by (meson subset_trans)
        with 1 ys(1) ns show ?thesis by blast
      next
        case 2
        with A obtain zs where "\<not> stop z" "succ z = Inr zs" "set zs \<subseteq> set s1" by blast
        with m2 show ?thesis by (meson subset_trans)
      next
        case 3
        with B show ?thesis by blast
      qed
    qed
    have "set (x # xs) \<subseteq> set s" using m1 m2 B by auto
    with C show ?thesis by blast
  qed
qed (simp add: run_Nil)

lemma run_Some:
  assumes "set xs \<subseteq> U" and "run xs seen = Inr (Some y, s)"
  shows "stop y \<and> y \<in> set s - set seen"
  using assms
proof (induction xs seen arbitrary: s rule: run_induct)
  case (Cons x xs seen)
  show ?case
  proof (cases "x \<in> set seen \<or> stop x")
    case True
    with Cons.prems Cons.IH(1)[of seen] show ?thesis by (auto simp: run_Cons split: if_splits)
  next
    case False
    with Cons.prems obtain ys r1 s1 where
      ys: "succ x = Inr ys" "run ys (seen @ [x]) = Inr (r1, s1)"
      by (auto simp: run_Cons split: sum.splits)
    have U: "set ys \<subseteq> U" using ys by (auto dest: succ_U)
    show ?thesis
    proof (cases r1)
      case None
      have "set seen \<subseteq> set s1" using run_mono[OF U ys(2)] by auto
      with None ys False Cons.prems Cons.IH(1)[of s1 s] show ?thesis by (auto simp: run_Cons)
    next
      case (Some z)
      with ys False Cons.prems Cons.IH(2)[OF _ U] show ?thesis by (auto simp: run_Cons)
    qed
  qed
qed (simp add: run_Nil)

text \<open>Everything the search adds is reachable from what was pending.\<close>

lemma run_sound:
  assumes "set xs \<subseteq> U" and "run xs seen = Inr (r, s)" and "y \<in> set s - set seen"
  shows "\<exists>x \<in> set xs. (x, y) \<in> step_rel\<^sup>*"
  using assms
proof (induction xs seen arbitrary: r s y rule: run_induct)
  case (Cons x xs seen)
  show ?case
  proof (cases "x \<in> set seen \<or> stop x")
    case True
    with Cons.prems Cons.IH(1)[of seen] show ?thesis by (auto simp: run_Cons split: if_splits)
  next
    case False
    with Cons.prems obtain ys r1 s1 where
      ys: "succ x = Inr ys" "run ys (seen @ [x]) = Inr (r1, s1)"
      by (auto simp: run_Cons split: sum.splits)
    have U: "set ys \<subseteq> U" using ys by (auto dest: succ_U)
    have m1: "insert x (set seen) \<subseteq> set s1" using run_mono[OF U ys(2)] by auto
    have inner: "(x, z) \<in> step_rel\<^sup>*" if z: "z \<in> set s1 - set seen" for z
    proof (cases "z = x")
      case False
      with z have "z \<in> set s1 - set (seen @ [x])" by auto
      from Cons.IH(2)[OF _ U ys(2) this] \<open>\<not> (x \<in> set seen \<or> stop x)\<close> obtain w
        where "w \<in> set ys" "(w, z) \<in> step_rel\<^sup>*" by auto
      moreover have "(x, w) \<in> step_rel" using ys \<open>w \<in> set ys\<close> by (auto simp: step_rel_def)
      ultimately show ?thesis by (meson converse_rtrancl_into_rtrancl)
    qed simp
    show ?thesis
    proof (cases r1)
      case None
      then have rest: "run xs s1 = Inr (r, s)" using ys False Cons.prems by (auto simp: run_Cons)
      show ?thesis
      proof (cases "y \<in> set s1")
        case True
        with inner Cons.prems show ?thesis by auto
      next
        case False
        with Cons.IH(1)[OF _ rest] Cons.prems m1 show ?thesis by auto
      qed
    next
      case (Some z)
      with ys False Cons.prems have "s = s1" by (auto simp: run_Cons)
      with inner Cons.prems show ?thesis by auto
    qed
  qed
qed (simp add: run_Nil)

lemma run_total:
  assumes "set xs \<subseteq> U" and "\<And>x. x \<in> U \<Longrightarrow> \<exists>ys. succ x = Inr ys"
  shows "\<exists>r s. run xs seen = Inr (r, s)"
  using assms(1)
proof (induction xs seen rule: run_induct)
  case (Cons x xs seen)
  obtain ys where ys: "succ x = Inr ys" using assms(2) Cons.hyps(1) by blast
  have U: "set ys \<subseteq> U" using ys by (rule succ_U)
  show ?case
  proof (cases "x \<in> set seen \<or> stop x")
    case True
    with Cons.IH(1)[of seen] show ?thesis by (auto simp: run_Cons)
  next
    case False
    with Cons.IH(2)[OF _ U] obtain r1 s1 where r1: "run ys (seen @ [x]) = Inr (r1, s1)" by blast
    have "set seen \<subseteq> set s1" using run_mono[OF U r1] by auto
    with Cons.IH(1)[of s1] r1 ys False show ?thesis by (cases r1) (auto simp: run_Cons)
  qed
qed (simp add: run_Nil)

text \<open>A search that is never stopped has seen exactly what is reachable.\<close>

lemma run_reachable:
  assumes "set xs \<subseteq> U" and "run xs [] = Inr (None, s)"
  shows "set s = step_rel\<^sup>* `` set xs" and "\<forall>y \<in> step_rel\<^sup>* `` set xs. \<not> stop y"
proof -
  have N: "set xs \<subseteq> set s" "\<And>x. x \<in> set s \<Longrightarrow> \<not> stop x \<and> (\<exists>ys. succ x = Inr ys \<and> set ys \<subseteq> set s)"
    using run_None[OF assms] by auto
  have "y \<in> set s" if "x \<in> set s" "(x, y) \<in> step_rel\<^sup>*" for x y
    using that(2,1) by (induction rule: rtrancl_induct) (auto simp: step_rel_def dest!: N(2))
  with N(1) have "step_rel\<^sup>* `` set xs \<subseteq> set s" by auto
  moreover have "set s \<subseteq> step_rel\<^sup>* `` set xs" using run_sound[OF assms] by auto
  ultimately show "set s = step_rel\<^sup>* `` set xs" by blast
  with N(2) show "\<forall>y \<in> step_rel\<^sup>* `` set xs. \<not> stop y" by auto
qed

lemma run_found:
  assumes "set xs \<subseteq> U" and "run xs [] = Inr (Some y, s)"
  shows "stop y \<and> y \<in> step_rel\<^sup>* `` set xs"
  using run_Some[OF assms] run_sound[OF assms, of y] by auto

end

end
