(* ===== verification/Graph_Search.thy ===== *)
theory Graph_Search
  imports Graph_Laws Traversal
begin

text \<open>
  The recursive queries of \<open>DirectedGraph\<close>: \<open>getChildren\<close>, \<open>getParentConnections\<close> and
  \<open>depthFirstSearch\<close>. Each is the loop of the source over the direct connections of a node, with
  the shared mutable set passed through; each is an instance of the contract \<open>traversal\<close>, from
  which it inherits that it terminates without a failed assertion and finds exactly what is
  reachable.
\<close>

section \<open>Children\<close>

text \<open>The loop of \<^verbatim>\<open>getChildrenRecursive\<close> over the targets of the direct connections.\<close>

function childrenLoop :: "DirectedGraph \<Rightarrow> INode list \<Rightarrow> INode list \<Rightarrow> INode list result" where
  "childrenLoop g [] children = Inr children"
| "childrenLoop g (n # ns) children =
     (if n \<in> set children then childrenLoop g ns children
      else case getDirectChildConnections g n of
        Inl e \<Rightarrow> Inl e
      | Inr directChildren \<Rightarrow>
          (case childrenLoop g (map gc_to directChildren) (children @ [n]) of
             Inl e \<Rightarrow> Inl e
           | Inr children' \<Rightarrow> childrenLoop g ns children'))"
  by pat_completeness auto

lemma childrenLoop_grows:
  "childrenLoop_dom (g, ns, ch) \<Longrightarrow> childrenLoop g ns ch = Inr ch' \<Longrightarrow> set ch \<subseteq> set ch'"
proof (induction g ns ch arbitrary: ch' rule: childrenLoop.pinduct)
  case (2 g n ns ch)
  show ?case
  proof (cases "n \<in> set ch")
    case True
    with 2 show ?thesis by (simp add: childrenLoop.psimps)
  next
    case False
    with 2(1,5) obtain cs ch1 where cs: "getDirectChildConnections g n = Inr cs"
      and ch1: "childrenLoop g (map gc_to cs) (ch @ [n]) = Inr ch1" "childrenLoop g ns ch1 = Inr ch'"
      by (simp add: childrenLoop.psimps split: sum.splits)
    from 2(3)[OF False cs ch1(1)] 2(4)[OF False cs ch1(1) ch1(2)] show ?thesis by auto
  qed
qed (simp add: childrenLoop.psimps)

lemma isMember_node_set: "isMember g n \<Longrightarrow> n \<in> node_set g"
  by (force simp: isMember_def node_set_def dest: map_of_SomeD)

lemma directChild_member: "getDirectChildConnections g n = Inr cs \<Longrightarrow> n \<in> node_set g"
  by (auto simp: getDirectChildConnections_def isMember_node_set split: if_splits)

lemma card_unseen: "n \<in> A \<Longrightarrow> finite A \<Longrightarrow> n \<notin> set s \<Longrightarrow> card (A - set (s @ [n])) < card (A - set s)"
  by (intro psubset_card_mono) auto

lemma card_unseen_child:
  "getDirectChildConnections g n = Inr cs \<Longrightarrow> n \<notin> set s \<Longrightarrow>
    card (node_set g - set (s @ [n])) < card (node_set g - set s)"
  by (rule card_unseen) (auto dest: directChild_member)

lemma card_unseen_mono: "finite A \<Longrightarrow> set s \<subseteq> set t \<Longrightarrow> card (A - set t) \<le> card (A - set s)"
  by (intro card_mono) auto

termination childrenLoop
proof (relation "inv_image (less_than <*lex*> less_than)
    (\<lambda>(g, ns, ch). (card (node_set g - set ch), length ns))")
  fix g n ns ch cs ch'
  assume "n \<notin> set ch" "getDirectChildConnections g n = Inr cs"
    and dom: "childrenLoop_dom (g, map gc_to cs, ch @ [n])"
    and r: "childrenLoop g (map gc_to cs) (ch @ [n]) = Inr ch'"
  have "card (node_set g - set ch') \<le> card (node_set g - set ch)"
    using childrenLoop_grows[OF dom r] by (intro card_unseen_mono) auto
  then show "((g, ns, ch'), g, n # ns, ch) \<in> inv_image (less_than <*lex*> less_than)
    (\<lambda>(g, ns, ch). (card (node_set g - set ch), length ns))" by auto
qed (auto intro: card_unseen_child simp del: set_append)

definition getChildrenRecursive :: "DirectedGraph \<Rightarrow> INode \<Rightarrow> INode list \<Rightarrow> INode list result" where
  "getChildrenRecursive g node children =
     (case getDirectChildConnections g node of
        Inl e \<Rightarrow> Inl e
      | Inr directChildren \<Rightarrow> childrenLoop g (map gc_to directChildren) children)"

definition getChildren :: "DirectedGraph \<Rightarrow> INode \<Rightarrow> INode list result" where
  "getChildren g node = getChildrenRecursive g node []"

definition childTargets :: "DirectedGraph \<Rightarrow> INode \<Rightarrow> INode list result" where
  "childTargets g n = map_sum id (map gc_to) (getDirectChildConnections g n)"

interpretation children: traversal "childTargets g" "\<lambda>_. False"
  "\<lambda>ns ch. map_sum id (\<lambda>s. (None, s)) (childrenLoop g ns ch)" "node_set g \<union> gc_to ` conn_set g"
  for g
  by unfold_locales
    (auto simp: childTargets_def getDirectChildConnections_def conn_set_def image_iff
      split: if_splits sum.splits)

lemma children_step_rel:
  assumes "wf_graph g"
  shows "children.step_rel g = edges g"
proof -
  have "(x, y) \<in> children.step_rel g \<longleftrightarrow> isMember g x \<and> (x, y) \<in> edges g" for x y
    by (auto simp: children.step_rel_def childTargets_def getDirectChildConnections_def edges_def
        conn_set_def image_iff)
  with edges_members[OF assms] show ?thesis by auto
qed

lemma direct_children:
  "wf_graph g \<Longrightarrow> isMember g n \<Longrightarrow>
    \<exists>cs. getDirectChildConnections g n = Inr cs \<and> gc_to ` set cs = {m. (n, m) \<in> edges g}"
  by (auto simp: getDirectChildConnections_def edges_def conn_set_def image_iff)

lemma getChildren_ok:
  assumes "wf_graph g" and "isMember g n"
  shows "\<exists>ch. getChildren g n = Inr ch \<and> distinct ch \<and> set ch = {m. (n, m) \<in> (edges g)\<^sup>+}"
proof -
  let ?U = "node_set g \<union> gc_to ` conn_set g"
  obtain cs where cs: "getDirectChildConnections g n = Inr cs" "gc_to ` set cs = {m. (n, m) \<in> edges g}"
    using direct_children[OF assms] by blast
  have U: "set (map gc_to cs) \<subseteq> ?U" using cs(2) by (auto simp: edges_def)
  have tot: "\<exists>ys. childTargets g x = Inr ys" if "x \<in> ?U" for x
    using that assms(1) wf_ends[OF assms(1)]
    by (auto simp: childTargets_def getDirectChildConnections_def)
  obtain s where s: "childrenLoop g (map gc_to cs) [] = Inr s"
    using children.run_total[OF U tot, of "[]"] by (cases "childrenLoop g (map gc_to cs) []") auto
  have "set s = (edges g)\<^sup>* `` {m. (n, m) \<in> edges g}" and "distinct s"
    using children.run_reachable(1)[OF U] children.run_distinct[OF U, of "[]"] s cs(2)
    by (auto simp: children_step_rel[OF assms(1)])
  moreover have "(edges g)\<^sup>* `` {m. (n, m) \<in> edges g} = {m. (n, m) \<in> (edges g)\<^sup>+}"
    by (auto simp: trancl_unfold_left)
  ultimately show ?thesis
    using cs s by (simp add: getChildren_def getChildrenRecursive_def)
qed

text \<open>On a well-formed graph \<open>getChildren\<close> fails no assertion and returns, without duplicates,
  exactly the nodes that a path of at least one connection leads to, so a node is its own child
  iff it is on a cycle.\<close>

lemma getChildren_reachable:
  assumes "wf_graph g" and "isMember g n"
  shows "\<exists>ch. getChildren g n = Inr ch \<and> distinct ch \<and> set ch = {m. (n, m) \<in> (edges g)\<^sup>+}"
  by (rule getChildren_ok[OF assms])

section \<open>Parent connections\<close>

text \<open>The loop of \<^verbatim>\<open>getParentConnectionsRecursive\<close>: the set holds connections, not nodes.\<close>

function parentLoop ::
    "DirectedGraph \<Rightarrow> GraphConnection list \<Rightarrow> GraphConnection list \<Rightarrow> GraphConnection list result" where
  "parentLoop g [] connections = Inr connections"
| "parentLoop g (c # cs) connections =
     (if c \<in> set connections then parentLoop g cs connections
      else case getDirectParentConnections g (gc_from c) of
        Inl e \<Rightarrow> Inl e
      | Inr parentConnections \<Rightarrow>
          (case parentLoop g parentConnections (connections @ [c]) of
             Inl e \<Rightarrow> Inl e
           | Inr connections' \<Rightarrow> parentLoop g cs connections'))"
  by pat_completeness auto

lemma parentLoop_grows:
  "parentLoop_dom (g, cs, s) \<Longrightarrow> parentLoop g cs s = Inr s' \<Longrightarrow> set s \<subseteq> set s'"
proof (induction g cs s arbitrary: s' rule: parentLoop.pinduct)
  case (2 g c cs s)
  show ?case
  proof (cases "c \<in> set s")
    case True
    with 2 show ?thesis by (simp add: parentLoop.psimps)
  next
    case False
    with 2(1,5) obtain ps s1 where ps: "getDirectParentConnections g (gc_from c) = Inr ps"
      and s1: "parentLoop g ps (s @ [c]) = Inr s1" "parentLoop g cs s1 = Inr s'"
      by (simp add: parentLoop.psimps split: sum.splits)
    from 2(3)[OF False ps s1(1)] 2(4)[OF False ps s1(1) s1(2)] show ?thesis by auto
  qed
qed (simp add: parentLoop.psimps)

lemma directParent_subset: "getDirectParentConnections g n = Inr cs \<Longrightarrow> set cs \<subseteq> conn_set g"
  by (auto simp: getDirectParentConnections_def conn_set_def split: if_splits)

text \<open>Only the connections the loop starts from can be foreign to the graph, so the number of
  pending foreign ones shrinks where the number of unseen ones does not.\<close>

definition foreign :: "DirectedGraph \<Rightarrow> GraphConnection list \<Rightarrow> nat" where
  "foreign g cs = length (filter (\<lambda>c. c \<notin> conn_set g) cs)"

lemma foreign_parents: "getDirectParentConnections g n = Inr cs \<Longrightarrow> foreign g cs = 0"
  using directParent_subset[of g n cs] by (auto simp: foreign_def filter_empty_conv)

termination parentLoop
proof (relation "inv_image (less_than <*lex*> less_than <*lex*> less_than)
    (\<lambda>(g, cs, s). (card (conn_set g - set s), foreign g cs, length cs))")
  fix g and c :: GraphConnection and cs s ps s'
  assume c: "c \<notin> set s" "getDirectParentConnections g (gc_from c) = Inr ps"
  have "card (conn_set g - set (s @ [c])) < card (conn_set g - set s)" if "c \<in> conn_set g"
    using that c by (intro card_unseen) auto
  moreover have "conn_set g - set (s @ [c]) = conn_set g - set s" if "c \<notin> conn_set g"
    using that by auto
  moreover have "foreign g ps < foreign g (c # cs)" if "c \<notin> conn_set g"
    using that foreign_parents[OF c(2)] by (simp add: foreign_def)
  ultimately show "((g, ps, s @ [c]), g, c # cs, s) \<in> inv_image (less_than <*lex*> less_than <*lex*> less_than)
    (\<lambda>(g, cs, s). (card (conn_set g - set s), foreign g cs, length cs))"
    by (cases "c \<in> conn_set g") auto
  assume dom: "parentLoop_dom (g, ps, s @ [c])" and r: "parentLoop g ps (s @ [c]) = Inr s'"
  have "card (conn_set g - set s') \<le> card (conn_set g - set s)"
    using parentLoop_grows[OF dom r] by (intro card_unseen_mono) auto
  moreover have "foreign g cs \<le> foreign g (c # cs)" by (simp add: foreign_def)
  ultimately show "((g, cs, s'), g, c # cs, s) \<in> inv_image (less_than <*lex*> less_than <*lex*> less_than)
    (\<lambda>(g, cs, s). (card (conn_set g - set s), foreign g cs, length cs))"
    by auto
qed (auto simp: foreign_def)

definition getParentConnectionsRecursive ::
    "DirectedGraph \<Rightarrow> INode \<Rightarrow> GraphConnection list \<Rightarrow> GraphConnection list result" where
  "getParentConnectionsRecursive g node connections =
     (case getDirectParentConnections g node of
        Inl e \<Rightarrow> Inl e
      | Inr parentConnections \<Rightarrow> parentLoop g parentConnections connections)"

definition getParentConnections :: "DirectedGraph \<Rightarrow> INode \<Rightarrow> GraphConnection list result" where
  "getParentConnections g node = getParentConnectionsRecursive g node []"

definition sourceParents :: "DirectedGraph \<Rightarrow> GraphConnection \<Rightarrow> GraphConnection list result" where
  "sourceParents g c = getDirectParentConnections g (gc_from c)"

interpretation parents: traversal "sourceParents g" "\<lambda>_. False"
  "\<lambda>cs s. map_sum id (\<lambda>s. (None, s)) (parentLoop g cs s)" "conn_set g"
  for g
  by unfold_locales (auto simp: sourceParents_def dest: directParent_subset split: sum.splits)

lemma parents_step:
  "wf_graph g \<Longrightarrow> c \<in> conn_set g \<Longrightarrow>
    (c, d) \<in> parents.step_rel g \<longleftrightarrow> d \<in> conn_set g \<and> gc_to d = gc_from c"
  using wf_ends[of g c]
  by (auto simp: parents.step_rel_def sourceParents_def getDirectParentConnections_def conn_set_def)

lemma parents_steps:
  assumes wf: "wf_graph g"
  shows "(\<exists>c \<in> conn_set g. gc_to c = n \<and> (c, d) \<in> (parents.step_rel g)\<^sup>*) \<longleftrightarrow>
    d \<in> conn_set g \<and> (gc_to d, n) \<in> (edges g)\<^sup>*"
proof
  assume "\<exists>c \<in> conn_set g. gc_to c = n \<and> (c, d) \<in> (parents.step_rel g)\<^sup>*"
  then obtain c where c: "c \<in> conn_set g" "gc_to c = n" and p: "(c, d) \<in> (parents.step_rel g)\<^sup>*"
    by blast
  from p show "d \<in> conn_set g \<and> (gc_to d, n) \<in> (edges g)\<^sup>*"
  proof (induction rule: rtrancl_induct)
    case (step d e)
    then have "d \<in> conn_set g" by simp
    with step wf have e: "e \<in> conn_set g" "gc_to e = gc_from d" by (simp_all add: parents_step)
    have "(gc_to e, gc_to d) \<in> edges g" using \<open>d \<in> conn_set g\<close> e(2) by (force simp: edges_def)
    with step e show ?case by (auto intro: converse_rtrancl_into_rtrancl)
  qed (use c in simp)
next
  assume d: "d \<in> conn_set g \<and> (gc_to d, n) \<in> (edges g)\<^sup>*"
  have "\<exists>c \<in> conn_set g. gc_to c = n \<and> (c, d) \<in> (parents.step_rel g)\<^sup>*"
    if "(m, n) \<in> (edges g)\<^sup>*" "d \<in> conn_set g" "gc_to d = m" for m
    using that
  proof (induction arbitrary: d rule: converse_rtrancl_induct)
    case (step x y)
    then obtain e where e: "e \<in> conn_set g" "gc_from e = x" "gc_to e = y" by (auto simp: edges_def)
    with step.IH[of e] obtain c where "c \<in> conn_set g" "gc_to c = n" "(c, e) \<in> (parents.step_rel g)\<^sup>*"
      by blast
    moreover have "(e, d) \<in> parents.step_rel g" using e step.prems wf by (simp add: parents_step)
    ultimately show ?case by (metis rtrancl.rtrancl_into_rtrancl)
  qed auto
  with d show "\<exists>c \<in> conn_set g. gc_to c = n \<and> (c, d) \<in> (parents.step_rel g)\<^sup>*" by blast
qed

lemma getParentConnections_ok:
  assumes "wf_graph g" and "isMember g n"
  shows "\<exists>cs. getParentConnections g n = Inr cs \<and> distinct cs \<and>
    set cs = {c \<in> conn_set g. (gc_to c, n) \<in> (edges g)\<^sup>*}"
proof -
  let ?ps = "filter (\<lambda>c. gc_to c = n) (jvalues (dg_connections g))"
  have ps: "getDirectParentConnections g n = Inr ?ps"
    using assms by (simp add: getDirectParentConnections_def)
  have U: "set ?ps \<subseteq> conn_set g" using ps by (rule directParent_subset)
  have tot: "\<exists>ys. sourceParents g c = Inr ys" if "c \<in> conn_set g" for c
    using that wf_ends[OF assms(1)] by (auto simp: sourceParents_def getDirectParentConnections_def)
  obtain s where s: "parentLoop g ?ps [] = Inr s"
    using parents.run_total[OF U tot, of "[]"] by (cases "parentLoop g ?ps []") auto
  have "set s = (parents.step_rel g)\<^sup>* `` set ?ps" and "distinct s"
    using parents.run_reachable(1)[OF U] parents.run_distinct[OF U, of "[]"] s by auto
  moreover have "(parents.step_rel g)\<^sup>* `` set ?ps = {c \<in> conn_set g. (gc_to c, n) \<in> (edges g)\<^sup>*}"
  proof -
    have "set ?ps = {c \<in> conn_set g. gc_to c = n}" by (auto simp: conn_set_def)
    with parents_steps[OF assms(1), of n] show ?thesis by blast
  qed
  ultimately show ?thesis
    using ps s by (simp add: getParentConnections_def getParentConnectionsRecursive_def)
qed

text \<open>On a well-formed graph \<open>getParentConnections\<close> fails no assertion and returns, without
  duplicates, exactly the connections on the paths that lead to the node.\<close>

lemma getParentConnections_reachable:
  assumes "wf_graph g" and "isMember g n"
  shows "\<exists>cs. getParentConnections g n = Inr cs \<and> distinct cs \<and>
    set cs = {c \<in> conn_set g. (gc_to c, n) \<in> (edges g)\<^sup>*}"
  by (rule getParentConnections_ok[OF assms])

section \<open>Depth-first search\<close>

text \<open>\<^verbatim>\<open>depthFirstSearchRecursive\<close>, called on the pending nodes of one loop; the result carries
  the mutated set of seen nodes.\<close>

function dfsLoop ::
    "DirectedGraph \<Rightarrow> (INode \<Rightarrow> bool) \<Rightarrow> INode list \<Rightarrow> INode list \<Rightarrow> (INode option \<times> INode list) result" where
  "dfsLoop g fn [] seen = Inr (None, seen)"
| "dfsLoop g fn (n # ns) seen =
     (if n \<in> set seen then dfsLoop g fn ns seen
      else if fn n then Inr (Some n, seen @ [n])
      else case getDirectChildConnections g n of
        Inl e \<Rightarrow> Inl e
      | Inr cs \<Rightarrow>
          (case dfsLoop g fn (map gc_to cs) (seen @ [n]) of
             Inl e \<Rightarrow> Inl e
           | Inr (found, seen') \<Rightarrow>
               (case found of Some m \<Rightarrow> Inr (Some m, seen') | None \<Rightarrow> dfsLoop g fn ns seen')))"
  by pat_completeness auto

lemma dfsLoop_grows:
  "dfsLoop_dom (g, fn, ns, s) \<Longrightarrow> dfsLoop g fn ns s = Inr (r, s') \<Longrightarrow> set s \<subseteq> set s'"
proof (induction g fn ns s arbitrary: r s' rule: dfsLoop.pinduct)
  case (2 g fn n ns s)
  show ?case
  proof (cases "n \<in> set s \<or> fn n")
    case True
    with 2 show ?thesis by (auto simp: dfsLoop.psimps split: if_splits)
  next
    case False
    then have F: "n \<notin> set s" "\<not> fn n" by auto
    with 2(1,5) obtain cs r1 s1 where cs: "getDirectChildConnections g n = Inr cs"
      and s1: "dfsLoop g fn (map gc_to cs) (s @ [n]) = Inr (r1, s1)"
      by (auto simp: dfsLoop.psimps split: sum.splits)
    have "set s \<subseteq> set s1" using 2(3)[OF F cs s1] by auto
    moreover have "set s1 \<subseteq> set s'"
      using 2(1,5) F cs s1 2(4)[OF F cs s1 refl] by (cases r1) (auto simp: dfsLoop.psimps)
    ultimately show ?thesis by blast
  qed
qed (simp add: dfsLoop.psimps)

termination dfsLoop
proof (relation "inv_image (less_than <*lex*> less_than)
    (\<lambda>(g, fn, ns, s). (card (node_set g - set s), length ns))")
  fix g fn n ns s cs p found s'
  assume "n \<notin> set s" "getDirectChildConnections g n = Inr cs"
    and r: "dfsLoop g fn (map gc_to cs) (s @ [n]) = Inr p" "(found, s') = p"
    and dom: "dfsLoop_dom (g, fn, map gc_to cs, s @ [n])"
  have "dfsLoop g fn (map gc_to cs) (s @ [n]) = Inr (found, s')" using r by simp
  from dfsLoop_grows[OF dom this] have "card (node_set g - set s') \<le> card (node_set g - set s)"
    by (intro card_unseen_mono) auto
  then show "((g, fn, ns, s'), g, fn, n # ns, s) \<in> inv_image (less_than <*lex*> less_than)
    (\<lambda>(g, fn, ns, s). (card (node_set g - set s), length ns))" by auto
qed (auto intro: card_unseen_child simp del: set_append)

definition depthFirstSearch :: "DirectedGraph \<Rightarrow> INode \<Rightarrow> (INode \<Rightarrow> bool) \<Rightarrow> INode option result" where
  "depthFirstSearch g from fn = map_sum id fst (dfsLoop g fn [from] [])"

interpretation dfs: traversal "childTargets g" fn "dfsLoop g fn" "node_set g \<union> gc_to ` conn_set g"
  for g fn
  by unfold_locales
    (auto simp: childTargets_def getDirectChildConnections_def conn_set_def image_iff
      split: if_splits sum.splits option.splits)

lemma depthFirstSearch_spec:
  assumes "wf_graph g" and "isMember g from"
  shows "\<exists>r. depthFirstSearch g from fn = Inr r \<and>
    (case r of Some m \<Rightarrow> fn m \<and> (from, m) \<in> (edges g)\<^sup>*
     | None \<Rightarrow> \<forall>m. (from, m) \<in> (edges g)\<^sup>* \<longrightarrow> \<not> fn m)"
proof -
  let ?U = "node_set g \<union> gc_to ` conn_set g"
  have U: "set [from] \<subseteq> ?U" using assms by simp
  have tot: "\<exists>ys. childTargets g x = Inr ys" if "x \<in> ?U" for x
    using that assms(1) wf_ends[OF assms(1)]
    by (auto simp: childTargets_def getDirectChildConnections_def)
  obtain r s where rs: "dfsLoop g fn [from] [] = Inr (r, s)"
    using dfs.run_total[OF U tot, where fn = fn and seen = "[]"] by blast
  have E: "dfs.step_rel g = edges g" using children_step_rel[OF assms(1)] by simp
  show ?thesis
  proof (cases r)
    case None
    with rs dfs.run_reachable(2)[OF U] E show ?thesis by (auto simp: depthFirstSearch_def)
  next
    case (Some m)
    with rs dfs.run_found[OF U] E show ?thesis by (auto simp: depthFirstSearch_def)
  qed
qed

text \<open>On a well-formed graph \<open>depthFirstSearch\<close> fails no assertion; it returns a node that
  satisfies the predicate and is reachable from the start, the start included, and returns none
  exactly when there is no such node.\<close>

lemma depthFirstSearch_finds:
  assumes "wf_graph g" and "isMember g from"
  shows "\<exists>r. depthFirstSearch g from fn = Inr r \<and>
    (case r of Some m \<Rightarrow> fn m \<and> (from, m) \<in> (edges g)\<^sup>*
     | None \<Rightarrow> \<forall>m. (from, m) \<in> (edges g)\<^sup>* \<longrightarrow> \<not> fn m)"
  by (rule depthFirstSearch_spec[OF assms])

end
