(* ===== verification/Graph_Components.thy ===== *)
theory Graph_Components
  imports Graph_Search
begin

text \<open>
  \<open>getStronglyConnectedComponents\<close> of \<open>DirectedGraph\<close>: the closure \<^verbatim>\<open>followNode\<close> with its
  captured variables as a record. Every set it reports is strongly connected and no node is
  reported twice; but the loop that pops a component compares low-link values with the root's id
  instead of popping down to the root, so a component can be lost
  (\<open>components_miss_a_cycle\<close>).
\<close>

section \<open>The algorithm\<close>

text \<open>\<open>tj_stack\<close> has the top of the array \<^verbatim>\<open>stack\<close>, its last element, first.\<close>

record Tarjan =
  tj_id :: nat
  tj_visited :: "INode list"
  tj_ids :: "(INode, nat) jsmap"
  tj_low :: "(INode, nat) jsmap"
  tj_stack :: "INode list"
  tj_sccs :: "INode list list"

definition tj_init :: Tarjan where
  "tj_init = \<lparr>tj_id = 0, tj_visited = [], tj_ids = [], tj_low = [], tj_stack = [], tj_sccs = []\<rparr>"

definition tj_enter :: "INode \<Rightarrow> Tarjan \<Rightarrow> Tarjan" where
  "tj_enter n s =
     s\<lparr>tj_visited := set_add (tj_visited s) n,
       tj_low := jset (tj_low s) n (tj_id s),
       tj_ids := jset (tj_ids s) n (tj_id s),
       tj_id := tj_id s + 1,
       tj_stack := n # tj_stack s\<rparr>"

text \<open>The \<^verbatim>\<open>if (stack.includes(child))\<close> of the loop over the children.\<close>

definition tj_relax :: "INode \<Rightarrow> INode \<Rightarrow> Tarjan \<Rightarrow> Tarjan result" where
  "tj_relax node child s =
     (if child \<in> set (tj_stack s) then
        case jget (tj_low s) child of
          None \<Rightarrow> Inl AssertionError
        | Some childLow \<Rightarrow>
            (case jget (tj_low s) node of
               None \<Rightarrow> Inl AssertionError
             | Some ownLow \<Rightarrow> Inr (s\<lparr>tj_low := jset (tj_low s) node (min childLow ownLow)\<rparr>))
      else Inr s)"

definition tj_leave :: "INode \<Rightarrow> Tarjan \<Rightarrow> Tarjan result" where
  "tj_leave node s =
     (case jget (tj_ids s) node of
        None \<Rightarrow> Inl AssertionError
      | Some ownId \<Rightarrow>
          (case jget (tj_low s) node of
             None \<Rightarrow> Inl AssertionError
           | Some ownLow \<Rightarrow>
               if ownId = ownLow then
                 let popped = takeWhile (\<lambda>n. jget (tj_low s) n = Some ownId) (tj_stack s);
                     rest = dropWhile (\<lambda>n. jget (tj_low s) n = Some ownId) (tj_stack s);
                     scc = set_add_all [] popped
                 in Inr (s\<lparr>tj_stack := rest,
                           tj_sccs := (if length scc > 0 then tj_sccs s @ [scc] else tj_sccs s)\<rparr>)
               else Inr s))"

function followNode :: "DirectedGraph \<Rightarrow> INode \<Rightarrow> Tarjan \<Rightarrow> Tarjan result"
  and followChildren :: "DirectedGraph \<Rightarrow> INode \<Rightarrow> INode list \<Rightarrow> Tarjan \<Rightarrow> Tarjan result" where
  "followNode g node s =
     (if node \<in> set (tj_visited s) then Inr s
      else case getDirectChildConnections g node of
        Inl e \<Rightarrow> Inl e
      | Inr cs \<Rightarrow>
          (case followChildren g node (map gc_to cs) (tj_enter node s) of
             Inl e \<Rightarrow> Inl e
           | Inr s' \<Rightarrow> tj_leave node s'))"
| "followChildren g node [] s = Inr s"
| "followChildren g node (child # children) s =
     (case followNode g child s of
        Inl e \<Rightarrow> Inl e
      | Inr s' \<Rightarrow>
          (case tj_relax node child s' of
             Inl e \<Rightarrow> Inl e
           | Inr s'' \<Rightarrow> followChildren g node children s''))"
  by pat_completeness auto

lemma tj_relax_visited [simp]: "tj_relax n c s = Inr s' \<Longrightarrow> tj_visited s' = tj_visited s"
  by (auto simp: tj_relax_def split: if_splits option.splits)

lemma tj_leave_visited [simp]: "tj_leave n s = Inr s' \<Longrightarrow> tj_visited s' = tj_visited s"
  by (auto simp: tj_leave_def Let_def split: if_splits option.splits)

lemma tj_enter_visited [simp]: "set (tj_visited (tj_enter n s)) = insert n (set (tj_visited s))"
  by (simp add: tj_enter_def)

lemma follow_visited:
  "followNode_followChildren_dom (Inl (g, n, s)) \<Longrightarrow>
     (\<And>s'. followNode g n s = Inr s' \<Longrightarrow> set (tj_visited s) \<subseteq> set (tj_visited s'))"
  "followNode_followChildren_dom (Inr (g, p, cs, t)) \<Longrightarrow>
     (\<And>t'. followChildren g p cs t = Inr t' \<Longrightarrow> set (tj_visited t) \<subseteq> set (tj_visited t'))"
proof (induction g n s and g p cs t rule: followNode_followChildren.pinduct)
  case (1 g n s)
  then show ?case
    by (fastforce simp: followNode.psimps split: if_splits sum.splits)
next
  case (3 g p c cs s)
  from 3(1,4) obtain s1 s2 where s: "followNode g c s = Inr s1" "tj_relax p c s1 = Inr s2"
    "followChildren g p cs s2 = Inr t'"
    by (auto simp: followChildren.psimps split: sum.splits)
  from 3(2)[OF s(1)] 3(3)[OF s] tj_relax_visited[OF s(2)] show ?case by simp
qed (simp add: followChildren.psimps)

termination followNode
proof (relation "inv_image (less_than <*lex*> less_than)
    (\<lambda>x. case x of Inl (g, n, s) \<Rightarrow> (card (node_set g - set (tj_visited s)), 0)
       | Inr (g, p, cs, s) \<Rightarrow> (card (node_set g - set (tj_visited s)), Suc (length cs)))")
  fix g n and s :: Tarjan and cs
  assume "n \<notin> set (tj_visited s)" "getDirectChildConnections g n = Inr cs"
  then have "card (node_set g - set (tj_visited (tj_enter n s))) < card (node_set g - set (tj_visited s))"
    by (intro psubset_card_mono) (auto dest: directChild_member)
  then show "(Inr (g, n, map gc_to cs, tj_enter n s), Inl (g, n, s)) \<in> inv_image (less_than <*lex*> less_than)
    (\<lambda>x. case x of Inl (g, n, s) \<Rightarrow> (card (node_set g - set (tj_visited s)), 0)
       | Inr (g, p, cs, s) \<Rightarrow> (card (node_set g - set (tj_visited s)), Suc (length cs)))" by auto
next
  fix g p c cs and s s1 s2 :: Tarjan
  assume r: "followNode g c s = Inr s1" "tj_relax p c s1 = Inr s2"
    and d: "followNode_followChildren_dom (Inl (g, c, s))"
  have "card (node_set g - set (tj_visited s2)) \<le> card (node_set g - set (tj_visited s))"
    using follow_visited(1)[OF d r(1)] tj_relax_visited[OF r(2)] by (intro card_unseen_mono) auto
  then show "(Inr (g, p, cs, s2), Inr (g, p, c # cs, s)) \<in> inv_image (less_than <*lex*> less_than)
    (\<lambda>x. case x of Inl (g, n, s) \<Rightarrow> (card (node_set g - set (tj_visited s)), 0)
       | Inr (g, p, cs, s) \<Rightarrow> (card (node_set g - set (tj_visited s)), Suc (length cs)))" by auto
qed auto

declare followNode.simps [simp del]

definition getStronglyConnectedComponents :: "DirectedGraph \<Rightarrow> INode list list result" where
  "getStronglyConnectedComponents g =
     map_sum id tj_sccs (fold_res (followNode g) (jvalues (dg_nodes g)) tj_init)"

text \<open>On the cycle a, b, c with the shortcut c to b, \<open>getStronglyConnectedComponents\<close> reports
  no component at all, although any two of the three nodes reach each other: the low-link value
  of c stays at the id of b, so the loop that should pop the component of a stops at c.\<close>

lemma components_miss_a_cycle:
  "let g = sample_graph [nA, nB, nC] [(nA, nB), (nB, nC), (nC, nB), (nB, nA)]
   in wf_graph g \<and> getStronglyConnectedComponents g = Inr [] \<and>
      {(nA, nB), (nB, nC), (nC, nB), (nB, nA)} \<subseteq> edges g"
  by code_simp


section \<open>Soundness of the reported components\<close>

definition tj_inv :: "DirectedGraph \<Rightarrow> Tarjan \<Rightarrow> bool" where
  "tj_inv g s \<longleftrightarrow>
     set (tj_stack s) \<subseteq> set (tj_visited s) \<and>
     (\<forall>n \<in> set (tj_visited s). isMember g n) \<and>
     (\<forall>n. n \<in> set (tj_visited s) \<longleftrightarrow> jget (tj_ids s) n \<noteq> None) \<and>
     (\<forall>n i. jget (tj_ids s) n = Some i \<longrightarrow> i < tj_id s) \<and>
     (\<forall>m n i. jget (tj_ids s) m = Some i \<and> jget (tj_ids s) n = Some i \<longrightarrow> m = n) \<and>
     (\<forall>n i. jget (tj_ids s) n = Some i \<longrightarrow>
        (\<exists>l m. jget (tj_low s) n = Some l \<and> l \<le> i \<and> jget (tj_ids s) m = Some l \<and>
           (n, m) \<in> (edges g)\<^sup>*)) \<and>
     distinct (concat (tj_sccs s) @ tj_stack s) \<and> set (concat (tj_sccs s)) \<subseteq> set (tj_visited s) \<and>
     (\<forall>c \<in> set (tj_sccs s). c \<noteq> [] \<and> (\<forall>x \<in> set c. \<forall>y \<in> set c. (x, y) \<in> (edges g)\<^sup>*))"

lemma tj_visited_id: "tj_inv g s \<Longrightarrow> n \<in> set (tj_visited s) \<Longrightarrow> \<exists>i. jget (tj_ids s) n = Some i"
  by (auto simp: tj_inv_def)

lemma tj_id_inj:
  "tj_inv g s \<Longrightarrow> jget (tj_ids s) m = Some i \<Longrightarrow> jget (tj_ids s) n = Some i \<Longrightarrow> m = n"
  unfolding tj_inv_def by blast

lemma tj_id_bound: "tj_inv g s \<Longrightarrow> jget (tj_ids s) n = Some i \<Longrightarrow> i < tj_id s"
  by (simp add: tj_inv_def)

lemma tj_low_link:
  assumes "tj_inv g s" "jget (tj_ids s) n = Some i"
  obtains l m where "jget (tj_low s) n = Some l" "l \<le> i" "jget (tj_ids s) m = Some l"
    "(n, m) \<in> (edges g)\<^sup>*"
proof -
  from assms have "\<exists>l m. jget (tj_low s) n = Some l \<and> l \<le> i \<and> jget (tj_ids s) m = Some l \<and>
      (n, m) \<in> (edges g)\<^sup>*" unfolding tj_inv_def by blast
  with that show thesis by blast
qed

text \<open>What a call leaves alone: the old stack under the new nodes, which are reachable from
  \<open>n\<close>, and the numbers of the nodes visited before, up to the low-link values of \<open>P\<close>.\<close>

definition tj_ext :: "DirectedGraph \<Rightarrow> INode \<Rightarrow> INode set \<Rightarrow> Tarjan \<Rightarrow> Tarjan \<Rightarrow> bool" where
  "tj_ext g n P s s' \<longleftrightarrow>
     set (tj_visited s) \<subseteq> set (tj_visited s') \<and>
     (\<forall>x \<in> set (tj_visited s). jget (tj_ids s') x = jget (tj_ids s) x) \<and>
     (\<forall>x \<in> set (tj_visited s) - P. jget (tj_low s') x = jget (tj_low s) x) \<and>
     (\<exists>new. tj_stack s' = new @ tj_stack s \<and> (\<forall>x \<in> set new. (n, x) \<in> (edges g)\<^sup>*))"

lemma tj_ext_refl: "tj_ext g n P s s"
  by (simp add: tj_ext_def)

lemma tj_ext_trans:
  assumes "tj_ext g n P s t" "tj_ext g n P t u"
  shows "tj_ext g n P s u"
  using assms unfolding tj_ext_def
  by (elim conjE exE) (auto simp: subset_iff)

lemma tj_ext_up:
  assumes "tj_ext g c {} s t" "(n, c) \<in> edges g"
  shows "tj_ext g n P s t"
  using assms unfolding tj_ext_def
  by (elim conjE exE) (auto intro: converse_rtrancl_into_rtrancl)

lemma tj_inv_init: "tj_inv g tj_init"
  by (simp add: tj_inv_def tj_init_def)

lemma tj_inv_enter:
  assumes "tj_inv g s" "n \<notin> set (tj_visited s)" "isMember g n"
  shows "tj_inv g (tj_enter n s)"
proof -
  have fresh: "jget (tj_ids s) n = None" using assms by (auto simp: tj_inv_def)
  have low: "\<exists>l m'. jget (tj_low (tj_enter n s)) m = Some l \<and> l \<le> i \<and>
      jget (tj_ids (tj_enter n s)) m' = Some l \<and> (m, m') \<in> (edges g)\<^sup>*"
    if "jget (tj_ids (tj_enter n s)) m = Some i" for m i
  proof (cases "m = n")
    case True
    with that show ?thesis by (auto simp: tj_enter_def)
  next
    case False
    with that have "jget (tj_ids s) m = Some i" by (simp add: tj_enter_def)
    with assms(1) obtain l m' where "jget (tj_low s) m = Some l" "l \<le> i"
      "jget (tj_ids s) m' = Some l" "(m, m') \<in> (edges g)\<^sup>*"
      by (rule tj_low_link)
    with False fresh show ?thesis by (intro exI[of _ l] exI[of _ m']) (auto simp: tj_enter_def)
  qed
  show ?thesis
    using assms low fresh unfolding tj_inv_def
    by (auto simp: tj_enter_def less_Suc_eq split: if_splits)
qed

lemma tj_relax_step:
  assumes inv: "tj_inv g s" and p: "p \<in> set (tj_visited s)" and c: "c \<in> set (tj_visited s)"
    and e: "(p, c) \<in> edges g"
  shows "\<exists>s'. tj_relax p c s = Inr s' \<and> tj_inv g s' \<and> tj_ext g p {p} s s'"
proof (cases "c \<in> set (tj_stack s)")
  case False
  with inv show ?thesis by (simp add: tj_relax_def tj_ext_refl)
next
  case True
  from inv p c obtain ip ic where ids: "jget (tj_ids s) p = Some ip" "jget (tj_ids s) c = Some ic"
    by (meson tj_visited_id)
  obtain lp mp where
    p': "jget (tj_low s) p = Some lp" "lp \<le> ip" "jget (tj_ids s) mp = Some lp" "(p, mp) \<in> (edges g)\<^sup>*"
    using tj_low_link[OF inv ids(1)] .
  obtain lc mc where
    c': "jget (tj_low s) c = Some lc" "lc \<le> ic" "jget (tj_ids s) mc = Some lc" "(c, mc) \<in> (edges g)\<^sup>*"
    using tj_low_link[OF inv ids(2)] .
  let ?s = "s\<lparr>tj_low := jset (tj_low s) p (min lc lp)\<rparr>"
  have r: "tj_relax p c s = Inr ?s" using True p' c' by (simp add: tj_relax_def)
  have mid: "\<exists>m. jget (tj_ids s) m = Some (min lc lp) \<and> (p, m) \<in> (edges g)\<^sup>*"
    using p' c' e by (cases "lc \<le> lp") (auto simp: min_def intro: converse_rtrancl_into_rtrancl)
  have low: "\<exists>l m. jget (tj_low ?s) n = Some l \<and> l \<le> i \<and> jget (tj_ids ?s) m = Some l \<and>
      (n, m) \<in> (edges g)\<^sup>*" if n: "jget (tj_ids ?s) n = Some i" for n i
  proof (cases "n = p")
    case True
    with n ids p' mid show ?thesis by auto
  next
    case False
    from n have "jget (tj_ids s) n = Some i" by simp
    with inv obtain l m where "jget (tj_low s) n = Some l" "l \<le> i" "jget (tj_ids s) m = Some l"
      "(n, m) \<in> (edges g)\<^sup>*" by (rule tj_low_link)
    with False show ?thesis by (intro exI[of _ l] exI[of _ m]) simp
  qed
  have "tj_inv g ?s"
    unfolding tj_inv_def
  proof (intro conjI allI impI)
    show "\<exists>l m. jget (tj_low ?s) n = Some l \<and> l \<le> i \<and> jget (tj_ids ?s) m = Some l \<and>
      (n, m) \<in> (edges g)\<^sup>*" if "jget (tj_ids ?s) n = Some i" for n i
      by (rule low[OF that])
  qed (use inv in \<open>simp_all add: tj_inv_def\<close>)
  moreover have "tj_ext g p {p} s ?s" by (simp add: tj_ext_def)
  ultimately show ?thesis using r by blast
qed

lemma tj_inv_pop:
  assumes inv: "tj_inv g s" and st: "tj_stack s = pop @ rest"
    and conn: "\<forall>x \<in> set pop. \<forall>y \<in> set pop. (x, y) \<in> (edges g)\<^sup>*"
  shows "tj_inv g (s\<lparr>tj_stack := rest,
    tj_sccs := (if length pop > 0 then tj_sccs s @ [pop] else tj_sccs s)\<rparr>)" (is "tj_inv g ?s")
proof -
  have ids: "tj_ids ?s = tj_ids s" "tj_low ?s = tj_low s" "tj_visited ?s = tj_visited s"
    "tj_id ?s = tj_id s" "tj_stack ?s = rest" by simp_all
  have "set pop \<union> set rest \<subseteq> set (tj_visited s)" "distinct (concat (tj_sccs s) @ pop @ rest)"
    using inv st by (simp_all add: tj_inv_def)
  then have sccs: "distinct (concat (tj_sccs ?s) @ rest)" "set (concat (tj_sccs ?s)) \<subseteq> set (tj_visited s)"
    "set rest \<subseteq> set (tj_visited s)"
    using inv by (auto simp: tj_inv_def)
  have conn': "c \<noteq> [] \<and> (\<forall>x \<in> set c. \<forall>y \<in> set c. (x, y) \<in> (edges g)\<^sup>*)" if "c \<in> set (tj_sccs ?s)" for c
  proof (cases "c \<in> set (tj_sccs s)")
    case True
    with inv show ?thesis by (simp add: tj_inv_def)
  next
    case False
    with that have "c = pop" "pop \<noteq> []" by (auto split: if_splits)
    with conn show ?thesis by simp
  qed
  show ?thesis
    unfolding tj_inv_def ids
  proof (intro conjI)
    show "\<forall>c \<in> set (tj_sccs ?s). c \<noteq> [] \<and> (\<forall>x \<in> set c. \<forall>y \<in> set c. (x, y) \<in> (edges g)\<^sup>*)"
      by (intro ballI conn')
  qed (fact sccs | use inv in \<open>simp add: tj_inv_def\<close>)+
qed

lemma dropWhile_split: "\<forall>y \<in> set ys. \<not> P y \<Longrightarrow> dropWhile P (xs @ ys) = dropWhile P xs @ ys"
  by (induction xs) (auto simp: dropWhile_eq_self_iff)

lemma takeWhile_split: "\<forall>y \<in> set ys. \<not> P y \<Longrightarrow> takeWhile P (xs @ ys) = takeWhile P xs"
  by (induction xs) (auto simp: takeWhile_eq_Nil_iff)

lemma tj_leave_step:
  assumes inv0: "tj_inv g s0" and n: "n \<notin> set (tj_visited s0)"
    and inv: "tj_inv g s" and ext: "tj_ext g n {n} (tj_enter n s0) s"
  shows "\<exists>s'. tj_leave n s = Inr s' \<and> tj_inv g s' \<and> tj_ext g n {} s0 s'"
proof -
  let ?i = "tj_id s0"
  let ?P = "\<lambda>x. jget (tj_low s) x = Some ?i"
  have idn: "jget (tj_ids s) n = Some ?i"
    using ext by (auto simp: tj_ext_def tj_enter_def)
  obtain l where low: "jget (tj_low s) n = Some l" using tj_low_link[OF inv idn] by metis
  from ext obtain new where new: "tj_stack s = (new @ [n]) @ tj_stack s0"
    "\<forall>x \<in> set new. (n, x) \<in> (edges g)\<^sup>*"
    by (auto simp: tj_ext_def tj_enter_def)
  have keep: "jget (tj_ids s) x = jget (tj_ids s0) x" "jget (tj_low s) x = jget (tj_low s0) x"
    if "x \<in> set (tj_visited s0)" for x
    using ext that n by (auto simp: tj_ext_def tj_enter_def)
  have vis: "set (tj_visited s0) \<subseteq> set (tj_visited s)"
    using ext by (auto simp: tj_ext_def)
  have old: "\<not> ?P x" if x: "x \<in> set (tj_stack s0)" for x
  proof
    assume P: "?P x"
    from x inv0 have v: "x \<in> set (tj_visited s0)" by (auto simp: tj_inv_def)
    then obtain i where i: "jget (tj_ids s0) x = Some i" "i < ?i"
      using tj_visited_id[OF inv0] tj_id_bound[OF inv0] by blast
    obtain k where "jget (tj_low s0) x = Some k" "k \<le> i" using tj_low_link[OF inv0 i(1)] by metis
    with P keep(2)[OF v] i show False by simp
  qed
  let ?pop = "takeWhile ?P (new @ [n])" and ?rest = "dropWhile ?P (new @ [n])"
  have split: "takeWhile ?P (tj_stack s) = ?pop" "dropWhile ?P (tj_stack s) = ?rest @ tj_stack s0"
    unfolding new(1) using old by (intro takeWhile_split dropWhile_split; blast)+
  have frame: "tj_ext g n {} s0 t"
    if "tj_stack t = xs @ tj_stack s0" "set xs \<subseteq> set (new @ [n])"
      "tj_visited t = tj_visited s" "tj_ids t = tj_ids s" "tj_low t = tj_low s" for t xs
    using that new(2) keep vis unfolding tj_ext_def by auto
  show ?thesis
  proof (cases "l = ?i")
    case False
    then have "tj_leave n s = Inr s" using idn low by (simp add: tj_leave_def)
    moreover have "tj_ext g n {} s0 s"
      by (rule frame[OF new(1)]) auto
    ultimately show ?thesis using inv by blast
  next
    case True
    have whole: "?pop @ ?rest @ tj_stack s0 = tj_stack s"
      unfolding new(1) by (metis append_assoc takeWhile_dropWhile_id)
    have "distinct ?pop" using inv new(1) by (auto simp: tj_inv_def intro: distinct_takeWhile)
    then have scc: "set_add_all [] ?pop = ?pop" by (intro set_add_all_distinct[where xs = "[]", simplified]) auto
    let ?s = "s\<lparr>tj_stack := ?rest @ tj_stack s0,
      tj_sccs := (if length ?pop > 0 then tj_sccs s @ [?pop] else tj_sccs s)\<rparr>"
    have leave: "tj_leave n s = Inr ?s"
      using idn low True split scc by (simp add: tj_leave_def Let_def)
    have to_n: "(x, n) \<in> (edges g)\<^sup>*" and from_n: "(n, x) \<in> (edges g)\<^sup>*" if "x \<in> set ?pop" for x
    proof -
      from that have x: "?P x" "x \<in> set (new @ [n])" by (auto dest: set_takeWhileD)
      then show "(n, x) \<in> (edges g)\<^sup>*" using new(2) by auto
      from x new(1) inv have "x \<in> set (tj_visited s)" by (auto simp: tj_inv_def)
      then obtain i where "jget (tj_ids s) x = Some i" using tj_visited_id[OF inv] by blast
      with x(1) obtain m where m: "jget (tj_ids s) m = Some ?i" "(x, m) \<in> (edges g)\<^sup>*"
        using tj_low_link[OF inv] by (metis option.inject)
      with idn have "m = n" using tj_id_inj[OF inv] by blast
      with m show "(x, n) \<in> (edges g)\<^sup>*" by simp
    qed
    have conn: "\<forall>x \<in> set ?pop. \<forall>y \<in> set ?pop. (x, y) \<in> (edges g)\<^sup>*"
      using to_n from_n by (meson rtrancl_trans)
    have "tj_inv g ?s" by (rule tj_inv_pop[OF inv whole[symmetric] conn])
    moreover have "tj_ext g n {} s0 ?s"
      by (rule frame[where xs = ?rest]) (auto dest: set_dropWhileD)
    ultimately show ?thesis using leave by blast
  qed
qed


lemma follow_ok:
  assumes wf: "wf_graph g"
  shows "tj_inv g s \<Longrightarrow> isMember g n \<Longrightarrow>
      \<exists>s'. followNode g n s = Inr s' \<and> tj_inv g s' \<and> tj_ext g n {} s s' \<and> n \<in> set (tj_visited s')"
    and "tj_inv g t \<Longrightarrow> p \<in> set (tj_visited t) \<Longrightarrow> \<forall>c \<in> set cs. (p, c) \<in> edges g \<Longrightarrow>
      \<exists>t'. followChildren g p cs t = Inr t' \<and> tj_inv g t' \<and> tj_ext g p {p} t t'"
  using wf
proof (induction g n s and g p cs t rule: followNode_followChildren.induct)
  case (1 g n s)
  show ?case
  proof (cases "n \<in> set (tj_visited s)")
    case True
    with 1 show ?thesis by (simp add: followNode.simps tj_ext_refl)
  next
    case False
    obtain cs where cs: "getDirectChildConnections g n = Inr cs"
      "gc_to ` set cs = {m. (n, m) \<in> edges g}"
      using direct_children[OF 1(4,3)] by blast
    have kids: "\<forall>c \<in> set (map gc_to cs). (n, c) \<in> edges g" using cs(2) by auto
    have enter: "tj_inv g (tj_enter n s)" using tj_inv_enter[OF 1(2) False 1(3)] .
    obtain t where t: "followChildren g n (map gc_to cs) (tj_enter n s) = Inr t" "tj_inv g t"
      "tj_ext g n {n} (tj_enter n s) t"
      using 1(1)[OF False cs(1) enter _ kids 1(4)] by auto
    obtain s' where s': "tj_leave n t = Inr s'" "tj_inv g s'" "tj_ext g n {} s s'"
      using tj_leave_step[OF 1(2) False t(2,3)] by blast
    have "n \<in> set (tj_visited t)" using t(3) by (auto simp: tj_ext_def)
    with s' t False cs show ?thesis by (auto simp: followNode.simps)
  qed
next
  case (2 g p t)
  then show ?case by (simp add: tj_ext_refl)
next
  case (3 g p c cs t)
  have e: "(p, c) \<in> edges g" using 3(5) by simp
  then have "isMember g c" using edges_members[OF 3(6)] by blast
  then obtain t1 where t1: "followNode g c t = Inr t1" "tj_inv g t1" "tj_ext g c {} t t1"
    "c \<in> set (tj_visited t1)"
    using 3(1)[OF 3(3) _ 3(6)] by blast
  have p1: "p \<in> set (tj_visited t1)" using t1(3) 3(4) by (auto simp: tj_ext_def)
  obtain t2 where t2: "tj_relax p c t1 = Inr t2" "tj_inv g t2" "tj_ext g p {p} t1 t2"
    using tj_relax_step[OF t1(2) p1 t1(4) e] by blast
  have p2: "p \<in> set (tj_visited t2)" using t2(3) p1 by (auto simp: tj_ext_def)
  obtain t3 where t3: "followChildren g p cs t2 = Inr t3" "tj_inv g t3" "tj_ext g p {p} t2 t3"
    using 3(2)[OF t1(1) t2(1) t2(2) p2 _ 3(6)] 3(5) by auto
  have "tj_ext g p {p} t t3"
    using tj_ext_up[OF t1(3) e] t2(3) t3(3) by (blast intro: tj_ext_trans)
  with t1 t2 t3 show ?case by simp
qed

lemma components_all:
  assumes "wf_graph g"
  shows "\<exists>sccs. getStronglyConnectedComponents g = Inr sccs \<and> distinct (concat sccs) \<and>
    (\<forall>c \<in> set sccs. c \<noteq> [] \<and> (\<forall>x \<in> set c. isMember g x \<and> (\<forall>y \<in> set c. (x, y) \<in> (edges g)\<^sup>*)))"
proof -
  have "\<exists>s. fold_res (followNode g) (jvalues (dg_nodes g)) tj_init = Inr s \<and> tj_inv g s"
  proof (rule fold_res_total)
    show "tj_inv g tj_init" by (rule tj_inv_init)
    fix n s assume "n \<in> set (jvalues (dg_nodes g))" and inv: "tj_inv g s"
    then have "isMember g n" using assms wf_member[of g n] by (simp add: node_set_def)
    from follow_ok(1)[OF assms inv this] show "\<exists>s'. followNode g n s = Inr s' \<and> tj_inv g s'" by blast
  qed
  then obtain s where s: "fold_res (followNode g) (jvalues (dg_nodes g)) tj_init = Inr s" "tj_inv g s"
    by blast
  have "distinct (concat (tj_sccs s))" using s(2) by (simp add: tj_inv_def)
  moreover have "isMember g x" if "c \<in> set (tj_sccs s)" "x \<in> set c" for c x
    using s(2) that unfolding tj_inv_def by auto
  moreover have "c \<noteq> [] \<and> (\<forall>x \<in> set c. \<forall>y \<in> set c. (x, y) \<in> (edges g)\<^sup>*)" if "c \<in> set (tj_sccs s)" for c
    using s(2) that by (simp add: tj_inv_def)
  ultimately show ?thesis
    unfolding getStronglyConnectedComponents_def s(1) by (intro exI[of _ "tj_sccs s"]) simp
qed

text \<open>On a well-formed graph \<open>getStronglyConnectedComponents\<close> fails no assertion; every set it
  reports is non-empty, consists of nodes of the graph any two of which reach each other, and no
  node is reported twice. (It need not report every component: \<open>components_miss_a_cycle\<close>.)\<close>

lemma components_sound:
  assumes "wf_graph g"
  shows "\<exists>sccs. getStronglyConnectedComponents g = Inr sccs \<and> distinct (concat sccs) \<and>
    (\<forall>c \<in> set sccs. c \<noteq> [] \<and> (\<forall>x \<in> set c. isMember g x \<and> (\<forall>y \<in> set c. (x, y) \<in> (edges g)\<^sup>*)))"
  by (rule components_all[OF assms])

lemma components_ok:
  assumes "wf_graph g"
  shows "\<exists>sccs. getStronglyConnectedComponents g = Inr sccs \<and>
    (\<forall>c \<in> set sccs. \<forall>x \<in> set c. \<forall>y \<in> set c. (x, y) \<in> (edges g)\<^sup>*)"
  using components_all[OF assms] by (elim exE conjE) auto

section \<open>Cycles of start nodes\<close>

text \<open>\<^verbatim>\<open>handle-cycles.ts\<close>. The comment of the source says that components of one node are
  filtered out; the filter it applies, size at least one, keeps them all.\<close>

definition replaceStart ::
    "DirectedGraph \<Rightarrow> INode \<Rightarrow> INode \<Rightarrow> INode list \<Rightarrow> INode list \<Rightarrow> INode list result" where
  "replaceStart g trigger startNode cycle newStartNodes =
     (if startNode \<in> set cycle then
        case depthFirstSearch g trigger (\<lambda>n. n \<in> set cycle) of
          Inl e \<Rightarrow> Inl e
        | Inr None \<Rightarrow> Inl AssertionError
        | Inr (Some firstNode) \<Rightarrow> Inr (set_add (set_del newStartNodes startNode) firstNode)
      else Inr newStartNodes)"

definition handleCycles :: "DirectedGraph \<Rightarrow> INode list \<Rightarrow> INode \<Rightarrow> INode list result" where
  "handleCycles g startNodes trigger =
     (case getStronglyConnectedComponents g of
        Inl e \<Rightarrow> Inl e
      | Inr sccs \<Rightarrow>
          let cycles = filter (\<lambda>cycle. length cycle \<ge> 1) sccs
          in if cycles = [] then Inr startNodes
             else fold_res (\<lambda>startNode. fold_res (replaceStart g trigger startNode) cycles)
                    startNodes startNodes)"

text \<open>The new start nodes: each is connected both ways to a start node it stands for, each start
  node has such a stand-in, and each is reachable from the trigger.\<close>

definition stands_for :: "DirectedGraph \<Rightarrow> INode \<Rightarrow> INode \<Rightarrow> bool" where
  "stands_for g m n \<longleftrightarrow> (m, n) \<in> (edges g)\<^sup>* \<and> (n, m) \<in> (edges g)\<^sup>*"

lemma stands_for_refl: "stands_for g n n"
  by (simp add: stands_for_def)

lemma stands_for_trans: "stands_for g a b \<Longrightarrow> stands_for g b c \<Longrightarrow> stands_for g a c"
  unfolding stands_for_def by (meson rtrancl_trans)

definition good_starts :: "DirectedGraph \<Rightarrow> INode \<Rightarrow> INode list \<Rightarrow> INode list \<Rightarrow> bool" where
  "good_starts g trigger old new \<longleftrightarrow>
     distinct new \<and> (\<forall>m \<in> set new. \<exists>n \<in> set old. stands_for g m n) \<and>
     (\<forall>n \<in> set old. \<exists>m \<in> set new. stands_for g m n) \<and>
     (\<forall>m \<in> set new. (trigger, m) \<in> (edges g)\<^sup>*)"

lemma replaceStart_good:
  assumes wf: "wf_graph g" and t: "isMember g trigger"
    and c: "\<forall>x \<in> set cycle. \<forall>y \<in> set cycle. (x, y) \<in> (edges g)\<^sup>*"
    and s: "startNode \<in> set old" "(trigger, startNode) \<in> (edges g)\<^sup>*"
    and new: "good_starts g trigger old new"
  shows "\<exists>new'. replaceStart g trigger startNode cycle new = Inr new' \<and> good_starts g trigger old new'"
proof (cases "startNode \<in> set cycle")
  case False
  with new show ?thesis by (simp add: replaceStart_def)
next
  case True
  obtain r where r: "depthFirstSearch g trigger (\<lambda>n. n \<in> set cycle) = Inr r"
    and spec: "case r of Some m \<Rightarrow> m \<in> set cycle \<and> (trigger, m) \<in> (edges g)\<^sup>*
     | None \<Rightarrow> \<forall>m. (trigger, m) \<in> (edges g)\<^sup>* \<longrightarrow> m \<notin> set cycle"
    using depthFirstSearch_spec[OF wf t, of "\<lambda>n. n \<in> set cycle"] by blast
  with True s(2) obtain f where f: "r = Some f" "f \<in> set cycle" "(trigger, f) \<in> (edges g)\<^sup>*"
    by (cases r) auto
  have fs: "stands_for g f startNode" using c f(2) True by (simp add: stands_for_def)
  have res: "replaceStart g trigger startNode cycle new = Inr (set_add (set_del new startNode) f)"
    using True r f(1) by (simp add: replaceStart_def)
  have cover: "\<exists>m' \<in> insert f (set new - {startNode}). stands_for g m' n" if n: "n \<in> set old" for n
  proof -
    from new n obtain m where m: "m \<in> set new" "stands_for g m n" by (auto simp: good_starts_def)
    show ?thesis
    proof (cases "m = startNode")
      case True
      with m fs have "stands_for g f n" by (blast intro: stands_for_trans)
      then show ?thesis by simp
    qed (use m in auto)
  qed
  have "good_starts g trigger old (set_add (set_del new startNode) f)"
    using new f(3) fs s(1) cover unfolding good_starts_def by auto
  with res show ?thesis by blast
qed

lemma handleCycles_ok:
  assumes "wf_graph g" and "isMember g trigger" and "distinct startNodes"
    and "\<forall>n \<in> set startNodes. (trigger, n) \<in> (edges g)\<^sup>*"
  shows "\<exists>new. handleCycles g startNodes trigger = Inr new \<and> good_starts g trigger startNodes new"
proof -
  obtain sccs where sccs: "getStronglyConnectedComponents g = Inr sccs"
    "\<forall>c \<in> set sccs. \<forall>x \<in> set c. \<forall>y \<in> set c. (x, y) \<in> (edges g)\<^sup>*"
    using components_ok[OF assms(1)] by blast
  let ?cycles = "filter (\<lambda>cycle. length cycle \<ge> 1) sccs"
  have init: "good_starts g trigger startNodes startNodes"
    using assms by (auto simp: good_starts_def intro: stands_for_refl)
  have inner: "\<exists>new'. fold_res (replaceStart g trigger n) ?cycles new = Inr new' \<and>
      good_starts g trigger startNodes new'"
    if "n \<in> set startNodes" "good_starts g trigger startNodes new" for n new
    using that assms sccs(2) by (intro fold_res_total replaceStart_good) auto
  have "\<exists>new. fold_res (\<lambda>n. fold_res (replaceStart g trigger n) ?cycles) startNodes startNodes = Inr new \<and>
      good_starts g trigger startNodes new"
    by (rule fold_res_total[OF init inner])
  with sccs(1) init show ?thesis by (simp add: handleCycles_def Let_def)
qed



end
