(* ===== verification/Partial_Graph.thy ===== *)
theory Partial_Graph
  imports Graph_Components
begin

text \<open>
  \<^verbatim>\<open>filter-disabled-nodes.ts\<close>: a partial execution works on the graph of the workflow with the disabled nodes
  bypassed.
\<close>

section \<open>Disabled nodes\<close>

definition filterDisabledNodes :: "DirectedGraph \<Rightarrow> DirectedGraph result" where
  "filterDisabledNodes graph =
     (case clone graph of
        Inl e \<Rightarrow> Inl e
      | Inr filteredGraph \<Rightarrow>
          fold_res (\<lambda>node h.
              if is_disabled node
              then map_sum id fst (removeNodeReconnect h (other_type main_type) node)
              else Inr h)
            (jvalues (dg_nodes filteredGraph)) filteredGraph)"

text \<open>The graph after the disabled nodes in \<open>done\<close> have been removed: the paths between the nodes
  left, and no cycle through disabled nodes only.\<close>

definition bypassed :: "DirectedGraph \<Rightarrow> INode set \<Rightarrow> INode set \<Rightarrow> DirectedGraph \<Rightarrow> bool" where
  "bypassed g D gone h \<longleftrightarrow>
     wf_graph h \<and> plain_graph h \<and> node_set h = node_set g - gone \<and>
     acyclic (type_edges main_type h \<inter> D \<times> D) \<and>
     (\<forall>x y. x \<notin> gone \<longrightarrow> y \<notin> gone \<longrightarrow>
        (x, y) \<in> (type_edges main_type h)\<^sup>+ \<longleftrightarrow> (x, y) \<in> (type_edges main_type g)\<^sup>+)"

lemma bypass_acyclic:
  assumes "acyclic (E \<inter> D \<times> D)" and "n \<in> D"
    and "\<And>x y. (x, y) \<in> F \<Longrightarrow> (x, y) \<in> E \<or> (x, n) \<in> E \<and> (n, y) \<in> E"
  shows "acyclic (F \<inter> D \<times> D)"
proof -
  have "F \<inter> D \<times> D \<subseteq> (E \<inter> D \<times> D)\<^sup>+"
  proof (rule subrelI)
    fix x y assume "(x, y) \<in> F \<inter> D \<times> D"
    then have "(x, y) \<in> E \<inter> D \<times> D \<or> (x, n) \<in> E \<inter> D \<times> D \<and> (n, y) \<in> E \<inter> D \<times> D"
      using assms(2,3) by blast
    then show "(x, y) \<in> (E \<inter> D \<times> D)\<^sup>+" by (meson r_into_trancl trancl_trans)
  qed
  then have "(F \<inter> D \<times> D)\<^sup>+ \<subseteq> (E \<inter> D \<times> D)\<^sup>+"
    by (metis trancl_mono_subset trancl_id[OF trans_trancl])
  with assms(1) show ?thesis by (auto simp: acyclic_def)
qed

lemma bypassed_step:
  assumes h: "bypassed g D gone h" and n: "isMember h n" "n \<in> D"
  shows "\<exists>h'. map_sum id fst (removeNodeReconnect h (other_type main_type) n) = Inr h' \<and>
    bypassed g D (insert n gone) h'"
proof -
  let ?E = "type_edges main_type h"
  have wf: "wf_graph h" "plain_graph h" and ns: "node_set h = node_set g - gone"
    and ac: "acyclic (?E \<inter> D \<times> D)"
    and paths: "\<And>x y. x \<notin> gone \<Longrightarrow> y \<notin> gone \<Longrightarrow>
      (x, y) \<in> ?E\<^sup>+ \<longleftrightarrow> (x, y) \<in> (type_edges main_type g)\<^sup>+"
    using h by (auto simp: bypassed_def)
  have loop: "(n, n) \<notin> ?E"
  proof
    assume "(n, n) \<in> ?E"
    with n have "(n, n) \<in> (?E \<inter> D \<times> D)\<^sup>+" by auto
    with ac show False by (auto simp: acyclic_def)
  qed
  obtain h' cs where r: "removeNodeReconnect h (other_type main_type) n = Inr (h', cs)"
    and h': "wf_graph h'" "plain_graph h'" "node_set h' = node_set h - {n}"
    and c: "conn_set h' = {c \<in> conn_set h. \<not> touches n c} \<union> joined main_type n h"
    by (rule removeNodeReconnect_sets[OF wf(1) n(1) wf(2) loop])
  have E': "(x, y) \<in> type_edges main_type h' \<longleftrightarrow> x \<noteq> n \<and> y \<noteq> n \<and>
      ((x, y) \<in> ?E \<or> (x, n) \<in> ?E \<and> (n, y) \<in> ?E)" for x y
    by (rule removeNodeReconnect_edges[OF c loop])
  have "acyclic (type_edges main_type h' \<inter> D \<times> D)"
    using E' by (intro bypass_acyclic[OF ac n(2)]) blast
  moreover have "(x, y) \<in> (type_edges main_type h')\<^sup>+ \<longleftrightarrow> (x, y) \<in> (type_edges main_type g)\<^sup>+"
    if "x \<notin> insert n gone" "y \<notin> insert n gone" for x y
    using that bypass_trancl[OF E' loop, of x y] paths[of x y] by auto
  moreover have "node_set h' = node_set g - insert n gone" using h'(3) ns by auto
  ultimately show ?thesis using r h'(1,2) by (auto simp: bypassed_def)
qed

lemma bypass_all:
  assumes "bypassed g D gone h" and "D = {n. is_disabled n}" and "distinct ns"
    and "\<forall>n \<in> set ns. isMember h n"
  shows "\<exists>h'. fold_res (\<lambda>node h. if is_disabled node
       then map_sum id fst (removeNodeReconnect h (other_type main_type) node) else Inr h) ns h = Inr h' \<and>
     bypassed g D (gone \<union> (set ns \<inter> D)) h'"
  using assms
proof (induction ns arbitrary: gone h)
  case (Cons n ns)
  show ?case
  proof (cases "n \<in> D")
    case False
    with Cons.IH[OF Cons.prems(1,2)] Cons.prems show ?thesis by simp
  next
    case True
    obtain h1 where h1: "map_sum id fst (removeNodeReconnect h (other_type main_type) n) = Inr h1"
      "bypassed g D (insert n gone) h1"
      using bypassed_step[OF Cons.prems(1) _ True] Cons.prems(4) by auto
    have "node_set h1 = node_set g - insert n gone" "node_set h = node_set g - gone" "wf_graph h1" "wf_graph h"
      using h1(2) Cons.prems(1) by (auto simp: bypassed_def)
    then have "isMember h1 m \<longleftrightarrow> isMember h m \<and> m \<noteq> n" for m
      by (metis Diff_iff insert_iff wf_member)
    with Cons.prems have "\<forall>m \<in> set ns. isMember h1 m" by auto
    with Cons.IH[OF h1(2) Cons.prems(2)] Cons.prems(3) obtain h' where
      "fold_res (\<lambda>node h. if is_disabled node
       then map_sum id fst (removeNodeReconnect h (other_type main_type) node) else Inr h) ns h1 = Inr h'"
      "bypassed g D (insert n gone \<union> (set ns \<inter> D)) h'" by auto
    with h1 True Cons.prems(2) show ?thesis by (auto simp: insert_commute Int_insert_left)
  qed
qed simp

lemma filterDisabledNodes_ok:
  assumes wf: "wf_graph g" "plain_graph g"
    and ac: "acyclic (type_edges main_type g \<inter> {n. is_disabled n} \<times> {n. is_disabled n})"
  shows "\<exists>h. filterDisabledNodes g = Inr h \<and> wf_graph h \<and> plain_graph h \<and>
    node_set h = {n \<in> node_set g. \<not> is_disabled n} \<and>
    (\<forall>x y. \<not> is_disabled x \<longrightarrow> \<not> is_disabled y \<longrightarrow>
       (x, y) \<in> (type_edges main_type h)\<^sup>+ \<longleftrightarrow> (x, y) \<in> (type_edges main_type g)\<^sup>+)"
proof -
  let ?D = "{n. is_disabled n}" and ?ns = "jvalues (dg_nodes g)"
  have init: "bypassed g ?D {} g" using assms by (simp add: bypassed_def)
  have "map (\<lambda>v. (node_name v, v)) ?ns = dg_nodes g"
    using wf by (intro rekey) (auto simp: wf_graph_def)
  then have "distinct (map (\<lambda>v. (node_name v, v)) ?ns)"
    using wf by (metis distinct_zipI1 wf_graph_def zip_map_fst_snd)
  then have d: "distinct ?ns" by (rule distinct_map[THEN iffD1, THEN conjunct1])
  have m: "\<forall>n \<in> set ?ns. isMember g n" using wf(1) wf_member[of g] by (auto simp: node_set_def)
  obtain h where h: "filterDisabledNodes g = Inr h" "bypassed g ?D (set ?ns \<inter> ?D) h"
    using bypass_all[OF init refl d m] wf unfolding filterDisabledNodes_def clone_ok[OF wf(1)] by auto
  have path: "(x, y) \<in> (type_edges main_type h)\<^sup>+ \<longleftrightarrow> (x, y) \<in> (type_edges main_type g)\<^sup>+"
    if "\<not> is_disabled x" "\<not> is_disabled y" for x y
    using h(2) that by (auto simp: bypassed_def)
  have "node_set h = {n \<in> node_set g. \<not> is_disabled n}"
    using h(2) by (auto simp: bypassed_def node_set_def)
  with h path show ?thesis by (auto simp: bypassed_def)
qed


definition disabled_node :: "nat \<Rightarrow> string \<Rightarrow> INode" where
  "disabled_node r name = (sample_node r name)\<lparr>node_disabled := Some True\<rparr>"

abbreviation "xB \<equiv> disabled_node 2 ''b''"
abbreviation "xC \<equiv> disabled_node 3 ''c''"


end
