(* ===== verification/Find_Subgraph.thy ===== *)
theory Find_Subgraph
  imports Partial_Graph
begin

text \<open>
  \<^verbatim>\<open>find-subgraph.ts\<close>: what a partial execution keeps of the graph. The recursive walk goes from the
  destination against the main connections; \<open>currentBranch\<close> is the path walked so far, its last
  connection the one just followed.
\<close>

section \<open>The algorithm\<close>

text \<open>The loops that add a branch to the new graph.\<close>

definition addWithNodes :: "GraphConnection \<Rightarrow> DirectedGraph \<Rightarrow> DirectedGraph result" where
  "addWithNodes c h = addGraphConnection c (addNodes h [gc_from c, gc_to c])"

definition addBranch :: "GraphConnection list \<Rightarrow> DirectedGraph \<Rightarrow> DirectedGraph result" where
  "addBranch branch h = fold_res addWithNodes branch h"

function findSubgraphRecursive ::
    "DirectedGraph \<Rightarrow> INode \<Rightarrow> INode \<Rightarrow> INode \<Rightarrow> DirectedGraph \<Rightarrow> GraphConnection list \<Rightarrow>
     DirectedGraph result" where
  "findSubgraphRecursive graph destinationNode current trigger newGraph currentBranch =
     (if current = trigger then addBranch currentBranch (addNode newGraph trigger)
      else case getDirectParentConnections graph current of
        Inl e \<Rightarrow> Inl e
      | Inr parentConnections \<Rightarrow>
          if length parentConnections = 0 then Inr newGraph
          else if current = destinationNode \<and> destinationNode \<in> set (map gc_to currentBranch)
            then Inr newGraph
          else if current \<in> set (map gc_to currentBranch) then addBranch currentBranch newGraph
          else fold_res (\<lambda>parentConnection h.
                 if gc_type parentConnection \<noteq> main_type then Inr h
                 else findSubgraphRecursive graph destinationNode (gc_from parentConnection) trigger h
                        (currentBranch @ [parentConnection]))
               parentConnections newGraph)"
  by pat_completeness auto

lemma directParents_eq:
  "getDirectParentConnections g n = Inr ps \<longleftrightarrow>
     isMember g n \<and> ps = filter (\<lambda>c. gc_to c = n) (jvalues (dg_connections g))"
  by (auto simp: getDirectParentConnections_def)

lemma directParents_mem:
  "getDirectParentConnections g n = Inr ps \<Longrightarrow> c \<in> set ps \<longleftrightarrow> c \<in> conn_set g \<and> gc_to c = n"
  by (auto simp: directParents_eq conn_set_def)

termination findSubgraphRecursive
proof (relation "measure (\<lambda>(g, d, c, t, h, br). card (node_set g - set (map gc_to br)))", goal_cases)
  case (2 g d c t h br ps p h')
  then have "c \<in> node_set g" "gc_to p = c"
    by (auto simp: directParents_eq isMember_node_set)
  with 2 have "node_set g - set (map gc_to (br @ [p])) \<subset> node_set g - set (map gc_to br)" by auto
  then show ?case by (simp add: psubset_card_mono del: map_append)
qed simp

declare findSubgraphRecursive.simps [simp del]

text \<open>Step 6 of the source: the connections of other types that lead to a node of the subgraph.\<close>

definition addUtilityConnections :: "DirectedGraph \<Rightarrow> INode \<Rightarrow> DirectedGraph \<Rightarrow> DirectedGraph result" where
  "addUtilityConnections graph node subgraph =
     (case getParentConnections graph node of
        Inl e \<Rightarrow> Inl e
      | Inr parentConnections \<Rightarrow>
          fold_res (\<lambda>c h. if gc_type c = main_type then Inr h else addWithNodes c h)
            parentConnections subgraph)"

definition findSubgraph :: "DirectedGraph \<Rightarrow> INode \<Rightarrow> INode \<Rightarrow> DirectedGraph result" where
  "findSubgraph graph destination trigger =
     (case findSubgraphRecursive graph destination destination trigger new_graph [] of
        Inl e \<Rightarrow> Inl e
      | Inr subgraph \<Rightarrow>
          fold_res (addUtilityConnections graph) (jvalues (dg_nodes subgraph)) subgraph)"

section \<open>What it keeps\<close>

text \<open>A path against the main connections: \<open>cs\<close> starts at a connection into \<open>d\<close> and ends at one
  from \<open>t\<close>.\<close>

fun back_path :: "DirectedGraph \<Rightarrow> INode \<Rightarrow> GraphConnection list \<Rightarrow> INode \<Rightarrow> bool" where
  "back_path g d [] t \<longleftrightarrow> d = t"
| "back_path g d (c # cs) t \<longleftrightarrow>
     c \<in> conn_set g \<and> gc_type c = main_type \<and> gc_to c = d \<and> back_path g (gc_from c) cs t"

lemma back_path_snoc:
  "back_path g d cs t \<Longrightarrow> c \<in> conn_set g \<Longrightarrow> gc_type c = main_type \<Longrightarrow> gc_to c = t \<Longrightarrow>
    back_path g d (cs @ [c]) (gc_from c)"
  by (induction cs arbitrary: d) auto

lemma back_path_conn: "back_path g d cs t \<Longrightarrow> set cs \<subseteq> {c \<in> conn_set g. gc_type c = main_type}"
  by (induction cs arbitrary: d) auto

lemma back_path_edges: "back_path g d cs t \<Longrightarrow> c \<in> set cs \<Longrightarrow> (gc_to c, d) \<in> (type_edges main_type g)\<^sup>*"
proof (induction cs arbitrary: d)
  case (Cons b cs)
  then have e: "(gc_from b, d) \<in> type_edges main_type g" by (auto simp: type_edges_iff)
  show ?case
  proof (cases "c = b")
    case False
    with Cons have "(gc_to c, gc_from b) \<in> (type_edges main_type g)\<^sup>*" by auto
    with e show ?thesis by (auto intro: rtrancl_into_rtrancl)
  qed (use Cons in auto)
qed simp

text \<open>The invariant of the walk: a subgraph of \<open>g\<close> of main connections that lead to \<open>d\<close>, and it
  only grows.\<close>

definition feeds :: "DirectedGraph \<Rightarrow> INode \<Rightarrow> DirectedGraph \<Rightarrow> DirectedGraph \<Rightarrow> bool" where
  "feeds g d h h' \<longleftrightarrow>
     subgraph_of h' g \<and> node_set h \<subseteq> node_set h' \<and> conn_set h \<subseteq> conn_set h' \<and>
     (\<forall>c \<in> conn_set h' - conn_set h. gc_type c = main_type \<and> (gc_to c, d) \<in> (type_edges main_type g)\<^sup>*)"

lemma feeds_refl: "subgraph_of h g \<Longrightarrow> feeds g d h h"
  by (simp add: feeds_def)

lemma feeds_trans: "feeds g d h h1 \<Longrightarrow> feeds g d h1 h2 \<Longrightarrow> feeds g d h h2"
  unfolding feeds_def by blast

lemma addWithNodes_ok:
  assumes "wf_graph g" "subgraph_of h g" "c \<in> conn_set g"
  shows "\<exists>h'. addWithNodes c h = Inr h' \<and> subgraph_of h' g \<and>
    node_set h' = node_set h \<union> {gc_from c, gc_to c} \<and> conn_set h' = insert c (conn_set h)"
proof -
  have m: "isMember g (gc_from c)" "isMember g (gc_to c)" using wf_ends[OF assms(1,3)] by auto
  let ?h1 = "addNode h (gc_from c)"
  let ?h2 = "addNode ?h1 (gc_to c)"
  note s1 = subgraph_addNode[OF assms(1,2) m(1)]
  note s2 = subgraph_addNode[OF assms(1) s1(1) m(2)]
  have "wf_graph ?h2" using s2(1) by (rule subgraph_wf)
  moreover have "gc_from c \<in> node_set ?h2" "gc_to c \<in> node_set ?h2" using s1(2) s2(2) by auto
  ultimately have ends: "isMember ?h2 (gc_from c)" "isMember ?h2 (gc_to c)" by simp_all
  note s3 = subgraph_setConnection[OF assms(1) s2(1) assms(3) ends]
  have "addWithNodes c h = Inr (setConnection ?h2 c)"
    using ends by (simp add: addWithNodes_def addNodes_def addGraphConnection_eq)
  with s3 s2 s1 show ?thesis by (intro exI[of _ "setConnection ?h2 c"]) auto
qed

lemma addBranch_ok:
  assumes "wf_graph g" "subgraph_of h g" "set cs \<subseteq> conn_set g"
  shows "\<exists>h'. addBranch cs h = Inr h' \<and> subgraph_of h' g \<and> node_set h \<subseteq> node_set h' \<and>
    conn_set h' = conn_set h \<union> set cs"
  using assms(2,3) unfolding addBranch_def
proof (induction cs arbitrary: h)
  case (Cons c cs)
  then obtain h1 where h1: "addWithNodes c h = Inr h1" "subgraph_of h1 g"
    "node_set h1 = node_set h \<union> {gc_from c, gc_to c}" "conn_set h1 = insert c (conn_set h)"
    using addWithNodes_ok[OF assms(1), of h c] by auto
  with Cons.IH[OF h1(2)] Cons.prems obtain h' where "fold_res addWithNodes cs h1 = Inr h'"
    "subgraph_of h' g" "node_set h1 \<subseteq> node_set h'" "conn_set h' = conn_set h1 \<union> set cs" by auto
  with h1 show ?case by (intro exI[of _ h']) auto
qed simp

lemma addBranch_feeds:
  assumes "wf_graph g" "subgraph_of h g" "back_path g d cs t"
  shows "\<exists>h'. addBranch cs h = Inr h' \<and> feeds g d h h' \<and> set cs \<subseteq> conn_set h'"
proof -
  have "set cs \<subseteq> conn_set g" using back_path_conn[OF assms(3)] by auto
  from addBranch_ok[OF assms(1,2) this] obtain h' where "addBranch cs h = Inr h'" "subgraph_of h' g"
    "node_set h \<subseteq> node_set h'" "conn_set h' = conn_set h \<union> set cs" by blast
  moreover have "\<forall>c \<in> set cs. gc_type c = main_type \<and> (gc_to c, d) \<in> (type_edges main_type g)\<^sup>*"
    using back_path_conn[OF assms(3)] back_path_edges[OF assms(3)] by auto
  ultimately show ?thesis by (auto simp: feeds_def)
qed


lemma walk_ok:
  assumes "wf_graph g" and "isMember g t"
  shows "subgraph_of h g \<Longrightarrow> back_path g d br cur \<Longrightarrow> isMember g cur \<Longrightarrow>
    \<exists>h'. findSubgraphRecursive g d cur t h br = Inr h' \<and> feeds g d h h'"
  using assms
proof (induction g d cur t h br rule: findSubgraphRecursive.induct)
  case (1 g d cur t h br)
  let ?ps = "filter (\<lambda>c. gc_to c = cur) (jvalues (dg_connections g))"
  have ps: "getDirectParentConnections g cur = Inr ?ps" using 1(4) by (simp add: directParents_eq)
  consider (found) "cur = t" | (leaf) "cur \<noteq> t" "length ?ps = 0"
    | (cycle) "cur \<noteq> t" "length ?ps \<noteq> 0" "cur = d" "d \<in> set (map gc_to br)"
    | (seen) "cur \<noteq> t" "length ?ps \<noteq> 0" "\<not> (cur = d \<and> d \<in> set (map gc_to br))" "cur \<in> set (map gc_to br)"
    | (walk) "cur \<noteq> t" "length ?ps \<noteq> 0" "\<not> (cur = d \<and> d \<in> set (map gc_to br))" "cur \<notin> set (map gc_to br)"
    by blast
  then show ?case
  proof cases
    case found
    note s = subgraph_addNode[OF 1(5,2,6)]
    from addBranch_feeds[OF 1(5) s(1) 1(3)] s(2,3) found show ?thesis
      by (auto simp: findSubgraphRecursive.simps feeds_def)
  next
    case leaf
    with 1(2) ps show ?thesis by (simp add: findSubgraphRecursive.simps feeds_refl)
  next
    case cycle
    with 1(2) ps show ?thesis by (simp add: findSubgraphRecursive.simps feeds_refl)
  next
    case seen
    with addBranch_feeds[OF 1(5) 1(2,3)] ps show ?thesis
      by (auto simp: findSubgraphRecursive.simps)
  next
    case walk
    let ?f = "\<lambda>p h. if gc_type p \<noteq> main_type then Inr h
       else findSubgraphRecursive g d (gc_from p) t h (br @ [p])"
    have "\<exists>h'. fold_res ?f ?ps h = Inr h' \<and> feeds g d h h'"
    proof (rule fold_res_total)
      show "feeds g d h h" using 1(2) by (rule feeds_refl)
      fix p h1 assume p: "p \<in> set ?ps" and h1: "feeds g d h h1"
      show "\<exists>h'. ?f p h1 = Inr h' \<and> feeds g d h h'"
      proof (cases "gc_type p = main_type")
        case True
        have c: "p \<in> conn_set g" "gc_to p = cur" using p directParents_mem[OF ps] by auto
        have "subgraph_of h1 g" using h1 by (simp add: feeds_def)
        moreover have "back_path g d (br @ [p]) (gc_from p)"
          using back_path_snoc[OF 1(3) c(1) True c(2)] .
        moreover have "isMember g (gc_from p)" using wf_ends[OF 1(5) c(1)] by simp
        ultimately obtain h' where "findSubgraphRecursive g d (gc_from p) t h1 (br @ [p]) = Inr h'"
          "feeds g d h1 h'"
          using 1(1)[OF walk(1) ps walk(2,3,4) p, of h1] True 1(5,6) by blast
        with True feeds_trans[OF h1] show ?thesis by auto
      qed (use h1 in simp)
    qed
    with walk ps show ?thesis
      by (auto simp: findSubgraphRecursive.simps[of g d cur])
  qed
qed

lemma walk_complete:
  assumes wf: "wf_graph g" and t: "isMember g t"
    and "findSubgraphRecursive g d cur t h br = Inr h'" and "subgraph_of h g"
    and "back_path g d br cur" and "isMember g cur"
    and "back_path g cur cs t" and "distinct (t # map gc_to (br @ cs))"
  shows "set (br @ cs) \<subseteq> conn_set h' \<and> t \<in> node_set h'"
  using assms(3-8)
proof (induction cs arbitrary: cur h h' br)
  case Nil
  note s = subgraph_addNode[OF wf Nil(2) t]
  have "cur = t" using Nil.prems(5) by simp
  then have "addBranch br (addNode h t) = Inr h'"
    using Nil.prems(1) by (simp add: findSubgraphRecursive.simps)
  with addBranch_feeds[OF wf s(1) Nil.prems(3)] s(2) show ?case by (auto simp: feeds_def)
next
  case (Cons c cs)
  let ?f = "\<lambda>p h. if gc_type p \<noteq> main_type then Inr h
     else findSubgraphRecursive g d (gc_from p) t h (br @ [p])"
  obtain ps where ps: "getDirectParentConnections g cur = Inr ps"
    using Cons.prems(4) by (simp add: directParents_eq)
  have c: "c \<in> conn_set g" "gc_type c = main_type" "gc_to c = cur" "back_path g (gc_from c) cs t"
    using Cons.prems(5) by auto
  have "c \<in> set ps" using c(1,3) directParents_mem[OF ps] by simp
  moreover from this have "ps \<noteq> []" by auto
  moreover have "cur \<noteq> t" "cur \<notin> set (map gc_to br)" using Cons.prems(6) c(3) by auto
  ultimately have fold: "fold_res ?f ps h = Inr h'"
    using Cons.prems(1) ps by (auto simp: findSubgraphRecursive.simps[of g d cur] split: if_splits)
  have step: "feeds g d t1 t2" if "p \<in> set ps" "subgraph_of t1 g" "?f p t1 = Inr t2" for p t1 t2
  proof (cases "gc_type p = main_type")
    case True
    have p: "p \<in> conn_set g" "gc_to p = cur" using that(1) directParents_mem[OF ps] by auto
    from walk_ok[OF wf t that(2) back_path_snoc[OF Cons.prems(3) p(1) True p(2)]] that(3) True
      wf_ends[OF wf p(1)] show ?thesis by auto
  qed (use that in \<open>simp add: feeds_refl\<close>)
  show ?case
  proof (rule fold_res_hits[where P = "\<lambda>h1. subgraph_of h1 g", OF fold \<open>c \<in> set ps\<close> Cons.prems(2)])
    show "subgraph_of t2 g" if "p \<in> set ps" "subgraph_of t1 g" "?f p t1 = Inr t2" for p t1 t2
      using step[OF that] by (simp add: feeds_def)
    show "set (br @ c # cs) \<subseteq> conn_set t2 \<and> t \<in> node_set t2"
      if "p \<in> set ps" "subgraph_of t1 g" "set (br @ c # cs) \<subseteq> conn_set t1 \<and> t \<in> node_set t1"
        "?f p t1 = Inr t2" for p t1 t2
      using step[OF that(1,2,4)] that(3) by (auto simp: feeds_def)
    show "set (br @ c # cs) \<subseteq> conn_set t2 \<and> t \<in> node_set t2"
      if "subgraph_of t1 g" "?f c t1 = Inr t2" for t1 t2
    proof -
      have "set ((br @ [c]) @ cs) \<subseteq> conn_set t2 \<and> t \<in> node_set t2"
      proof (rule Cons.IH)
        show "findSubgraphRecursive g d (gc_from c) t t1 (br @ [c]) = Inr t2" using that(2) c(2) by simp
        show "back_path g d (br @ [c]) (gc_from c)" using back_path_snoc[OF Cons.prems(3) c(1,2,3)] .
        show "isMember g (gc_from c)" using wf_ends[OF wf c(1)] by simp
        show "distinct (t # map gc_to ((br @ [c]) @ cs))" using Cons.prems(6) by simp
      qed (fact that(1) c(4))+
      then show ?thesis by simp
    qed
  qed
qed

text \<open>A reachable trigger is reached by a path that visits no node twice.\<close>

definition simple_back_path :: "DirectedGraph \<Rightarrow> INode \<Rightarrow> GraphConnection list \<Rightarrow> INode \<Rightarrow> bool" where
  "simple_back_path g d cs t \<longleftrightarrow> back_path g d cs t \<and> distinct (t # map gc_to cs)"

lemma back_path_append:
  "back_path g d (us @ vs) t \<longleftrightarrow> (\<exists>m. back_path g d us m \<and> back_path g m vs t)"
  by (induction us arbitrary: d) auto

lemma simple_back_path_exists:
  assumes "(t, d) \<in> (type_edges main_type g)\<^sup>*"
  shows "\<exists>cs. simple_back_path g d cs t"
  using assms
proof (induction rule: converse_rtrancl_induct)
  case base
  have "simple_back_path g d [] d" by (simp add: simple_back_path_def)
  then show ?case ..
next
  case (step t y)
  then obtain cs where cs: "back_path g d cs y" "distinct (y # map gc_to cs)"
    by (auto simp: simple_back_path_def)
  obtain c where c: "c \<in> conn_set g" "gc_type c = main_type" "gc_from c = t" "gc_to c = y"
    using step.hyps(1) unfolding type_edges_iff by (elim bexE conjE)
  consider "t = y" | "t \<in> set (map gc_to cs)" | "t \<noteq> y" "t \<notin> set (map gc_to cs)" by blast
  then show ?case
  proof cases
    case 1
    with cs have "simple_back_path g d cs t" by (simp add: simple_back_path_def)
    then show ?thesis ..
  next
    case 2
    then obtain b where "b \<in> set cs" and b: "t = gc_to b" unfolding set_map by (elim imageE)
    then obtain us vs where u: "cs = us @ b # vs" by (auto simp: in_set_conv_decomp)
    have "back_path g d us t" using cs(1) b unfolding u back_path_append by auto
    moreover have "distinct (t # map gc_to us)" using cs(2) b unfolding u by auto
    ultimately have "simple_back_path g d us t" by (simp add: simple_back_path_def)
    then show ?thesis ..
  next
    case 3
    have "back_path g d (cs @ [c]) t" using back_path_snoc[OF cs(1) c(1,2,4)] c(3) by simp
    moreover have "distinct (t # map gc_to (cs @ [c]))" using cs(2) c(4) 3 by auto
    ultimately have "simple_back_path g d (cs @ [c]) t" by (simp add: simple_back_path_def)
    then show ?thesis ..
  qed
qed

lemma back_path_within:
  assumes "back_path g d cs t" and "set cs \<subseteq> conn_set h"
  shows "(t, d) \<in> (type_edges main_type h)\<^sup>*"
  using assms
proof (induction cs arbitrary: d)
  case (Cons c cs)
  then have "(gc_from c, d) \<in> type_edges main_type h" by (auto simp: type_edges_iff)
  moreover have "(t, gc_from c) \<in> (type_edges main_type h)\<^sup>*" using Cons by auto
  ultimately show ?case by simp
qed simp

section \<open>Utility connections\<close>

lemma addUtility_fold:
  assumes "wf_graph g" "subgraph_of h g" "set cs \<subseteq> conn_set g"
  shows "\<exists>h'. fold_res (\<lambda>c h. if gc_type c = main_type then Inr h else addWithNodes c h) cs h = Inr h' \<and>
    subgraph_of h' g \<and> node_set h \<subseteq> node_set h' \<and> conn_set h' = conn_set h \<union> {c \<in> set cs. gc_type c \<noteq> main_type}"
  using assms(2,3)
proof (induction cs arbitrary: h)
  case (Cons c cs)
  show ?case
  proof (cases "gc_type c = main_type")
    case True
    with Cons.IH[OF Cons.prems(1)] Cons.prems(2) show ?thesis by auto
  next
    case False
    obtain h1 where h1: "addWithNodes c h = Inr h1" "subgraph_of h1 g" "node_set h \<subseteq> node_set h1"
      "conn_set h1 = insert c (conn_set h)"
      using addWithNodes_ok[OF assms(1) Cons.prems(1), of c] Cons.prems(2) by auto
    obtain h' where "fold_res (\<lambda>c h. if gc_type c = main_type then Inr h else addWithNodes c h) cs h1 = Inr h'"
      "subgraph_of h' g" "node_set h1 \<subseteq> node_set h'" "conn_set h' = conn_set h1 \<union> {c \<in> set cs. gc_type c \<noteq> main_type}"
      using Cons.IH[OF h1(2)] Cons.prems(2) by auto
    with h1 False show ?thesis by auto
  qed
qed simp

lemma addUtility_ok:
  assumes "wf_graph g" "subgraph_of h g" "isMember g n"
  shows "\<exists>h'. addUtilityConnections g n h = Inr h' \<and> subgraph_of h' g \<and> node_set h \<subseteq> node_set h' \<and>
    conn_set h' = conn_set h \<union> {c \<in> conn_set g. gc_type c \<noteq> main_type \<and> (gc_to c, n) \<in> (edges g)\<^sup>*}"
proof -
  obtain cs where cs: "getParentConnections g n = Inr cs"
    "set cs = {c \<in> conn_set g. (gc_to c, n) \<in> (edges g)\<^sup>*}"
    using getParentConnections_ok[OF assms(1,3)] by blast
  then have "set cs \<subseteq> conn_set g" by blast
  from addUtility_fold[OF assms(1,2) this] cs show ?thesis
    unfolding addUtilityConnections_def by auto
qed

lemma utility_fold_ok:
  assumes "wf_graph g" "subgraph_of h g" "set ns \<subseteq> node_set g"
  shows "\<exists>h'. fold_res (addUtilityConnections g) ns h = Inr h' \<and> subgraph_of h' g \<and> node_set h \<subseteq> node_set h' \<and>
    conn_set h' = conn_set h \<union>
      {c \<in> conn_set g. gc_type c \<noteq> main_type \<and> (\<exists>n \<in> set ns. (gc_to c, n) \<in> (edges g)\<^sup>*)}"
  using assms(2,3)
proof (induction ns arbitrary: h)
  case (Cons n ns)
  have "isMember g n" using Cons.prems(2) assms(1) by simp
  then obtain h1 where h1: "addUtilityConnections g n h = Inr h1" "subgraph_of h1 g" "node_set h \<subseteq> node_set h1"
    "conn_set h1 = conn_set h \<union> {c \<in> conn_set g. gc_type c \<noteq> main_type \<and> (gc_to c, n) \<in> (edges g)\<^sup>*}"
    using addUtility_ok[OF assms(1) Cons.prems(1)] by blast
  obtain h' where "fold_res (addUtilityConnections g) ns h1 = Inr h'" "subgraph_of h' g"
    "node_set h1 \<subseteq> node_set h'"
    "conn_set h' = conn_set h1 \<union>
      {c \<in> conn_set g. gc_type c \<noteq> main_type \<and> (\<exists>n \<in> set ns. (gc_to c, n) \<in> (edges g)\<^sup>*)}"
    using Cons.IH[OF h1(2)] Cons.prems(2) by auto
  with h1 show ?case by auto
qed simp

section \<open>The whole function\<close>

lemma findSubgraph_parts:
  assumes "wf_graph g" "isMember g destination" "isMember g trigger"
  obtains h0 h where "findSubgraphRecursive g destination destination trigger new_graph [] = Inr h0"
    and "feeds g destination new_graph h0" and "findSubgraph g destination trigger = Inr h"
    and "subgraph_of h g" and "node_set h0 \<subseteq> node_set h"
    and "conn_set h = conn_set h0 \<union>
      {c \<in> conn_set g. gc_type c \<noteq> main_type \<and> (\<exists>n \<in> node_set h0. (gc_to c, n) \<in> (edges g)\<^sup>*)}"
proof -
  obtain h0 where h0: "findSubgraphRecursive g destination destination trigger new_graph [] = Inr h0"
    "feeds g destination new_graph h0"
    using walk_ok[OF assms(1,3) subgraph_new _ assms(2), of destination "[]"] by auto
  have s: "subgraph_of h0 g" "set (jvalues (dg_nodes h0)) \<subseteq> node_set g"
    using h0(2) by (auto simp: feeds_def subgraph_of_def node_set_def)
  obtain h where "fold_res (addUtilityConnections g) (jvalues (dg_nodes h0)) h0 = Inr h" "subgraph_of h g"
    "node_set h0 \<subseteq> node_set h"
    "conn_set h = conn_set h0 \<union>
      {c \<in> conn_set g. gc_type c \<noteq> main_type \<and> (\<exists>n \<in> node_set h0. (gc_to c, n) \<in> (edges g)\<^sup>*)}"
    using utility_fold_ok[OF assms(1) s] by (auto simp: node_set_def)
  with h0 show thesis by (intro that[of h0 h]) (auto simp: findSubgraph_def)
qed

lemma findSubgraph_ok:
  assumes wf: "wf_graph g" "isMember g destination" "isMember g trigger"
  shows "\<exists>h. findSubgraph g destination trigger = Inr h \<and> subgraph_of h g \<and>
    (\<forall>c \<in> conn_set h. gc_type c = main_type \<longrightarrow> (gc_to c, destination) \<in> (type_edges main_type g)\<^sup>*) \<and>
    (\<forall>cs. simple_back_path g destination cs trigger \<longrightarrow> set cs \<subseteq> conn_set h \<and>
       (\<forall>c \<in> conn_set g. gc_type c \<noteq> main_type \<and>
          (\<exists>n \<in> insert trigger (gc_to ` set cs). (gc_to c, n) \<in> (edges g)\<^sup>*) \<longrightarrow> c \<in> conn_set h))"
proof -
  obtain h0 h where h0: "findSubgraphRecursive g destination destination trigger new_graph [] = Inr h0"
    "feeds g destination new_graph h0" and h: "findSubgraph g destination trigger = Inr h" "subgraph_of h g"
    and c: "conn_set h = conn_set h0 \<union>
      {c \<in> conn_set g. gc_type c \<noteq> main_type \<and> (\<exists>n \<in> node_set h0. (gc_to c, n) \<in> (edges g)\<^sup>*)}"
    by (rule findSubgraph_parts[OF wf])
  have main: "(gc_to d, destination) \<in> (type_edges main_type g)\<^sup>*"
    if "d \<in> conn_set h" "gc_type d = main_type" for d
    using that c h0(2) by (auto simp: feeds_def new_graph_def conn_set_def)
  have path: "set cs \<subseteq> conn_set h \<and>
       (\<forall>c \<in> conn_set g. gc_type c \<noteq> main_type \<and>
          (\<exists>n \<in> insert trigger (gc_to ` set cs). (gc_to c, n) \<in> (edges g)\<^sup>*) \<longrightarrow> c \<in> conn_set h)"
    if cs: "simple_back_path g destination cs trigger" for cs
  proof -
    have k: "set ([] @ cs) \<subseteq> conn_set h0 \<and> trigger \<in> node_set h0"
      using cs by (intro walk_complete[OF wf(1,3) h0(1) subgraph_new _ wf(2)])
        (auto simp: simple_back_path_def)
    have "gc_to c \<in> node_set h0" if "c \<in> set cs" for c
    proof -
      have "wf_graph h0" using h0(2) by (simp add: feeds_def subgraph_of_def)
      with that k wf_ends[of h0 c] show ?thesis by auto
    qed
    with k c show ?thesis by auto
  qed
  show ?thesis using h main path by blast
qed



lemma findSubgraph_trigger:
  assumes wf: "wf_graph g" "isMember g destination" "isMember g trigger"
    and path: "(trigger, destination) \<in> (type_edges main_type g)\<^sup>*"
    and h: "findSubgraph g destination trigger = Inr h"
  shows "isMember h trigger"
proof -
  obtain h0 h1 where h0: "findSubgraphRecursive g destination destination trigger new_graph [] = Inr h0"
    and h1: "findSubgraph g destination trigger = Inr h1" "subgraph_of h1 g" "node_set h0 \<subseteq> node_set h1"
    by (rule findSubgraph_parts[OF wf])
  obtain cs where "simple_back_path g destination cs trigger"
    using simple_back_path_exists[OF path] ..
  then have "set ([] @ cs) \<subseteq> conn_set h0 \<and> trigger \<in> node_set h0"
    by (intro walk_complete[OF wf(1,3) h0 subgraph_new _ wf(2)]) (auto simp: simple_back_path_def)
  with h h1 show ?thesis by (auto simp: subgraph_of_def)
qed

lemma findSubgraph_reaches:
  assumes "wf_graph g" "isMember g destination" "isMember g trigger"
    and "(trigger, destination) \<in> (type_edges main_type g)\<^sup>*"
  shows "\<exists>h. findSubgraph g destination trigger = Inr h \<and> subgraph_of h g \<and>
    (trigger, destination) \<in> (type_edges main_type h)\<^sup>*"
proof -
  obtain cs where cs: "simple_back_path g destination cs trigger"
    using simple_back_path_exists[OF assms(4)] ..
  obtain h where h: "findSubgraph g destination trigger = Inr h" "subgraph_of h g" "set cs \<subseteq> conn_set h"
    using findSubgraph_ok[OF assms(1-3)] cs by blast
  have "(trigger, destination) \<in> (type_edges main_type h)\<^sup>*"
    using cs h(3) by (intro back_path_within) (auto simp: simple_back_path_def)
  with h show ?thesis by blast
qed

section \<open>Where it departs from its description\<close>

text \<open>\<open>findSubgraph\<close> also keeps cycles that feed the destination but that the trigger cannot
  reach: from the graph a to d, b to d, b to c, c to b with trigger a it keeps all four connections.\<close>

lemma findSubgraph_keeps_unreachable_cycle:
  "let g = sample_graph [nA, nB, nC, nD] [(nA, nD), (nB, nD), (nB, nC), (nC, nB)]
   in (case findSubgraph g nD nA of
         Inl e \<Rightarrow> False
       | Inr h \<Rightarrow> isMember h nB \<and> isMember h nC \<and> length (getConnections h None) = 4) \<and>
      (case getChildren g nA of Inl e \<Rightarrow> False | Inr ch \<Rightarrow> nB \<notin> set ch \<and> nC \<notin> set ch)"
  by code_simp

text \<open>A loop whose nodes are all disabled breaks a partial execution: \<open>filterDisabledNodes\<close>
  leaves a connection from a node it removed, and \<open>findSubgraph\<close> fails its assertion there.\<close>

lemma disabled_loop_breaks_partial_execution:
  "let g = sample_graph [nA, xB, xC, nD] [(nA, xB), (xB, xC), (xC, xB), (xC, nD)]
   in wf_graph g \<and>
      (case filterDisabledNodes g of
         Inl e \<Rightarrow> False
       | Inr h \<Rightarrow> \<not> wf_graph h \<and> findSubgraph h nD nA = Inl AssertionError)"
  by code_simp

end
