(* ===== verification/Run_Data.thy ===== *)
theory Run_Data
  imports Find_Subgraph
begin

text \<open>
  Run data in a partial execution: \<^verbatim>\<open>get-incoming-data.ts\<close> and \<^verbatim>\<open>run-data-utils.ts\<close> read it,
  \<^verbatim>\<open>find-start-nodes.ts\<close> finds where the execution has to start again.
\<close>

section \<open>Reading run data\<close>

definition slot_option :: "'a slot \<Rightarrow> 'a option" where
  "slot_option s = (case s of Value x \<Rightarrow> Some x | _ \<Rightarrow> None)"

definition getIncomingData ::
    "IRunData \<Rightarrow> string \<Rightarrow> int \<Rightarrow> connection_type \<Rightarrow> int \<Rightarrow> INodeExecutionData list option" where
  "getIncomingData runData nodeName runIndex connectionType outputIndex =
     Option.bind (jget runData nodeName) (\<lambda>runs.
     Option.bind (js_at runs runIndex) (\<lambda>taskData.
     Option.bind (td_data taskData) (\<lambda>connections.
     Option.bind (jget connections connectionType) (\<lambda>outputs.
     Option.bind (js_at outputs outputIndex) slot_option))))"

definition getRunIndexLength :: "IRunData \<Rightarrow> string \<Rightarrow> nat" where
  "getRunIndexLength runData nodeName =
     (case jget runData nodeName of None \<Rightarrow> 0 | Some runs \<Rightarrow> length runs)"

text \<open>The loop over the runs, from \<open>runIndex\<close> on with \<open>n\<close> runs left.\<close>

fun anyRunLoop ::
    "IRunData \<Rightarrow> string \<Rightarrow> connection_type \<Rightarrow> nat \<Rightarrow> nat \<Rightarrow> nat \<Rightarrow>
     (INodeExecutionData list \<times> nat) option" where
  "anyRunLoop runData nodeName connectionType outputIndex runIndex 0 = None"
| "anyRunLoop runData nodeName connectionType outputIndex runIndex (Suc n) =
     (case getIncomingData runData nodeName (int runIndex) connectionType (int outputIndex) of
        None \<Rightarrow> anyRunLoop runData nodeName connectionType outputIndex (Suc runIndex) n
      | Some data \<Rightarrow>
          if length data > 0 then Some (data, runIndex)
          else anyRunLoop runData nodeName connectionType outputIndex (Suc runIndex) n)"

definition getIncomingDataFromAnyRun ::
    "IRunData \<Rightarrow> string \<Rightarrow> connection_type \<Rightarrow> nat \<Rightarrow> (INodeExecutionData list \<times> nat) option" where
  "getIncomingDataFromAnyRun runData nodeName connectionType outputIndex =
     anyRunLoop runData nodeName connectionType outputIndex 0 (getRunIndexLength runData nodeName)"

definition getNextExecutionIndex :: "IRunData \<Rightarrow> nat" where
  "getNextExecutionIndex runData =
     (if runData = [] then 0
      else
        let previousIndices = List.map_filter td_executionIndex (concat (jvalues runData))
        in if length previousIndices = 0 then 0 else Max (set previousIndices) + 1)"

lemma anyRunLoop_spec:
  "case anyRunLoop r n t out i k of
     None \<Rightarrow> \<forall>j. i \<le> j \<and> j < i + k \<longrightarrow>
       getIncomingData r n (int j) t (int out) \<in> {None, Some []}
   | Some (d, j) \<Rightarrow> i \<le> j \<and> j < i + k \<and> d \<noteq> [] \<and> getIncomingData r n (int j) t (int out) = Some d \<and>
       (\<forall>l. i \<le> l \<and> l < j \<longrightarrow> getIncomingData r n (int l) t (int out) \<in> {None, Some []})"
proof (induction k arbitrary: i)
  case (Suc k)
  show ?case
  proof (cases "getIncomingData r n (int i) t (int out) \<in> {None, Some []}")
    case True
    then have eq: "anyRunLoop r n t out i (Suc k) = anyRunLoop r n t out (Suc i) k" by auto
    have split: "l = i \<or> Suc i \<le> l" if "i \<le> l" for l using that by auto
    show ?thesis
      unfolding eq using Suc.IH[of "Suc i"] True split
      by (cases "anyRunLoop r n t out (Suc i) k") (auto simp: less_Suc_eq_le)
  next
    case False
    then obtain d where "getIncomingData r n (int i) t (int out) = Some d" "d \<noteq> []" by auto
    then show ?thesis by auto
  qed
qed auto

text \<open>\<open>getIncomingDataFromAnyRun\<close> returns the data of the first run of the node that has a
  non-empty array at the given output, with that run's index, and nothing exactly when no run has
  one.\<close>

lemma getIncomingDataFromAnyRun_first:
  "case getIncomingDataFromAnyRun r n t out of
     None \<Rightarrow> \<forall>j < getRunIndexLength r n. getIncomingData r n (int j) t (int out) \<in> {None, Some []}
   | Some (d, j) \<Rightarrow> j < getRunIndexLength r n \<and> d \<noteq> [] \<and>
       getIncomingData r n (int j) t (int out) = Some d \<and>
       (\<forall>l < j. getIncomingData r n (int l) t (int out) \<in> {None, Some []})"
  using anyRunLoop_spec[where r = r and n = n and t = t and out = out and i = 0
    and k = "getRunIndexLength r n"]
  by (auto simp: getIncomingDataFromAnyRun_def split: option.splits)

lemma getNextExecutionIndex_above:
  assumes "runs \<in> set (jvalues r)" "td \<in> set runs" "td_executionIndex td = Some i"
  shows "i < getNextExecutionIndex r"
proof -
  let ?is = "List.map_filter td_executionIndex (concat (jvalues r))"
  have "i \<in> set ?is" using assms by (force simp: List.map_filter_def)
  then have "?is \<noteq> []" "i \<le> Max (set ?is)" by auto
  moreover have "r \<noteq> []" using assms by auto
  ultimately show ?thesis by (auto simp: getNextExecutionIndex_def Let_def)
qed

section \<open>Start nodes\<close>

definition isDirty :: "INode \<Rightarrow> IRunData \<Rightarrow> IPinData \<Rightarrow> bool" where
  "isDirty node runData pinData =
     (let hasAnError =
        (case jget runData (node_name node) of
           None \<Rightarrow> False
         | Some runs \<Rightarrow> list_ex (\<lambda>taskData. td_error taskData \<noteq> None) runs)
      in if hasAnError then True
         else if jget pinData (node_name node) \<noteq> None then False
         else if jget runData (node_name node) \<noteq> None then False
         else True)"

definition isALoop :: "DirectedGraph \<Rightarrow> INode \<Rightarrow> bool result" where
  "isALoop graph node = map_sum id (\<lambda>children. node \<in> set children) (getChildren graph node)"

text \<open>The test on loop nodes: the \<open>done\<close> output has no data on the last run.\<close>

definition unfinishedLoop :: "DirectedGraph \<Rightarrow> INode \<Rightarrow> IRunData \<Rightarrow> bool result" where
  "unfinishedLoop graph current runData =
     (if node_type current = ''n8n-nodes-base.splitInBatches'' then
        case isALoop graph current of
          Inl e \<Rightarrow> Inl e
        | Inr loop \<Rightarrow>
            let nodeRunData = getIncomingData runData (node_name current) (-1) main_type
                                (if loop then 0 else 1)
            in Inr (nodeRunData = None \<or> nodeRunData = Some [])
      else Inr False)"

text \<open>The outputs that are followed: those with run data or of a pinned node.\<close>

definition followed :: "IRunData \<Rightarrow> IPinData \<Rightarrow> GraphConnection \<Rightarrow> bool" where
  "followed runData pinData c =
     (let nodeRunData = getIncomingDataFromAnyRun runData (node_name (gc_from c)) (gc_type c)
                          (gc_outputIndex c);
          hasNoRunData = (case nodeRunData of None \<Rightarrow> True | Some (data, _) \<Rightarrow> length data = 0);
          hasNoPinnedData = (jget pinData (node_name (gc_from c)) = None)
      in \<not> (hasNoRunData \<and> hasNoPinnedData))"

function findStartNodesRecursive ::
    "DirectedGraph \<Rightarrow> INode \<Rightarrow> INode \<Rightarrow> IRunData \<Rightarrow> IPinData \<Rightarrow> INode list \<Rightarrow> INode list \<Rightarrow>
     INode list result" where
  "findStartNodesRecursive graph current destination runData pinData startNodes seen =
     (if isDirty current runData pinData then Inr (set_add startNodes current)
      else if current = destination then Inr (set_add startNodes current)
      else case unfinishedLoop graph current runData of
        Inl e \<Rightarrow> Inl e
      | Inr unfinished \<Rightarrow>
          if unfinished then Inr (set_add startNodes current)
          else if current \<in> set seen then Inr startNodes
          else case getDirectChildConnections graph current of
            Inl e \<Rightarrow> Inl e
          | Inr outGoingConnections \<Rightarrow>
              fold_res (\<lambda>c starts.
                  if \<not> followed runData pinData c then Inr starts
                  else findStartNodesRecursive graph (gc_to c) destination runData pinData starts
                         (set_add seen current))
                outGoingConnections startNodes)"
  by pat_completeness auto

termination findStartNodesRecursive
proof (relation "measure (\<lambda>(g, c, d, r, p, st, seen). card (node_set g - set seen))", goal_cases)
  case (2 g c d r p st seen u cs x y)
  then have "c \<in> node_set g" by (auto dest: directChild_member)
  with 2 have "node_set g - set (set_add seen c) \<subset> node_set g - set seen" by auto
  then show ?case by (simp add: psubset_card_mono)
qed simp

declare findStartNodesRecursive.simps [simp del]

definition findStartNodes ::
    "DirectedGraph \<Rightarrow> INode \<Rightarrow> INode \<Rightarrow> IPinData \<Rightarrow> IRunData \<Rightarrow> INode list result" where
  "findStartNodes graph trigger destination pinData runData =
     findStartNodesRecursive graph trigger destination runData pinData [] []"


text \<open>Where the walk stops with a start node, and the connections it follows.\<close>

definition stops :: "DirectedGraph \<Rightarrow> INode \<Rightarrow> IRunData \<Rightarrow> IPinData \<Rightarrow> INode \<Rightarrow> bool" where
  "stops g destination r p n \<longleftrightarrow>
     isDirty n r p \<or> n = destination \<or> unfinishedLoop g n r = Inr True"

definition passes :: "DirectedGraph \<Rightarrow> INode \<Rightarrow> IRunData \<Rightarrow> IPinData \<Rightarrow> (INode \<times> INode) set" where
  "passes g destination r p =
     {(m, n). \<not> stops g destination r p m \<and>
        (\<exists>c \<in> conn_set g. gc_from c = m \<and> gc_to c = n \<and> followed r p c)}"

lemma passes_edges: "passes g d r p \<subseteq> edges g"
  by (auto simp: passes_def edges_def)

lemma unfinishedLoop_total:
  assumes "wf_graph g" "isMember g n"
  shows "\<exists>b. unfinishedLoop g n r = Inr b"
proof -
  obtain ch where "getChildren g n = Inr ch" using getChildren_ok[OF assms] by blast
  then show ?thesis unfolding unfinishedLoop_def isALoop_def Let_def by auto
qed

text \<open>The last departure from the first node of a path.\<close>

lemma last_departure:
  assumes "(a, n) \<in> E\<^sup>*" and "n \<noteq> a"
  shows "\<exists>y. (a, y) \<in> E \<and> (y, n) \<in> {e \<in> E. fst e \<noteq> a}\<^sup>*"
  using assms
proof (induction rule: rtrancl_induct)
  case (step n m)
  show ?case
  proof (cases "n = a")
    case True
    with step.hyps(2) show ?thesis by blast
  next
    case False
    with step obtain y where y: "(a, y) \<in> E" "(y, n) \<in> {e \<in> E. fst e \<noteq> a}\<^sup>*" by blast
    have "(n, m) \<in> {e \<in> E. fst e \<noteq> a}" using step.hyps(2) False by simp
    with y show ?thesis by (blast intro: rtrancl_into_rtrancl)
  qed
qed simp

definition unseen_passes ::
    "DirectedGraph \<Rightarrow> INode \<Rightarrow> IRunData \<Rightarrow> IPinData \<Rightarrow> INode list \<Rightarrow> (INode \<times> INode) set" where
  "unseen_passes g d r p seen = {e \<in> passes g d r p. fst e \<notin> set seen}"

lemma unseen_passes_add:
  "{e \<in> unseen_passes g d r p seen. fst e \<noteq> a} = unseen_passes g d r p (set_add seen a)"
  by (auto simp: unseen_passes_def)

lemma stops_here:
  assumes "stops g d r p cur"
  shows "{n. stops g d r p n \<and> (cur, n) \<in> (unseen_passes g d r p seen)\<^sup>*} = {cur}"
proof -
  have "(cur, y) \<notin> unseen_passes g d r p seen" for y
    using assms by (simp add: unseen_passes_def passes_def)
  then have "n = cur" if "(cur, n) \<in> (unseen_passes g d r p seen)\<^sup>*" for n
    using that by (metis converse_rtranclE)
  with assms show ?thesis by auto
qed

definition starts_from ::
    "DirectedGraph \<Rightarrow> INode \<Rightarrow> IRunData \<Rightarrow> IPinData \<Rightarrow> INode list \<Rightarrow> INode \<Rightarrow> INode set" where
  "starts_from g d r p seen cur = {n. stops g d r p n \<and> (cur, n) \<in> (unseen_passes g d r p seen)\<^sup>*}"

lemma starts_from_seen:
  assumes "\<not> stops g d r p cur" and "cur \<in> set seen"
  shows "starts_from g d r p seen cur = {}"
proof -
  have "(cur, y) \<notin> unseen_passes g d r p seen" for y using assms by (simp add: unseen_passes_def)
  then have "n = cur" if "(cur, n) \<in> (unseen_passes g d r p seen)\<^sup>*" for n
    using that by (metis converse_rtranclE)
  with assms(1) show ?thesis by (auto simp: starts_from_def)
qed

lemma starts_from_children:
  assumes ns: "\<not> stops g d r p cur" and new: "cur \<notin> set seen"
  shows "starts_from g d r p seen cur =
    (\<Union>c \<in> {c \<in> conn_set g. gc_from c = cur \<and> followed r p c}.
       starts_from g d r p (set_add seen cur) (gc_to c))" (is "?L = ?R")
proof
  have e: "(cur, y) \<in> unseen_passes g d r p seen \<longleftrightarrow>
      (\<exists>c \<in> conn_set g. gc_from c = cur \<and> gc_to c = y \<and> followed r p c)" for y
    using ns new by (simp add: unseen_passes_def passes_def)
  show "?L \<subseteq> ?R"
  proof
    fix n assume "n \<in> ?L"
    then have n: "stops g d r p n" "(cur, n) \<in> (unseen_passes g d r p seen)\<^sup>*"
      by (auto simp: starts_from_def)
    with ns have "n \<noteq> cur" by auto
    from last_departure[OF n(2) this] obtain y where y: "(cur, y) \<in> unseen_passes g d r p seen"
      "(y, n) \<in> (unseen_passes g d r p (set_add seen cur))\<^sup>*"
      unfolding unseen_passes_add by blast
    from y(1) obtain c where "c \<in> conn_set g" "gc_from c = cur" "gc_to c = y" "followed r p c"
      unfolding e by (elim bexE conjE)
    with y(2) n(1) show "n \<in> ?R" unfolding starts_from_def by blast
  qed
  show "?R \<subseteq> ?L"
  proof
    fix n assume "n \<in> ?R"
    then obtain c where c: "c \<in> {c \<in> conn_set g. gc_from c = cur \<and> followed r p c}"
      and "n \<in> starts_from g d r p (set_add seen cur) (gc_to c)" by (rule UN_E)
    then have n: "stops g d r p n" "(gc_to c, n) \<in> (unseen_passes g d r p (set_add seen cur))\<^sup>*"
      by (auto simp: starts_from_def)
    have "unseen_passes g d r p (set_add seen cur) \<subseteq> unseen_passes g d r p seen"
      by (auto simp: unseen_passes_def)
    with n(2) have "(gc_to c, n) \<in> (unseen_passes g d r p seen)\<^sup>*" by (meson rtrancl_mono subsetD)
    moreover have "(cur, gc_to c) \<in> unseen_passes g d r p seen" using c unfolding e by blast
    ultimately show "n \<in> ?L" using n(1) by (auto simp: starts_from_def intro: converse_rtrancl_into_rtrancl)
  qed
qed

text \<open>A loop whose body adds a set for each element adds their union.\<close>

lemma fold_res_union:
  assumes "\<And>x t. x \<in> set xs \<Longrightarrow> distinct t \<Longrightarrow> \<exists>t'. f x t = Inr t' \<and> distinct t' \<and> set t' = set t \<union> F x"
    and "distinct s"
  shows "\<exists>s'. fold_res f xs s = Inr s' \<and> distinct s' \<and> set s' = set s \<union> (\<Union>x \<in> set xs. F x)"
  using assms
proof (induction xs arbitrary: s)
  case (Cons x xs)
  obtain t where t: "f x s = Inr t" "distinct t" "set t = set s \<union> F x"
    using Cons.prems(1)[of x s] Cons.prems(2) by auto
  obtain s' where "fold_res f xs t = Inr s'" "distinct s'" "set s' = set t \<union> (\<Union>x \<in> set xs. F x)"
    using Cons.IH[OF _ t(2)] Cons.prems(1) by auto
  with t show ?case by auto
qed simp

lemma startNodes_walk:
  assumes "wf_graph g"
  shows "isMember g cur \<Longrightarrow> distinct st \<Longrightarrow>
    \<exists>st'. findStartNodesRecursive g cur d r p st seen = Inr st' \<and> distinct st' \<and>
      set st' = set st \<union> starts_from g d r p seen cur"
  using assms
proof (induction g cur d r p st seen rule: findStartNodesRecursive.induct)
  case (1 g cur d r p st seen)
  obtain b where b: "unfinishedLoop g cur r = Inr b" using unfinishedLoop_total[OF 1(4,2)] ..
  show ?case
  proof (cases "stops g d r p cur")
    case True
    then have "findStartNodesRecursive g cur d r p st seen = Inr (set_add st cur)"
      using b by (auto simp: stops_def findStartNodesRecursive.simps)
    with stops_here[OF True] 1(3) show ?thesis by (simp add: starts_from_def)
  next
    case ns: False
    then have ns': "\<not> isDirty cur r p" "cur \<noteq> d" "unfinishedLoop g cur r = Inr False"
      using b by (cases b; simp add: stops_def)+
    show ?thesis
    proof (cases "cur \<in> set seen")
      case True
      with ns' have "findStartNodesRecursive g cur d r p st seen = Inr st"
        by (simp add: findStartNodesRecursive.simps)
      with starts_from_seen[OF ns True] 1(3) show ?thesis by simp
    next
      case False
      obtain cs where cs: "getDirectChildConnections g cur = Inr cs"
        "cs = filter (\<lambda>c. gc_from c = cur) (jvalues (dg_connections g))"
        using 1(2) by (simp add: getDirectChildConnections_def)
      then have cset: "set cs = {c \<in> conn_set g. gc_from c = cur}" by (auto simp: conn_set_def)
      let ?f = "\<lambda>c starts. if \<not> followed r p c then Inr starts
         else findStartNodesRecursive g (gc_to c) d r p starts (set_add seen cur)"
      let ?F = "\<lambda>c. if followed r p c then starts_from g d r p (set_add seen cur) (gc_to c) else {}"
      have "\<exists>st'. fold_res ?f cs st = Inr st' \<and> distinct st' \<and> set st' = set st \<union> (\<Union>c \<in> set cs. ?F c)"
      proof (rule fold_res_union[OF _ 1(3)])
        fix c and t :: "INode list" assume c: "c \<in> set cs" and t: "distinct t"
        have "isMember g (gc_to c)" using c cset wf_ends[OF 1(4), of c] by simp
        with 1(1)[OF ns'(1,2,3)] False cs(1) c t 1(4)
        have "\<exists>t'. findStartNodesRecursive g (gc_to c) d r p t (set_add seen cur) = Inr t' \<and>
          distinct t' \<and> set t' = set t \<union> starts_from g d r p (set_add seen cur) (gc_to c)"
          if "followed r p c" using that by blast
        then show "\<exists>t'. ?f c t = Inr t' \<and> distinct t' \<and> set t' = set t \<union> ?F c"
          using t by simp
      qed
      moreover have "(\<Union>c \<in> set cs. ?F c) = starts_from g d r p seen cur"
        unfolding starts_from_children[OF ns False] cset by auto
      moreover have "findStartNodesRecursive g cur d r p st seen = fold_res ?f cs st"
        using ns' False cs(1) by (simp add: findStartNodesRecursive.simps[of g cur])
      ultimately show ?thesis by simp
    qed
  qed
qed

lemma findStartNodes_ok:
  assumes "wf_graph g" and "isMember g trigger"
  shows "\<exists>st. findStartNodes g trigger destination p r = Inr st \<and> distinct st \<and>
    set st = {n. stops g destination r p n \<and> (trigger, n) \<in> (passes g destination r p)\<^sup>*}"
proof -
  have "unseen_passes g destination r p [] = passes g destination r p" by (simp add: unseen_passes_def)
  with startNodes_walk[OF assms(1,2), of "[]" destination r p "[]"] show ?thesis
    by (simp add: findStartNodes_def starts_from_def)
qed

text \<open>C10: \<open>findStartNodes\<close> fails no assertion and returns, without duplicates, exactly the nodes where a
  walk from the trigger first has to stop: a node that is dirty, is the destination, or is a loop node
  whose done output has no data, reached over connections that carry run data or leave a pinned node,
  and over nodes that are none of these.\<close>

theorem findStartNodes_exact:
  assumes "wf_graph g" and "isMember g trigger"
  shows "\<exists>st. findStartNodes g trigger destination p r = Inr st \<and> distinct st \<and>
    set st = {n. stops g destination r p n \<and> (trigger, n) \<in> (passes g destination r p)\<^sup>*}"
  by (rule findStartNodes_ok[OF assms])

definition sample_run :: "ISourceData slot list \<Rightarrow> ITaskData" where
  "sample_run src =
     \<lparr>td_executionIndex = Some 0, td_source = src,
      td_data = Some [(main_type, [Value [empty_item]])], td_error = None,
      td_executionStatus = None, td_inputOverride = None, td_metadata = None\<rparr>"

lemma findStartNodes_exact_witness:
  "\<exists>st. findStartNodes (sample_graph [nA, nB, nC] [(nA, nB), (nB, nC)]) nA nC []
      [(''a'', [sample_run []])] = Inr st \<and> nB \<in> set st"
proof -
  let ?g = "sample_graph [nA, nB, nC] [(nA, nB), (nB, nC)]"
  let ?r = "[(''a'', [sample_run []])]"
  have hyps: "wf_graph ?g" "isMember ?g nA" by code_simp+
  have st: "stops ?g nC ?r [] nB" "\<not> stops ?g nC ?r [] nA" by code_simp+
  have c: "sample_conn nA nB \<in> conn_set ?g" "gc_from (sample_conn nA nB) = nA"
    "gc_to (sample_conn nA nB) = nB" "followed ?r [] (sample_conn nA nB)" by code_simp+
  then have "(nA, nB) \<in> passes ?g nC ?r []" using st(2) unfolding passes_def by blast
  with st(1) findStartNodes_exact[OF hyps, of nC "[]" ?r] show ?thesis by blast
qed

lemma findStartNodes_reachable:
  assumes "wf_graph g" and "isMember g trigger" and "findStartNodes g trigger d p r = Inr st"
  shows "distinct st \<and> (\<forall>n \<in> set st. (trigger, n) \<in> (edges g)\<^sup>* \<and> isMember g n)"
proof -
  have st: "distinct st" "set st \<subseteq> {n. (trigger, n) \<in> (passes g d r p)\<^sup>*}"
    using findStartNodes_ok[OF assms(1,2), of d p r] assms(3) by auto
  have reach: "(trigger, n) \<in> (edges g)\<^sup>*" if "n \<in> set st" for n
    using st(2) that rtrancl_mono[OF passes_edges] by blast
  moreover have "isMember g n" if "(trigger, n) \<in> (edges g)\<^sup>*" for n
    using that assms(2) by (induction rule: rtrancl_induct) (auto dest: edges_members[OF assms(1)])
  ultimately show ?thesis using st(1) by blast
qed

end
