(* ===== verification/Clean_Run_Data.thy ===== *)
theory Clean_Run_Data
  imports Run_Data
begin

text \<open>
  \<^verbatim>\<open>clean-run-data.ts\<close>: the run data of the start nodes, of everything downstream of them and of
  the utility nodes of all of these is dropped, and so is that of nodes outside the subgraph.
\<close>

definition cleanNode :: "DirectedGraph \<Rightarrow> INode \<Rightarrow> IRunData \<Rightarrow> IRunData result" where
  "cleanNode graph node runData =
     (case getParentConnections graph node of
        Inl e \<Rightarrow> Inl e
      | Inr subNodeConnections \<Rightarrow>
          Inr (foldl (\<lambda>rd c. if gc_type c = main_type then rd else jdel rd (node_name (gc_from c)))
            (jdel runData (node_name node)) subNodeConnections))"

definition cleanDownstream :: "DirectedGraph \<Rightarrow> INode \<Rightarrow> IRunData \<Rightarrow> IRunData result" where
  "cleanDownstream graph nodeToClean runData =
     (case getChildren graph nodeToClean of
        Inl e \<Rightarrow> Inl e
      | Inr children \<Rightarrow>
          fold_res (cleanNode graph) (nodeToClean # children)
            (jdel runData (node_name nodeToClean)))"

definition cleanRunData :: "IRunData \<Rightarrow> DirectedGraph \<Rightarrow> INode list \<Rightarrow> IRunData result" where
  "cleanRunData runData graph nodesToClean =
     (case fold_res (cleanDownstream graph) nodesToClean runData of
        Inl e \<Rightarrow> Inl e
      | Inr newRunData \<Rightarrow>
          Inr (foldl (\<lambda>rd nodeName. if hasNode graph nodeName then rd else jdel rd nodeName)
            newRunData (jkeys newRunData)))"

section \<open>Exactly what is dropped\<close>

definition erased :: "string set \<Rightarrow> IRunData \<Rightarrow> IRunData \<Rightarrow> bool" where
  "erased K rd rd' \<longleftrightarrow> (\<forall>k. jget rd' k = (if k \<in> K then None else jget rd k))"

lemma erased_jdel: "erased {k} rd (jdel rd k)"
  by (simp add: erased_def)

lemma erased_trans: "erased K r s \<Longrightarrow> erased L s t \<Longrightarrow> erased (K \<union> L) r t"
  by (simp add: erased_def)

lemma erased_foldl: "erased (f ` {x \<in> set xs. P x}) rd (foldl (\<lambda>rd x. if P x then jdel rd (f x) else rd) rd xs)"
proof (induction xs arbitrary: rd)
  case (Cons x xs)
  show ?case
  proof (cases "P x")
    case True
    have "f ` {y \<in> set (x # xs). P y} = {f x} \<union> f ` {y \<in> set xs. P y}" using True by auto
    with erased_trans[OF erased_jdel Cons.IH] True show ?thesis by simp
  next
    case False
    then have "f ` {y \<in> set (x # xs). P y} = f ` {y \<in> set xs. P y}" by auto
    with Cons.IH False show ?thesis by simp
  qed
qed (simp add: erased_def)

lemma erased_fold_res:
  assumes "\<And>x t. x \<in> set xs \<Longrightarrow> \<exists>t'. f x t = Inr t' \<and> erased (K x) t t'"
  shows "\<exists>t. fold_res f xs s = Inr t \<and> erased (\<Union>x \<in> set xs. K x) s t"
  using assms
proof (induction xs arbitrary: s)
  case (Cons x xs)
  obtain s1 where s1: "f x s = Inr s1" "erased (K x) s s1" using Cons.prems[of x s] by auto
  obtain t where "fold_res f xs s1 = Inr t" "erased (\<Union>x \<in> set xs. K x) s1 t"
    using Cons.IH[of s1] Cons.prems by auto
  with s1 erased_trans[OF s1(2)] show ?case by auto
qed (simp add: erased_def)

text \<open>The utility nodes of a node: the sources of the connections of other types on the paths that
  lead to it.\<close>

definition utility_names :: "DirectedGraph \<Rightarrow> INode \<Rightarrow> string set" where
  "utility_names g n =
     (\<lambda>c. node_name (gc_from c)) ` {c \<in> conn_set g. gc_type c \<noteq> main_type \<and> (gc_to c, n) \<in> (edges g)\<^sup>*}"

definition downstream_names :: "DirectedGraph \<Rightarrow> INode \<Rightarrow> string set" where
  "downstream_names g n = (\<Union>m \<in> {m. (n, m) \<in> (edges g)\<^sup>*}. insert (node_name m) (utility_names g m))"

lemma cleanNode_ok:
  assumes "wf_graph g" "isMember g n"
  shows "\<exists>rd'. cleanNode g n rd = Inr rd' \<and> erased (insert (node_name n) (utility_names g n)) rd rd'"
proof -
  obtain cs where cs: "getParentConnections g n = Inr cs"
    "set cs = {c \<in> conn_set g. (gc_to c, n) \<in> (edges g)\<^sup>*}"
    using getParentConnections_ok[OF assms] by blast
  let ?f = "\<lambda>c. node_name (gc_from c)"
  have swap: "(\<lambda>rd c. if gc_type c = main_type then rd else jdel rd (?f c)) =
      (\<lambda>rd c. if gc_type c \<noteq> main_type then jdel rd (?f c) else rd)"
    by (intro ext) simp
  have "?f ` {c \<in> set cs. gc_type c \<noteq> main_type} = utility_names g n"
    unfolding utility_names_def cs(2) by (intro arg_cong[where f = "image _"]) auto
  with erased_trans[OF erased_jdel[of "node_name n" rd]
      erased_foldl[where f = ?f and P = "\<lambda>c. gc_type c \<noteq> main_type" and xs = cs]]
  show ?thesis unfolding cleanNode_def cs(1) swap by simp
qed

lemma cleanDownstream_ok:
  assumes "wf_graph g" "isMember g n"
  shows "\<exists>rd'. cleanDownstream g n rd = Inr rd' \<and> erased (downstream_names g n) rd rd'"
proof -
  obtain ch where ch: "getChildren g n = Inr ch" "set ch = {m. (n, m) \<in> (edges g)\<^sup>+}"
    using getChildren_ok[OF assms] by blast
  have all: "set (n # ch) = {m. (n, m) \<in> (edges g)\<^sup>*}" using ch(2) by (auto simp: rtrancl_eq_or_trancl)
  have mem: "isMember g m" if "m \<in> set (n # ch)" for m
  proof -
    from that all have "(n, m) \<in> (edges g)\<^sup>*" by blast
    then show ?thesis using assms(2)
      by (induction rule: rtrancl_induct) (auto dest: edges_members[OF assms(1)])
  qed
  obtain rd' where rd': "fold_res (cleanNode g) (n # ch) (jdel rd (node_name n)) = Inr rd'"
    "erased (\<Union>m \<in> set (n # ch). insert (node_name m) (utility_names g m)) (jdel rd (node_name n)) rd'"
    using erased_fold_res[where f = "cleanNode g" and xs = "n # ch"
        and K = "\<lambda>m. insert (node_name m) (utility_names g m)" and s = "jdel rd (node_name n)"]
      cleanNode_ok[OF assms(1) mem] by blast
  have "{node_name n} \<union> (\<Union>m \<in> set (n # ch). insert (node_name m) (utility_names g m)) =
      downstream_names g n" unfolding downstream_names_def all[symmetric] by auto
  with erased_trans[OF erased_jdel rd'(2)] rd'(1) ch(1) show ?thesis
    unfolding cleanDownstream_def by simp
qed

lemma cleanRunData_ok:
  assumes "wf_graph g" and "\<forall>n \<in> set ns. isMember g n"
  shows "\<exists>rd'. cleanRunData rd g ns = Inr rd' \<and>
    (\<forall>k. jget rd' k =
       (if hasNode g k \<and> k \<notin> (\<Union>n \<in> set ns. downstream_names g n) then jget rd k else None))"
proof -
  obtain r1 where r1: "fold_res (cleanDownstream g) ns rd = Inr r1"
    "erased (\<Union>n \<in> set ns. downstream_names g n) rd r1"
    using erased_fold_res[where f = "cleanDownstream g" and xs = ns and K = "downstream_names g" and s = rd]
      cleanDownstream_ok[OF assms(1)] assms(2) by blast
  let ?r2 = "foldl (\<lambda>rd k. if hasNode g k then rd else jdel rd k) r1 (jkeys r1)"
  have swap: "(\<lambda>rd k. if hasNode g k then rd else jdel rd k) =
      (\<lambda>rd k. if \<not> hasNode g k then jdel rd (id k) else rd)"
    by (intro ext) simp
  have e: "erased {k \<in> set (jkeys r1). \<not> hasNode g k} r1 ?r2"
    unfolding swap using erased_foldl[where f = id and P = "\<lambda>k. \<not> hasNode g k" and xs = "jkeys r1" and rd = r1]
    by simp
  have "jget ?r2 k = (if hasNode g k then jget r1 k else None)" for k
  proof (cases "k \<in> set (jkeys r1)")
    case False
    then have "jget r1 k = None" by (simp add: map_of_eq_None_iff)
    with e show ?thesis by (simp add: erased_def)
  qed (use e in \<open>simp add: erased_def\<close>)
  with r1 show ?thesis unfolding cleanRunData_def by (auto simp: erased_def)
qed

text \<open>C14: \<open>cleanRunData\<close> fails no assertion for nodes of the graph, and what is left is exactly the run
  data of the nodes of the graph that are neither one of the cleaned nodes or downstream of one, nor a
  utility node (the source of a connection of another type) on the way to one of these.\<close>

theorem cleanRunData_exact:
  assumes "wf_graph g" and "\<forall>n \<in> set ns. isMember g n"
  shows "\<exists>rd'. cleanRunData rd g ns = Inr rd' \<and>
    (\<forall>k. jget rd' k =
       (if hasNode g k \<and> k \<notin> (\<Union>n \<in> set ns. downstream_names g n) then jget rd k else None))"
  by (rule cleanRunData_ok[OF assms])

lemma cleanRunData_exact_witness:
  "\<exists>rd'. cleanRunData [(''a'', []), (''b'', []), (''z'', [])]
      (sample_graph [nA, nB, nC] [(nA, nB), (nB, nC)]) [nB] = Inr rd' \<and>
     jget rd' ''b'' = None \<and> jget rd' ''z'' = None"
proof -
  let ?g = "sample_graph [nA, nB, nC] [(nA, nB), (nB, nC)]"
  have hyps: "wf_graph ?g" "\<forall>n \<in> set [nB]. isMember ?g n" by code_simp+
  have "\<not> hasNode ?g ''z''" by code_simp
  moreover have "''b'' \<in> downstream_names ?g nB"
    by (auto simp: downstream_names_def sample_node_def intro!: exI[of _ nB])
  ultimately show ?thesis
    using cleanRunData_exact[OF hyps, of "[(''a'', []), (''b'', []), (''z'', [])]"] by fastforce
qed

section \<open>The next execution index\<close>

text \<open>The next execution index is above every execution index in the run data.\<close>

lemma getNextExecutionIndex_fresh:
  "\<forall>runs \<in> set (jvalues r). \<forall>taskData \<in> set runs. \<forall>i. td_executionIndex taskData = Some i \<longrightarrow>
     i < getNextExecutionIndex r"
  by (blast intro: getNextExecutionIndex_above)

end
