(* ===== verification/Source_Groups.thy ===== *)
theory Source_Groups
  imports Clean_Run_Data "HOL-Library.Multiset"
begin

text \<open>
  \<^verbatim>\<open>get-source-data-groups.ts\<close>: the incoming connections of a node grouped into sets of inputs the
  node can run with. \<open>localeCompare\<close> is the string comparison of the JavaScript engine, whose order
  depends on its locale; it is a parameter of the sort.
\<close>

section \<open>Sorting and searching arrays\<close>

text \<open>\<^verbatim>\<open>Array.prototype.sort\<close>, which is stable, for a comparison that is a total order.\<close>

fun js_insort :: "('a \<Rightarrow> 'a \<Rightarrow> int) \<Rightarrow> 'a \<Rightarrow> 'a list \<Rightarrow> 'a list" where
  "js_insort c x [] = [x]"
| "js_insort c x (y # ys) = (if c x y \<le> 0 then x # y # ys else y # js_insort c x ys)"

definition js_sort :: "('a \<Rightarrow> 'a \<Rightarrow> int) \<Rightarrow> 'a list \<Rightarrow> 'a list" where
  "js_sort c xs = foldr (js_insort c) xs []"

lemma mset_js_insort [simp]: "mset (js_insort c x xs) = add_mset x (mset xs)"
  by (induction xs) auto

lemma mset_js_sort [simp]: "mset (js_sort c xs) = mset xs"
  by (induction xs) (auto simp: js_sort_def)

lemma set_js_sort [simp]: "set (js_sort c xs) = set xs"
  by (metis mset_js_sort set_mset_mset)

lemma js_sort_eq_Nil [simp]: "js_sort c xs = [] \<longleftrightarrow> xs = []"
  by (metis mset_js_sort mset_zero_iff)

text \<open>\<^verbatim>\<open>findIndex\<close> and \<^verbatim>\<open>splice\<close> together: the first element that satisfies the test and the rest.\<close>

fun take_first :: "('a \<Rightarrow> bool) \<Rightarrow> 'a list \<Rightarrow> ('a \<times> 'a list) option" where
  "take_first P [] = None"
| "take_first P (x # xs) =
     (if P x then Some (x, xs) else map_option (\<lambda>(y, ys). (y, x # ys)) (take_first P xs))"

lemma take_first_None: "take_first P xs = None \<longleftrightarrow> (\<forall>x \<in> set xs. \<not> P x)"
  by (induction xs) auto

lemma take_first_Some:
  "take_first P xs = Some (x, ys) \<Longrightarrow> P x \<and> mset xs = add_mset x (mset ys) \<and> length xs = Suc (length ys)"
  by (induction xs arbitrary: ys) (auto split: if_splits)

lemma take_first_sub: "take_first P xs = Some (x, ys) \<Longrightarrow> set ys \<subseteq> set xs"
  using take_first_Some[of P xs x ys] by (metis insert_iff set_mset_add_mset_insert set_mset_mset subsetI)

section \<open>The groups\<close>

record SourceConnectionGroup =
  sg_complete :: bool
  sg_connections :: "GraphConnection list"

definition newGroup :: SourceConnectionGroup where
  "newGroup = \<lparr>sg_complete = True, sg_connections = []\<rparr>"

definition sortByInputIndexThenByName ::
    "(string \<Rightarrow> string \<Rightarrow> int) \<Rightarrow> GraphConnection \<Rightarrow> GraphConnection \<Rightarrow> int" where
  "sortByInputIndexThenByName localeCompare c1 c2 =
     (if gc_inputIndex c1 = gc_inputIndex c2
      then localeCompare (node_name (gc_from c1)) (node_name (gc_from c2))
      else int (gc_inputIndex c1) - int (gc_inputIndex c2))"

definition hasSourceData :: "IRunData \<Rightarrow> IPinData \<Rightarrow> GraphConnection \<Rightarrow> bool" where
  "hasSourceData runData pinnedData c \<longleftrightarrow>
     jget runData (node_name (gc_from c)) \<noteq> None \<or> jget pinnedData (node_name (gc_from c)) \<noteq> None"

text \<open>\<^verbatim>\<open>Math.min(...) - 1\<close> over the input indices of both lists; it is only used on lists that are not
  both empty.\<close>

definition beforeFirstInput :: "GraphConnection list \<Rightarrow> GraphConnection list \<Rightarrow> int" where
  "beforeFirstInput ws wo = int (Min (gc_inputIndex ` set (ws @ wo))) - 1"

definition addToGroup :: "SourceConnectionGroup \<Rightarrow> bool \<Rightarrow> GraphConnection \<Rightarrow> SourceConnectionGroup" where
  "addToGroup grp hasData c =
     grp\<lparr>sg_complete := sg_complete grp \<and> hasData, sg_connections := sg_connections grp @ [c]\<rparr>"

function groupLoop ::
    "GraphConnection list \<Rightarrow> GraphConnection list \<Rightarrow> SourceConnectionGroup list \<Rightarrow>
     SourceConnectionGroup \<Rightarrow> int \<Rightarrow> SourceConnectionGroup list" where
  "groupLoop ws wo groups currentGroup currentInputIndex =
     (if ws = [] \<and> wo = [] then groups @ [currentGroup]
      else
        let index = currentInputIndex + 1
        in case take_first (\<lambda>c. int (gc_inputIndex c) = index) ws of
             Some (c, ws') \<Rightarrow> groupLoop ws' wo groups (addToGroup currentGroup True c) index
           | None \<Rightarrow>
               (case take_first (\<lambda>c. int (gc_inputIndex c) = index) wo of
                  Some (c, wo') \<Rightarrow> groupLoop ws wo' groups (addToGroup currentGroup False c) index
                | None \<Rightarrow> groupLoop ws wo (groups @ [currentGroup]) newGroup (beforeFirstInput ws wo)))"
  by pat_completeness auto

lemma beforeFirstInput_hit:
  assumes "\<not> (ws = [] \<and> wo = [])"
  shows "\<exists>c \<in> set (ws @ wo). int (gc_inputIndex c) = beforeFirstInput ws wo + 1"
proof -
  have "Min (gc_inputIndex ` set (ws @ wo)) \<in> gc_inputIndex ` set (ws @ wo)"
    using assms by (intro Min_in) auto
  then show ?thesis unfolding beforeFirstInput_def by force
qed

text \<open>Either a connection is taken, or a new group starts at an input that has one.\<close>

definition groupMeasure :: "GraphConnection list \<Rightarrow> GraphConnection list \<Rightarrow> int \<Rightarrow> nat" where
  "groupMeasure ws wo i =
     2 * (length ws + length wo) +
     (if \<exists>c \<in> set (ws @ wo). int (gc_inputIndex c) = i + 1 then 0 else 1)"

termination groupLoop
proof (relation "measure (\<lambda>(ws, wo, gs, g, i). groupMeasure ws wo i)", goal_cases)
  case (4 ws wo gs g i idx p c ws')
  then have "length ws = Suc (length ws')" using take_first_Some by fastforce
  then show ?case by (simp add: groupMeasure_def)
next
  case (3 ws wo gs g i idx p c wo')
  then have "length wo = Suc (length wo')" using take_first_Some by fastforce
  then show ?case by (simp add: groupMeasure_def)
next
  case (2 ws wo gs g i idx)
  then have "\<not> (\<exists>c \<in> set (ws @ wo). int (gc_inputIndex c) = i + 1)"
    by (auto simp: take_first_None)
  with beforeFirstInput_hit[OF 2(1)] show ?case by (auto simp: groupMeasure_def)
qed simp

declare groupLoop.simps [simp del]

definition getSourceDataGroups ::
    "(string \<Rightarrow> string \<Rightarrow> int) \<Rightarrow> DirectedGraph \<Rightarrow> INode \<Rightarrow> IRunData \<Rightarrow> IPinData \<Rightarrow>
     SourceConnectionGroup list" where
  "getSourceDataGroups localeCompare graph node runData pinnedData =
     (let connections = getConnections graph (Some node);
          withData = filter (hasSourceData runData pinnedData) connections;
          withoutData = filter (\<lambda>c. \<not> hasSourceData runData pinnedData c \<and> gc_type c = main_type)
                          connections
      in if length withData = 0 \<and> length withoutData = 0 then []
         else
           let ws = js_sort (sortByInputIndexThenByName localeCompare) withData;
               wo = js_sort (sortByInputIndexThenByName localeCompare) withoutData
           in groupLoop ws wo [] newGroup (beforeFirstInput ws wo))"

section \<open>Every connection in exactly one group\<close>

text \<open>A group takes consecutive inputs.\<close>

definition consecutive :: "GraphConnection list \<Rightarrow> bool" where
  "consecutive cs \<longleftrightarrow> (\<exists>k. map gc_inputIndex cs = [k..<k + length cs])"

definition good_group :: "(GraphConnection \<Rightarrow> bool) \<Rightarrow> SourceConnectionGroup \<Rightarrow> bool" where
  "good_group has grp \<longleftrightarrow>
     consecutive (sg_connections grp) \<and> (sg_complete grp \<longleftrightarrow> (\<forall>c \<in> set (sg_connections grp). has c))"

text \<open>The group in progress: it ends at the current input, or is empty and the next input has a
  connection.\<close>

definition open_group ::
    "GraphConnection list \<Rightarrow> GraphConnection list \<Rightarrow> SourceConnectionGroup \<Rightarrow> int \<Rightarrow> bool" where
  "open_group ws wo grp i \<longleftrightarrow>
     (if sg_connections grp = []
      then ws \<noteq> [] \<or> wo \<noteq> [] \<longrightarrow> (\<exists>c \<in> set (ws @ wo). int (gc_inputIndex c) = i + 1)
      else int (gc_inputIndex (last (sg_connections grp))) = i)"

lemma consecutive_snoc:
  assumes "consecutive cs" and "cs = [] \<or> gc_inputIndex c = Suc (gc_inputIndex (last cs))"
  shows "consecutive (cs @ [c])"
proof (cases "cs = []")
  case True
  have "map gc_inputIndex (cs @ [c]) = [gc_inputIndex c..<gc_inputIndex c + length (cs @ [c])]"
    using True by simp
  then show ?thesis unfolding consecutive_def ..
next
  case False
  obtain k where k: "map gc_inputIndex cs = [k..<k + length cs]"
    using assms(1) by (auto simp: consecutive_def)
  have "gc_inputIndex (last cs) = last (map gc_inputIndex cs)" using False by (simp add: last_map)
  also have "\<dots> = k + length cs - 1" unfolding k using False by simp
  finally have "gc_inputIndex c = k + length cs" using assms(2) False by (cases cs) auto
  with k have "map gc_inputIndex (cs @ [c]) = [k..<k + length (cs @ [c])]" by simp
  then show ?thesis unfolding consecutive_def ..
qed

lemma addToGroup_good:
  assumes "good_group has grp" "open_group ws wo grp i" "int (gc_inputIndex c) = i + 1" "has c \<longleftrightarrow> b"
  shows "good_group has (addToGroup grp b c)" and "open_group ws' wo' (addToGroup grp b c) (i + 1)"
proof -
  have "sg_connections grp = [] \<or> gc_inputIndex c = Suc (gc_inputIndex (last (sg_connections grp)))"
    using assms(2,3) unfolding open_group_def by (cases "sg_connections grp = []") auto
  with assms(1) have "consecutive (sg_connections grp @ [c])"
    by (intro consecutive_snoc) (auto simp: good_group_def)
  then show "good_group has (addToGroup grp b c)"
    using assms(1,4) by (auto simp: good_group_def addToGroup_def)
  show "open_group ws' wo' (addToGroup grp b c) (i + 1)"
    using assms(3) by (simp add: open_group_def addToGroup_def)
qed

definition grouped :: "SourceConnectionGroup list \<Rightarrow> GraphConnection multiset" where
  "grouped gs = mset (concat (map sg_connections gs))"

lemma groupLoop_ok:
  assumes "\<forall>c \<in> set ws. has c" "\<forall>c \<in> set wo. \<not> has c"
    and "\<forall>grp \<in> set gs. good_group has grp \<and> sg_connections grp \<noteq> []" "good_group has g" "open_group ws wo g i"
    and "ws \<noteq> [] \<or> wo \<noteq> [] \<or> sg_connections g \<noteq> []"
  shows "grouped (groupLoop ws wo gs g i) = grouped (gs @ [g]) + mset ws + mset wo \<and>
    (\<forall>grp \<in> set (groupLoop ws wo gs g i). good_group has grp \<and> sg_connections grp \<noteq> [])"
  using assms
proof (induction ws wo gs g i rule: groupLoop.induct)
  case (1 ws wo gs g i)
  let ?P = "\<lambda>c. int (gc_inputIndex c) = i + 1"
  show ?case
  proof (cases "ws = [] \<and> wo = []")
    case True
    then have "groupLoop ws wo gs g i = gs @ [g]" by (subst groupLoop.simps) simp
    with True 1(6,7,9) show ?thesis by (simp only: list.set Un_insert_right) (auto simp: grouped_def)
  next
    case ne: False
    show ?thesis
    proof (cases "take_first ?P ws")
      case (Some cw)
      obtain c ws' where cw: "cw = (c, ws')" by (cases cw)
      with Some have tf: "take_first ?P ws = Some (c, ws')" by simp
      have c: "?P c" "mset ws = add_mset c (mset ws')" "set ws' \<subseteq> set ws"
        using take_first_Some[OF tf] take_first_sub[OF tf] by auto
      have has: "has c" using 1(4) c(2) by (metis union_single_eq_member set_mset_mset)
      note g' = addToGroup_good[OF 1(7,8) c(1), of True]
      have eq: "groupLoop ws wo gs g i = groupLoop ws' wo gs (addToGroup g True c) (i + 1)"
        using tf by (subst groupLoop.simps) (auto simp: Let_def)
      have "grouped (groupLoop ws' wo gs (addToGroup g True c) (i + 1)) =
          grouped (gs @ [addToGroup g True c]) + mset ws' + mset wo \<and>
        (\<forall>grp \<in> set (groupLoop ws' wo gs (addToGroup g True c) (i + 1)).
           good_group has grp \<and> sg_connections grp \<noteq> [])"
        using 1(3)[OF ne refl tf refl _ 1(5,6)] 1(4) c(3) g' has by (auto simp: addToGroup_def)
      with c(2) show ?thesis unfolding eq by (auto simp: grouped_def addToGroup_def)
    next
      case None
      show ?thesis
      proof (cases "take_first ?P wo")
        case (Some cw)
        obtain c wo' where cw: "cw = (c, wo')" by (cases cw)
        with Some have tf: "take_first ?P wo = Some (c, wo')" by simp
        have c: "?P c" "mset wo = add_mset c (mset wo')" "set wo' \<subseteq> set wo"
          using take_first_Some[OF tf] take_first_sub[OF tf] by auto
        have has: "\<not> has c" using 1(5) c(2) by (metis union_single_eq_member set_mset_mset)
        note g' = addToGroup_good[OF 1(7,8) c(1), of False]
        have eq: "groupLoop ws wo gs g i = groupLoop ws wo' gs (addToGroup g False c) (i + 1)"
          using None tf by (subst groupLoop.simps) (auto simp: Let_def)
        have "grouped (groupLoop ws wo' gs (addToGroup g False c) (i + 1)) =
            grouped (gs @ [addToGroup g False c]) + mset ws + mset wo' \<and>
          (\<forall>grp \<in> set (groupLoop ws wo' gs (addToGroup g False c) (i + 1)).
             good_group has grp \<and> sg_connections grp \<noteq> [])"
          using 1(2)[OF ne refl None tf refl 1(4) _ 1(6)] 1(5) c(3) g' has by (auto simp: addToGroup_def)
        with c(2) show ?thesis unfolding eq by (auto simp: grouped_def addToGroup_def)
      next
        case None2: None
        have no: "\<not> (\<exists>c \<in> set (ws @ wo). ?P c)"
          using None None2 by (auto simp: take_first_None)
        then have g: "sg_connections g \<noteq> []" using 1(8) ne by (auto simp: open_group_def)
        have new: "good_group has newGroup" by (simp add: good_group_def newGroup_def consecutive_def)
        have opn: "open_group ws wo newGroup (beforeFirstInput ws wo)"
          using beforeFirstInput_hit[of ws wo] by (auto simp: open_group_def newGroup_def)
        have gs: "\<forall>grp \<in> set (gs @ [g]). good_group has grp \<and> sg_connections grp \<noteq> []"
          using 1(6,7) g by auto
        have eq: "groupLoop ws wo gs g i = groupLoop ws wo (gs @ [g]) newGroup (beforeFirstInput ws wo)"
          using ne None None2 by (subst groupLoop.simps) (auto simp: Let_def)
        have "grouped (groupLoop ws wo (gs @ [g]) newGroup (beforeFirstInput ws wo)) =
            grouped ((gs @ [g]) @ [newGroup]) + mset ws + mset wo \<and>
          (\<forall>grp \<in> set (groupLoop ws wo (gs @ [g]) newGroup (beforeFirstInput ws wo)).
             good_group has grp \<and> sg_connections grp \<noteq> [])"
          using 1(1)[OF ne refl None None2 1(4,5) gs new opn] ne by auto
        then show ?thesis unfolding eq by (simp add: grouped_def newGroup_def)
      qed
    qed
  qed
qed


text \<open>The connections that are grouped: into the node, with data or of the main type.\<close>

definition eligible :: "DirectedGraph \<Rightarrow> INode \<Rightarrow> IRunData \<Rightarrow> IPinData \<Rightarrow> GraphConnection multiset" where
  "eligible g n r p =
     {# c \<in># mset (jvalues (dg_connections g)). gc_to c = n \<and> (hasSourceData r p c \<or> gc_type c = main_type) #}"

lemma getSourceDataGroups_ok:
  "grouped (getSourceDataGroups cmp g n r p) = eligible g n r p \<and>
   (\<forall>grp \<in> set (getSourceDataGroups cmp g n r p).
      good_group (hasSourceData r p) grp \<and> sg_connections grp \<noteq> [])"
proof -
  let ?cs = "getConnections g (Some n)"
  let ?w = "filter (hasSourceData r p) ?cs"
  let ?o = "filter (\<lambda>c. \<not> hasSourceData r p c \<and> gc_type c = main_type) ?cs"
  let ?ws = "js_sort (sortByInputIndexThenByName cmp) ?w"
  let ?wo = "js_sort (sortByInputIndexThenByName cmp) ?o"
  have split: "mset ?w + mset ?o = eligible g n r p"
    by (auto simp: eligible_def getConnections_def mset_filter multiset_eq_iff)
  show ?thesis
  proof (cases "length ?w = 0 \<and> length ?o = 0")
    case True
    then have w: "mset ?w = {#}" "mset ?o = {#}" by (simp_all del: filter_filter)
    have "getSourceDataGroups cmp g n r p = []" unfolding getSourceDataGroups_def Let_def using True by (rule if_P)
    with w split show ?thesis by (simp add: grouped_def)
  next
    case False
    then have ne: "\<not> (?ws = [] \<and> ?wo = [])"
      by (simp only: js_sort_eq_Nil length_0_conv) blast
    have eq: "getSourceDataGroups cmp g n r p = groupLoop ?ws ?wo [] newGroup (beforeFirstInput ?ws ?wo)"
      unfolding getSourceDataGroups_def Let_def using False by (rule if_not_P)
    have "grouped (groupLoop ?ws ?wo [] newGroup (beforeFirstInput ?ws ?wo)) =
        grouped ([] @ [newGroup]) + mset ?ws + mset ?wo \<and>
      (\<forall>grp \<in> set (groupLoop ?ws ?wo [] newGroup (beforeFirstInput ?ws ?wo)).
         good_group (hasSourceData r p) grp \<and> sg_connections grp \<noteq> [])"
    proof (rule groupLoop_ok)
      show "open_group ?ws ?wo newGroup (beforeFirstInput ?ws ?wo)"
        using beforeFirstInput_hit[OF ne] by (simp add: open_group_def newGroup_def)
      show "good_group (hasSourceData r p) newGroup"
        by (simp add: good_group_def newGroup_def consecutive_def)
      show "?ws \<noteq> [] \<or> ?wo \<noteq> [] \<or> sg_connections newGroup \<noteq> []" using ne by blast
    qed auto
    with split show ?thesis unfolding eq by (simp add: grouped_def newGroup_def)
  qed
qed


definition gap_graph :: DirectedGraph where
  "gap_graph = foldl setConnection (addNodes new_graph [nA, nB, nC])
     [sample_conn nA nC, (sample_conn nB nC)\<lparr>gc_inputIndex := 2\<rparr>]"


text \<open>The groups hold one connection per input only while the inputs are consecutive: a node whose
  inputs 0 and 2 both have data is reported as two complete groups instead of one.\<close>

lemma getSourceDataGroups_gap:
  "let c0 = sample_conn nA nC; c2 = (sample_conn nB nC)\<lparr>gc_inputIndex := 2\<rparr>;
       g = foldl setConnection (addNodes new_graph [nA, nB, nC]) [c0, c2];
       r = [(''a'', [sample_run []]), (''b'', [sample_run []])]
   in getSourceDataGroups (\<lambda>_ _. 0) g nC r [] =
        [\<lparr>sg_complete = True, sg_connections = [c0]\<rparr>, \<lparr>sg_complete = True, sg_connections = [c2]\<rparr>]"
  by code_simp

end
