(* ===== verification/Execution_Stack.thy ===== *)
theory Execution_Stack
  imports Source_Groups
begin

text \<open>
  \<^verbatim>\<open>recreate-node-execution-stack.ts\<close>: the execution stack and the waiting list a partial execution
  starts with. The three results the source mutates are the fields of a record.
\<close>

section \<open>Waiting entries\<close>

definition addWaitingExecution ::
    "IWaitingForExecution \<Rightarrow> string \<Rightarrow> nat \<Rightarrow> connection_type \<Rightarrow> nat \<Rightarrow>
     INodeExecutionData list slot \<Rightarrow> IWaitingForExecution" where
  "addWaitingExecution waitingExecution nodeName runIndex inputType inputIndex executionData =
     (let waitingExecutionObject = (case jget waitingExecution nodeName of None \<Rightarrow> [] | Some m \<Rightarrow> m);
          taskDataConnections = (case jget waitingExecutionObject runIndex of None \<Rightarrow> [] | Some m \<Rightarrow> m);
          executionDataList = (case jget taskDataConnections inputType of None \<Rightarrow> [] | Some l \<Rightarrow> l)
      in jset waitingExecution nodeName
           (jset waitingExecutionObject runIndex
             (jset taskDataConnections inputType (slot_set executionDataList inputIndex executionData))))"

definition addWaitingExecutionSource ::
    "IWaitingForExecutionSource \<Rightarrow> string \<Rightarrow> nat \<Rightarrow> connection_type \<Rightarrow> nat \<Rightarrow>
     ISourceData slot \<Rightarrow> IWaitingForExecutionSource" where
  "addWaitingExecutionSource waitingExecutionSource nodeName runIndex inputType inputIndex sourceData =
     (let waitingExecutionSourceObject =
            (case jget waitingExecutionSource nodeName of None \<Rightarrow> [] | Some m \<Rightarrow> m);
          taskDataConnectionsSource =
            (case jget waitingExecutionSourceObject runIndex of None \<Rightarrow> [] | Some m \<Rightarrow> m);
          sourceDataList = (case jget taskDataConnectionsSource inputType of None \<Rightarrow> [] | Some l \<Rightarrow> l)
      in jset waitingExecutionSource nodeName
           (jset waitingExecutionSourceObject runIndex
             (jset taskDataConnectionsSource inputType (slot_set sourceDataList inputIndex sourceData))))"

text \<open>What is stored for one input of one pending run.\<close>

definition waitingAt ::
    "(string, (nat, (connection_type, 'a slot list) jsmap) jsmap) jsmap \<Rightarrow> string \<Rightarrow> nat \<Rightarrow>
     connection_type \<Rightarrow> nat \<Rightarrow> 'a slot" where
  "waitingAt w nodeName runIndex inputType inputIndex =
     (case jget w nodeName of
        None \<Rightarrow> Undefined
      | Some obj \<Rightarrow>
          (case jget obj runIndex of
             None \<Rightarrow> Undefined
           | Some conns \<Rightarrow>
               (case jget conns inputType of
                  None \<Rightarrow> Undefined
                | Some l \<Rightarrow> slot_get l inputIndex)))"

lemma slot_get_Nil [simp]: "slot_get [] i = Undefined"
  by (simp add: slot_get_def)

lemma waitingAt_add:
  "waitingAt (addWaitingExecution w n r t i v) n' r' t' i' =
     (if n' = n \<and> r' = r \<and> t' = t \<and> i' = i then v else waitingAt w n' r' t' i')"
  by (auto simp: waitingAt_def addWaitingExecution_def Let_def split: option.splits)

lemma waitingAt_addSource:
  "waitingAt (addWaitingExecutionSource w n r t i v) n' r' t' i' =
     (if n' = n \<and> r' = r \<and> t' = t \<and> i' = i then v else waitingAt w n' r' t' i')"
  by (auto simp: waitingAt_def addWaitingExecutionSource_def Let_def split: option.splits)

lemma waiting_names_add:
  "fst ` set (addWaitingExecution w n r t i v) = insert n (fst ` set w)"
  by (simp add: addWaitingExecution_def Let_def)

section \<open>Recreating the stack\<close>

record RecreatedStack =
  nodeExecutionStack :: "IExecuteData list"
  waitingExecution :: IWaitingForExecution
  waitingExecutionSource :: IWaitingForExecutionSource

definition source_of :: "GraphConnection \<Rightarrow> nat \<Rightarrow> ISourceData slot" where
  "source_of c runIndex =
     Value \<lparr>previousNode = node_name (gc_from c), previousNodeOutput = Some (gc_outputIndex c),
            previousNodeRun = Some runIndex\<rparr>"

text \<open>The loop over the connections of a complete group; the state is \<^verbatim>\<open>incomingData\<close> and
  \<^verbatim>\<open>incomingSourceData.main\<close>.\<close>

definition completeStep ::
    "IRunData \<Rightarrow> IPinData \<Rightarrow> GraphConnection \<Rightarrow>
     INodeExecutionData list slot list \<times> ISourceData slot list \<Rightarrow>
     (INodeExecutionData list slot list \<times> ISourceData slot list) result" where
  "completeStep runData pinData c s =
     (let (incomingData, sources) = s; name = node_name (gc_from c)
      in case jget pinData name of
           Some items \<Rightarrow> Inr (incomingData @ [Value items], sources @ [source_of c 0])
         | None \<Rightarrow>
             if jget runData name = None then Inl AssertionError
             else case getIncomingDataFromAnyRun runData name (gc_type c) (gc_outputIndex c) of
               Some (data, runIndex) \<Rightarrow>
                 Inr (incomingData @ [Value data], sources @ [source_of c runIndex])
             | None \<Rightarrow> Inr (incomingData, sources @ [source_of c 0]))"

text \<open>The loop over the connections of an incomplete group.\<close>

definition incompleteStep ::
    "IRunData \<Rightarrow> string \<Rightarrow> nat \<Rightarrow> RecreatedStack \<Rightarrow> GraphConnection \<Rightarrow> RecreatedStack" where
  "incompleteStep runData nodeName nextRunIndex s c =
     (case getIncomingDataFromAnyRun runData (node_name (gc_from c)) (gc_type c) (gc_outputIndex c) of
        None \<Rightarrow> s
      | Some (data, _) \<Rightarrow>
          s\<lparr>waitingExecution :=
              addWaitingExecution (waitingExecution s) nodeName nextRunIndex (gc_type c)
                (gc_inputIndex c) (Value data),
            waitingExecutionSource :=
              addWaitingExecutionSource (waitingExecutionSource s) nodeName nextRunIndex (gc_type c)
                (gc_inputIndex c) (source_of c nextRunIndex)\<rparr>)"

definition groupStep ::
    "IRunData \<Rightarrow> IPinData \<Rightarrow> INode \<Rightarrow> SourceConnectionGroup \<Rightarrow> RecreatedStack \<Rightarrow> RecreatedStack result" where
  "groupStep runData pinData startNode sourceData s =
     (if sg_complete sourceData then
        case fold_res (completeStep runData pinData) (sg_connections sourceData) ([], []) of
          Inl e \<Rightarrow> Inl e
        | Inr (incomingData, sources) \<Rightarrow>
            Inr (s\<lparr>nodeExecutionStack := nodeExecutionStack s @
              [\<lparr>ed_node = startNode, ed_data = [(main_type, incomingData)],
                ed_source = Some [(main_type, sources)]\<rparr>]\<rparr>)
      else
        let nodeName = node_name startNode;
            nextRunIndex = (case jget (waitingExecution s) nodeName of None \<Rightarrow> 0 | Some m \<Rightarrow> length m)
        in Inr (foldl (incompleteStep runData nodeName nextRunIndex) s (sg_connections sourceData)))"

definition startNodeStep ::
    "(string \<Rightarrow> string \<Rightarrow> int) \<Rightarrow> DirectedGraph \<Rightarrow> IRunData \<Rightarrow> IPinData \<Rightarrow> INode \<Rightarrow> RecreatedStack \<Rightarrow>
     RecreatedStack result" where
  "startNodeStep localeCompare graph runData pinData startNode s =
     (case getDirectParentConnections graph startNode of
        Inl e \<Rightarrow> Inl e
      | Inr parents \<Rightarrow>
          let incomingStartNodeConnections = filter (\<lambda>c. gc_type c = main_type) parents
          in if length incomingStartNodeConnections = 0 then
               Inr (s\<lparr>nodeExecutionStack := nodeExecutionStack s @
                 [\<lparr>ed_node = startNode, ed_data = [(main_type, [Value [empty_item]])],
                   ed_source = None\<rparr>]\<rparr>)
             else
               fold_res (groupStep runData pinData startNode)
                 (getSourceDataGroups localeCompare graph startNode runData pinData) s)"

definition recreateNodeExecutionStack ::
    "(string \<Rightarrow> string \<Rightarrow> int) \<Rightarrow> DirectedGraph \<Rightarrow> INode list \<Rightarrow> IRunData \<Rightarrow> IPinData \<Rightarrow>
     RecreatedStack result" where
  "recreateNodeExecutionStack localeCompare graph startNodes runData pinData =
     (if list_ex is_disabled (jvalues (dg_nodes graph)) then Inl AssertionError
      else fold_res (startNodeStep localeCompare graph runData pinData) startNodes
             \<lparr>nodeExecutionStack = [], waitingExecution = [], waitingExecutionSource = []\<rparr>)"

section \<open>The entries on the stack\<close>

text \<open>The items a connection brings and the run they come from.\<close>

definition items_of :: "IRunData \<Rightarrow> IPinData \<Rightarrow> GraphConnection \<Rightarrow> INodeExecutionData list option" where
  "items_of r p c =
     (case jget p (node_name (gc_from c)) of
        Some items \<Rightarrow> Some items
      | None \<Rightarrow> map_option fst
          (getIncomingDataFromAnyRun r (node_name (gc_from c)) (gc_type c) (gc_outputIndex c)))"

definition run_of :: "IRunData \<Rightarrow> IPinData \<Rightarrow> GraphConnection \<Rightarrow> nat" where
  "run_of r p c =
     (case jget p (node_name (gc_from c)) of
        Some _ \<Rightarrow> 0
      | None \<Rightarrow>
          (case getIncomingDataFromAnyRun r (node_name (gc_from c)) (gc_type c) (gc_outputIndex c) of
             None \<Rightarrow> 0 | Some (_, i) \<Rightarrow> i))"

definition group_entry :: "IRunData \<Rightarrow> IPinData \<Rightarrow> INode \<Rightarrow> GraphConnection list \<Rightarrow> IExecuteData" where
  "group_entry r p n cs =
     \<lparr>ed_node = n, ed_data = [(main_type, map Value (List.map_filter (items_of r p) cs))],
      ed_source = Some [(main_type, map (\<lambda>c. source_of c (run_of r p c)) cs)]\<rparr>"

definition start_entries ::
    "(string \<Rightarrow> string \<Rightarrow> int) \<Rightarrow> DirectedGraph \<Rightarrow> IRunData \<Rightarrow> IPinData \<Rightarrow> INode \<Rightarrow> IExecuteData list" where
  "start_entries cmp g r p n =
     (if \<exists>c \<in> conn_set g. gc_to c = n \<and> gc_type c = main_type
      then map (group_entry r p n \<circ> sg_connections)
             (filter sg_complete (getSourceDataGroups cmp g n r p))
      else [\<lparr>ed_node = n, ed_data = [(main_type, [Value [empty_item]])], ed_source = None\<rparr>])"

lemma completeStep_eq:
  "hasSourceData r p c \<Longrightarrow>
    completeStep r p c (ds, ss) =
      Inr (ds @ map Value (List.map_filter (items_of r p) [c]), ss @ [source_of c (run_of r p c)])"
  by (auto simp: completeStep_def Let_def hasSourceData_def items_of_def run_of_def List.map_filter_def
      split: option.splits)

lemma complete_fold:
  "\<forall>c \<in> set cs. hasSourceData r p c \<Longrightarrow>
    fold_res (completeStep r p) cs (ds, ss) =
      Inr (ds @ map Value (List.map_filter (items_of r p) cs),
           ss @ map (\<lambda>c. source_of c (run_of r p c)) cs)"
  by (induction cs arbitrary: ds ss) (auto simp: completeStep_eq List.map_filter_def)

text \<open>What a waiting entry may hold: data of a connection into the waiting start node.\<close>

definition waiting_ok :: "DirectedGraph \<Rightarrow> IRunData \<Rightarrow> INode set \<Rightarrow> RecreatedStack \<Rightarrow> bool" where
  "waiting_ok g r N s \<longleftrightarrow>
     (\<forall>name k t i d. waitingAt (waitingExecution s) name k t i = Value d \<longrightarrow>
        (\<exists>n \<in> N. node_name n = name \<and>
          (\<exists>c \<in> conn_set g. gc_to c = n \<and> gc_type c = t \<and> gc_inputIndex c = i \<and>
             map_option fst (getIncomingDataFromAnyRun r (node_name (gc_from c)) t (gc_outputIndex c)) = Some d)))"

lemma waiting_okE:
  assumes "waiting_ok g r N s" "waitingAt (waitingExecution s) name k t i = Value d"
  shows "\<exists>n \<in> N. node_name n = name \<and>
    (\<exists>c \<in> conn_set g. gc_to c = n \<and> gc_type c = t \<and> gc_inputIndex c = i \<and>
       map_option fst (getIncomingDataFromAnyRun r (node_name (gc_from c)) t (gc_outputIndex c)) = Some d)"
  using assms unfolding waiting_ok_def by blast

lemma incompleteStep_ok:
  assumes "waiting_ok g r N s" "c \<in> conn_set g" "gc_to c \<in> N"
  shows "waiting_ok g r N (incompleteStep r (node_name (gc_to c)) k s c)"
proof (cases "getIncomingDataFromAnyRun r (node_name (gc_from c)) (gc_type c) (gc_outputIndex c)")
  case None
  with assms show ?thesis by (simp add: incompleteStep_def)
next
  case (Some dk)
  obtain d l where dk: "dk = (d, l)" by (cases dk)
  show ?thesis unfolding waiting_ok_def
  proof (intro allI impI)
    fix name k' t i d'
    assume w: "waitingAt (waitingExecution (incompleteStep r (node_name (gc_to c)) k s c)) name k' t i = Value d'"
    show "\<exists>n \<in> N. node_name n = name \<and>
      (\<exists>c \<in> conn_set g. gc_to c = n \<and> gc_type c = t \<and> gc_inputIndex c = i \<and>
         map_option fst (getIncomingDataFromAnyRun r (node_name (gc_from c)) t (gc_outputIndex c)) = Some d')"
    proof (cases "name = node_name (gc_to c) \<and> k' = k \<and> t = gc_type c \<and> i = gc_inputIndex c")
      case True
      then have "d' = d" using w Some dk by (simp add: incompleteStep_def waitingAt_add)
      then show ?thesis using True Some dk assms(2,3) by (intro bexI[of _ "gc_to c"] conjI bexI[of _ c]) auto
    next
      case False
      then have "waitingAt (waitingExecution s) name k' t i = Value d'"
        using w Some dk by (auto simp: incompleteStep_def waitingAt_add split: if_splits)
      then show ?thesis by (rule waiting_okE[OF assms(1)])
    qed
  qed
qed

lemma incompleteStep_stack [simp]:
  "nodeExecutionStack (incompleteStep r nm k s c) = nodeExecutionStack s"
  by (simp add: incompleteStep_def split: option.splits prod.splits)

lemma incomplete_fold:
  assumes "waiting_ok g r N s" "\<forall>c \<in> set cs. c \<in> conn_set g \<and> gc_to c = n" "n \<in> N"
  shows "waiting_ok g r N (foldl (incompleteStep r (node_name n) k) s cs) \<and>
    nodeExecutionStack (foldl (incompleteStep r (node_name n) k) s cs) = nodeExecutionStack s"
  using assms
proof (induction cs arbitrary: s)
  case (Cons c cs)
  have "waiting_ok g r N (incompleteStep r (node_name n) k s c)"
    using incompleteStep_ok[OF Cons.prems(1), of c k] Cons.prems(2,3) by auto
  from Cons.IH[OF this] Cons.prems(2,3) show ?case by simp
qed simp


lemma groupStep_ok:
  assumes "waiting_ok g r N s" "n \<in> N" "good_group (hasSourceData r p) grp"
    and "\<forall>c \<in> set (sg_connections grp). c \<in> conn_set g \<and> gc_to c = n"
  shows "\<exists>s'. groupStep r p n grp s = Inr s' \<and> waiting_ok g r N s' \<and>
    nodeExecutionStack s' = nodeExecutionStack s @
      (if sg_complete grp then [group_entry r p n (sg_connections grp)] else [])"
proof (cases "sg_complete grp")
  case True
  with assms(3) have "\<forall>c \<in> set (sg_connections grp). hasSourceData r p c" by (simp add: good_group_def)
  from complete_fold[OF this, of "[]" "[]"] True assms(1) show ?thesis
    by (simp add: groupStep_def group_entry_def waiting_ok_def)
next
  case False
  with incomplete_fold[OF assms(1,4,2)] show ?thesis by (simp add: groupStep_def Let_def)
qed

lemma groups_fold:
  assumes "waiting_ok g r N s" "n \<in> N"
    and "\<forall>grp \<in> set grps. good_group (hasSourceData r p) grp \<and>
      (\<forall>c \<in> set (sg_connections grp). c \<in> conn_set g \<and> gc_to c = n)"
  shows "\<exists>s'. fold_res (groupStep r p n) grps s = Inr s' \<and> waiting_ok g r N s' \<and>
    nodeExecutionStack s' = nodeExecutionStack s @
      map (group_entry r p n \<circ> sg_connections) (filter sg_complete grps)"
  using assms
proof (induction grps arbitrary: s)
  case (Cons grp grps)
  obtain s1 where s1: "groupStep r p n grp s = Inr s1" "waiting_ok g r N s1"
    "nodeExecutionStack s1 = nodeExecutionStack s @
      (if sg_complete grp then [group_entry r p n (sg_connections grp)] else [])"
    using groupStep_ok[OF Cons.prems(1,2), of p grp] Cons.prems(3) by auto
  obtain s' where "fold_res (groupStep r p n) grps s1 = Inr s'" "waiting_ok g r N s'"
    "nodeExecutionStack s' = nodeExecutionStack s1 @
      map (group_entry r p n \<circ> sg_connections) (filter sg_complete grps)"
    using Cons.IH[OF s1(2) Cons.prems(2)] Cons.prems(3) by auto
  with s1 show ?case by simp
qed simp

lemma group_members:
  assumes "grp \<in> set (getSourceDataGroups cmp g n r p)" "c \<in> set (sg_connections grp)"
  shows "c \<in> conn_set g \<and> gc_to c = n"
proof -
  let ?gs = "getSourceDataGroups cmp g n r p"
  have "c \<in># grouped ?gs" using assms by (auto simp: grouped_def)
  then have "c \<in># eligible g n r p" using getSourceDataGroups_ok[of cmp g n r p] by simp
  then show ?thesis by (auto simp: eligible_def conn_set_def)
qed

lemma startNodeStep_ok:
  assumes "waiting_ok g r N s" "n \<in> N" "isMember g n"
  shows "\<exists>s'. startNodeStep cmp g r p n s = Inr s' \<and> waiting_ok g r N s' \<and>
    nodeExecutionStack s' = nodeExecutionStack s @ start_entries cmp g r p n"
proof -
  obtain ps where ps: "getDirectParentConnections g n = Inr ps"
    using assms(3) by (simp add: directParents_eq)
  have main: "length (filter (\<lambda>c. gc_type c = main_type) ps) = 0 \<longleftrightarrow>
      \<not> (\<exists>c \<in> conn_set g. gc_to c = n \<and> gc_type c = main_type)"
    using directParents_mem[OF ps] by (auto simp: filter_empty_conv)
  show ?thesis
  proof (cases "\<exists>c \<in> conn_set g. gc_to c = n \<and> gc_type c = main_type")
    case False
    with main have "length (filter (\<lambda>c. gc_type c = main_type) ps) = 0" by blast
    moreover have "start_entries cmp g r p n =
        [\<lparr>ed_node = n, ed_data = [(main_type, [Value [empty_item]])], ed_source = None\<rparr>]"
      unfolding start_entries_def using False by (rule if_not_P)
    ultimately show ?thesis using ps assms(1)
      by (simp add: startNodeStep_def Let_def waiting_ok_def)
  next
    case True
    with main have ne: "\<not> (length (filter (\<lambda>c. gc_type c = main_type) ps) = 0)" by blast
    have eq: "startNodeStep cmp g r p n s =
        fold_res (groupStep r p n) (getSourceDataGroups cmp g n r p) s"
      unfolding startNodeStep_def ps Let_def sum.case using ne by (rule if_not_P)
    have "\<forall>grp \<in> set (getSourceDataGroups cmp g n r p). good_group (hasSourceData r p) grp \<and>
        (\<forall>c \<in> set (sg_connections grp). c \<in> conn_set g \<and> gc_to c = n)"
      using getSourceDataGroups_ok[of cmp g n r p] group_members by blast
    from groups_fold[OF assms(1,2) this] True show ?thesis unfolding eq start_entries_def by simp
  qed
qed

lemma startNodes_fold:
  assumes "waiting_ok g r N s" "set ns \<subseteq> N" "\<forall>n \<in> set ns. isMember g n"
  shows "\<exists>s'. fold_res (startNodeStep cmp g r p) ns s = Inr s' \<and> waiting_ok g r N s' \<and>
    nodeExecutionStack s' = nodeExecutionStack s @ concat (map (start_entries cmp g r p) ns)"
  using assms
proof (induction ns arbitrary: s)
  case (Cons n ns)
  obtain s1 where s1: "startNodeStep cmp g r p n s = Inr s1" "waiting_ok g r N s1"
    "nodeExecutionStack s1 = nodeExecutionStack s @ start_entries cmp g r p n"
    using startNodeStep_ok[OF Cons.prems(1), of n cmp p] Cons.prems(2,3) by auto
  obtain s' where "fold_res (startNodeStep cmp g r p) ns s1 = Inr s'" "waiting_ok g r N s'"
    "nodeExecutionStack s' = nodeExecutionStack s1 @ concat (map (start_entries cmp g r p) ns)"
    using Cons.IH[OF s1(2)] Cons.prems(2,3) by auto
  with s1 show ?case by simp
qed simp

lemma recreate_ok:
  assumes "\<forall>n \<in> node_set g. \<not> is_disabled n" and "\<forall>n \<in> set ns. isMember g n"
  shows "\<exists>s. recreateNodeExecutionStack cmp g ns r p = Inr s \<and>
    nodeExecutionStack s = concat (map (start_entries cmp g r p) ns) \<and> waiting_ok g r (set ns) s"
proof -
  let ?s = "\<lparr>nodeExecutionStack = [], waitingExecution = [], waitingExecutionSource = []\<rparr>"
  have "\<not> list_ex is_disabled (jvalues (dg_nodes g))"
    using assms(1) unfolding list_ex_iff node_set_def by blast
  then have "recreateNodeExecutionStack cmp g ns r p = fold_res (startNodeStep cmp g r p) ns ?s"
    by (simp only: recreateNodeExecutionStack_def if_False)
  moreover have "waiting_ok g r (set ns) ?s" by (simp add: waiting_ok_def waitingAt_def)
  ultimately show ?thesis using startNodes_fold[of g r "set ns" ?s ns cmp p] assms(2) by auto
qed

text \<open>C16: On a graph without disabled nodes, \<open>recreateNodeExecutionStack\<close> fails no assertion for start
  nodes of the graph. The stack holds, in the order of the start nodes, one entry with one empty item
  for a node without main parents, and otherwise one entry per complete group of its connections: the
  pinned data or the first non-empty run of every connection in turn, and the source of every
  connection. Everything in the waiting list is run data of a connection into one of the start nodes,
  filed under that connection's type and input.\<close>

theorem recreateNodeExecutionStack_entries:
  assumes "\<forall>n \<in> node_set g. \<not> is_disabled n" and "\<forall>n \<in> set ns. isMember g n"
  shows "\<exists>s. recreateNodeExecutionStack localeCompare g ns r p = Inr s \<and>
    nodeExecutionStack s = concat (map (start_entries localeCompare g r p) ns) \<and>
    (\<forall>name k t i d. waitingAt (waitingExecution s) name k t i = Value d \<longrightarrow>
       (\<exists>n \<in> set ns. node_name n = name \<and>
         (\<exists>c \<in> conn_set g. gc_to c = n \<and> gc_type c = t \<and> gc_inputIndex c = i \<and>
            map_option fst (getIncomingDataFromAnyRun r (node_name (gc_from c)) t (gc_outputIndex c)) = Some d)))"
  using recreate_ok[OF assms] unfolding waiting_ok_def .

lemma recreateNodeExecutionStack_entries_witness:
  "\<exists>s. recreateNodeExecutionStack (\<lambda>_ _. 0) (sample_graph [nA, nB] [(nA, nB)]) [nB]
      [(''a'', [sample_run []])] [] = Inr s \<and> map ed_node (nodeExecutionStack s) = [nB]"
proof -
  let ?g = "sample_graph [nA, nB] [(nA, nB)]"
  have hyps: "\<forall>n \<in> node_set ?g. \<not> is_disabled n" "\<forall>n \<in> set [nB]. isMember ?g n" by code_simp+
  have "map ed_node (concat (map (start_entries (\<lambda>_ _. 0) ?g [(''a'', [sample_run []])] []) [nB])) = [nB]"
    by code_simp
  with recreateNodeExecutionStack_entries[OF hyps, of "\<lambda>_ _. 0" "[(''a'', [sample_run []])]" "[]"]
  show ?thesis by (elim exE conjE) (intro exI conjI, assumption, simp)
qed

section \<open>Where data goes to the wrong input\<close>

text \<open>A complete group whose first connection comes from an output without items puts the data of
  the second connection on the first input: the node c takes a's empty second output on input 0 and
  b's data on input 1, and is put on the stack with b's data alone, as input 0, while the sources
  still name a first.\<close>

lemma recreate_shifts_inputs:
  "let c0 = (sample_conn nA nC)\<lparr>gc_outputIndex := 1\<rparr>; c1 = (sample_conn nB nC)\<lparr>gc_inputIndex := 1\<rparr>;
       g = foldl setConnection (addNodes new_graph [nA, nB, nC]) [c0, c1];
       r = [(''a'', [sample_run []]), (''b'', [sample_run []])]
   in recreateNodeExecutionStack (\<lambda>_ _. 0) g [nC] r [] =
        Inr \<lparr>nodeExecutionStack =
               [\<lparr>ed_node = nC, ed_data = [(''main'', [Value [empty_item]])],
                 ed_source = Some [(''main'', [source_of c0 0, source_of c1 0])]\<rparr>],
             waitingExecution = [], waitingExecutionSource = []\<rparr>"
  by code_simp

end
