(* ===== verification/Rewire_Graph.thy ===== *)
theory Rewire_Graph
  imports Graph_Search
begin

text \<open>
  \<^verbatim>\<open>rewire-graph.ts\<close>: a tool that is executed alone gets a virtual agent in the place of the agent it belongs to.
  The code writes the field \<^verbatim>\<open>rewireOutputLogTo\<close> of the tool, an object the graph and its connections share: every
  occurrence changes. Nothing between the clone of the graph and that write reads the field, so the model writes it
  first. The JSON text of the agent's request and the address of the new node are parameters.
\<close>

section \<open>The function\<close>

definition TOOL_EXECUTOR_NODE_NAME :: string where
  "TOOL_EXECUTOR_NODE_NAME = ''PartialExecutionToolExecutor''"

definition ai_tool :: connection_type where
  "ai_tool = ''ai_tool''"

definition newToolExecutor :: "nat \<Rightarrow> string \<Rightarrow> string \<Rightarrow> INode \<Rightarrow> INode \<Rightarrow> INode" where
  "newToolExecutor ref query toolName tool rootNode =
     \<lparr>node_ref = ref, node_id = node_id rootNode, node_name = TOOL_EXECUTOR_NODE_NAME, node_typeVersion = ''0'',
      node_type = ''@n8n/n8n-nodes-langchain.toolExecutor'', node_disabled = Some False,
      node_parameters = [(''query'', JStr query), (''toolName'', JStr toolName), (''node'', JStr (node_name tool))],
      node_rewireOutputLogTo = None,
     node_position = (0, 0), node_settings = no_settings\<rparr>"

definition written :: "INode \<Rightarrow> INode \<Rightarrow> INode \<Rightarrow> INode" where
  "written old new n = (if n = old then new else n)"

definition writtenConnection :: "INode \<Rightarrow> INode \<Rightarrow> GraphConnection \<Rightarrow> GraphConnection" where
  "writtenConnection old new c = c\<lparr>gc_from := written old new (gc_from c), gc_to := written old new (gc_to c)\<rparr>"

definition writeNode :: "DirectedGraph \<Rightarrow> INode \<Rightarrow> INode \<Rightarrow> DirectedGraph" where
  "writeNode g old new = g\<lparr>dg_nodes := map (map_prod id (written old new)) (dg_nodes g),
     dg_connections := map (map_prod id (writtenConnection old new)) (dg_connections g)\<rparr>"

definition rewireGraph :: "nat \<Rightarrow> string \<Rightarrow> string \<Rightarrow> INode \<Rightarrow> DirectedGraph \<Rightarrow> DirectedGraph result" where
  "rewireGraph ref query toolName tool graph =
     (case clone graph of Inl e \<Rightarrow> Inl e | Inr modifiedGraph \<Rightarrow>
      case getChildren modifiedGraph tool of Inl e \<Rightarrow> Inl e | Inr children \<Rightarrow>
        if children = [] then Inr graph
        else
          let tool' = tool\<lparr>node_rewireOutputLogTo := Some ai_tool\<rparr>;
              rootNode = written tool tool' (last children);
              g0 = writeNode modifiedGraph tool tool'
          in case getDirectParentConnections g0 rootNode of Inl e \<Rightarrow> Inl e | Inr parents \<Rightarrow>
            let toolExecutor = newToolExecutor ref query toolName tool rootNode
            in case addConnection (addNode g0 toolExecutor) tool' toolExecutor (Some ai_tool) None None of
                Inl e \<Rightarrow> Inl e
              | Inr g1 \<Rightarrow>
                  (case fold_res (\<lambda>cn g. addConnection g (gc_from cn) toolExecutor (Some (gc_type cn)) None None)
                      (filter (\<lambda>cn. gc_type cn = main_type) parents) g1 of
                     Inl e \<Rightarrow> Inl e
                   | Inr g2 \<Rightarrow> Inr (removeNode g2 rootNode)))"

section \<open>Writing a node\<close>

lemma written_name [simp]: "node_name new = node_name old \<Longrightarrow> node_name (written old new n) = node_name n"
  by (simp add: written_def)

lemma writtenConnection_key [simp]: "node_name new = node_name old \<Longrightarrow> makeKey (writtenConnection old new c) = makeKey c"
  by (simp add: writtenConnection_def makeKey_def)

lemma jget_map_prod: "jget (map (map_prod id f) m) k = map_option f (jget m k)"
  by (induction m) auto

lemma writeNode_sets:
  "node_set (writeNode g old new) = written old new ` node_set g"
  "conn_set (writeNode g old new) = writtenConnection old new ` conn_set g"
  by (auto simp: node_set_def conn_set_def writeNode_def image_image)

lemma isMember_writeNode:
  assumes "node_name new = node_name old"
  shows "isMember (writeNode g old new) n \<longleftrightarrow> (\<exists>m. isMember g m \<and> n = written old new m)"
proof
  assume "isMember (writeNode g old new) n"
  then obtain m where m: "jget (dg_nodes g) (node_name n) = Some m" "n = written old new m"
    by (auto simp: isMember_def writeNode_def jget_map_prod simp del: map_of_eq_Some_iff)
  with assms show "\<exists>m. isMember g m \<and> n = written old new m" by (auto simp: isMember_def simp del: map_of_eq_Some_iff)
next
  assume "\<exists>m. isMember g m \<and> n = written old new m"
  then show "isMember (writeNode g old new) n"
    using assms by (auto simp: isMember_def writeNode_def jget_map_prod simp del: map_of_eq_Some_iff)
qed

lemma wf_writeNode:
  assumes "wf_graph g" and "node_name new = node_name old"
  shows "wf_graph (writeNode g old new)"
  unfolding wf_graph_def
proof (intro conjI ballI)
  show "jok (dg_nodes (writeNode g old new))" "jok (dg_connections (writeNode g old new))"
    using assms(1) by (simp_all add: wf_graph_def writeNode_def comp_def)
  show "case x of (k, n) \<Rightarrow> k = node_name n" if "x \<in> set (dg_nodes (writeNode g old new))" for x
    using that assms by (auto simp: writeNode_def wf_graph_def)
  show "case x of (k, c) \<Rightarrow> k = makeKey c" if "x \<in> set (dg_connections (writeNode g old new))" for x
    using that assms by (auto simp: writeNode_def wf_graph_def)
  fix c assume "c \<in> conn_set (writeNode g old new)"
  then obtain d where "d \<in> conn_set g" "c = writtenConnection old new d" by (auto simp: writeNode_sets)
  with wf_ends[OF assms(1)] show "isMember (writeNode g old new) (gc_from c)" "isMember (writeNode g old new) (gc_to c)"
    by (auto simp: isMember_writeNode[OF assms(2)] writtenConnection_def)
qed

lemma plain_writeNode:
  "plain_graph g \<Longrightarrow> node_name new = node_name old \<Longrightarrow> c \<in> conn_set (writeNode g old new) \<Longrightarrow> plain_key c"
  by (auto simp: plain_graph_def writeNode_sets plain_key_def writtenConnection_def)

lemma written_inj:
  assumes "isMember g old" and "node_name new = node_name old" and "isMember g m" and "isMember g n"
    and "written old new m = written old new n"
  shows "m = n"
  using assms by (metis member_unique written_name)

section \<open>What rewiring does\<close>

definition rewired :: "INode \<Rightarrow> INode \<Rightarrow> connection_type \<Rightarrow> GraphConnection" where
  "rewired from to type = \<lparr>gc_from = from, gc_to = to, gc_type = type, gc_outputIndex = 0, gc_inputIndex = 0\<rparr>"

lemma rewired_sel: "gc_from (rewired a b t) = a" "gc_to (rewired a b t) = b" "gc_type (rewired a b t) = t"
  by (simp_all add: rewired_def)

lemma addConnection_rewired:
  "addConnection g from to (Some type) None None =
     (if isMember g from \<and> isMember g to then Inr (setConnection g (rewired from to type)) else Inl AssertionError)"
  by (simp add: addConnection_def setConnection_def rewired_def Let_def)

lemma fold_addConnection_rewired:
  assumes "\<And>c. c \<in> set cs \<Longrightarrow> isMember g (gc_from c)" and "isMember g to"
  shows "fold_res (\<lambda>cn g. addConnection g (gc_from cn) to (Some (gc_type cn)) None None) cs g =
    Inr (foldl setConnection g (map (\<lambda>c. rewired (gc_from c) to (gc_type c)) cs))"
  using assms by (induction cs arbitrary: g) (auto simp: addConnection_rewired)

lemma children_member:
  assumes "wf_graph g" and "isMember g n" and "getChildren g n = Inr cs" and "m \<in> set cs"
  shows "isMember g m"
proof -
  have "(n, m) \<in> (edges g)\<^sup>+" using getChildren_ok[OF assms(1,2)] assms(3,4) by auto
  then show ?thesis using edges_members[OF assms(1)] by (metis tranclE)
qed

lemma split_new:
  assumes "gc_from e \<noteq> n \<and> gc_to e \<noteq> n" and "\<And>c. (gc_from (r c) \<noteq> n \<and> gc_to (r c) \<noteq> n) = (gc_from c \<noteq> n)"
  shows "{c \<in> A \<union> insert e (r ` P). gc_from c \<noteq> n \<and> gc_to c \<noteq> n} =
    {c \<in> A. gc_from c \<noteq> n \<and> gc_to c \<noteq> n} \<union> {e} \<union> {r c |c. c \<in> P \<and> gc_from c \<noteq> n}"
  using assms by blast

text \<open>The graph before the original agent is removed.\<close>

lemma rewired_graph:
  assumes "wf_graph g" and "\<And>c. c \<in> conn_set g \<Longrightarrow> plain_key c" and "isMember g tool" and "dashless (node_name tool)"
    and "fits g x" and "x \<noteq> root" and "set ps \<subseteq> {c \<in> conn_set g. gc_to c = root}" and "isMember g root"
  shows "let g2 = foldl setConnection (addNode g x) (rewired tool x ai_tool # map (\<lambda>c. rewired (gc_from c) x (gc_type c)) ps);
      g' = removeNode g2 root
    in wf_graph g' \<and> node_set g' = insert x (node_set g - {root}) \<and>
      (tool \<noteq> root \<longrightarrow> conn_set g' = {c \<in> conn_set g. gc_from c \<noteq> root \<and> gc_to c \<noteq> root} \<union> {rewired tool x ai_tool} \<union>
        {rewired (gc_from c) x (gc_type c) |c. c \<in> set ps \<and> gc_from c \<noteq> root})"
proof -
  let ?es = "rewired tool x ai_tool # map (\<lambda>c. rewired (gc_from c) x (gc_type c)) ps"
  let ?g1 = "addNode g x" and ?g2 = "foldl setConnection (addNode g x) ?es"
  have wf1: "wf_graph ?g1" by (rule wf_addNode[OF assms(1,5)])
  have mem1: "isMember ?g1 m \<longleftrightarrow> m = x \<or> isMember g m" for m by (rule isMember_addNode_fits[OF assms(5)])
  have c1: "conn_set ?g1 = conn_set g" by (simp add: conn_set_def)
  have ends: "isMember ?g1 (gc_from c) \<and> isMember ?g1 (gc_to c)" if "c \<in> set ?es" for c
    using that assms(3,7) wf_ends[OF assms(1)] by (auto simp: mem1 rewired_def)
  have plain: "plain_key c" if "c \<in> conn_set ?g1 \<union> set ?es" for c
    using that assms(2,4,7) by (auto simp: c1 plain_key_def rewired_def ai_tool_def dashless_def)
  have "wf_graph ?g2 \<and> dg_nodes ?g2 = dg_nodes ?g1 \<and> conn_set ?g2 = conn_set ?g1 \<union> set ?es"
    by (rule wf_foldl_setConnection[OF wf1]) (use ends plain in blast)+
  then have g2: "wf_graph ?g2" "dg_nodes ?g2 = dg_nodes ?g1" "conn_set ?g2 = conn_set g \<union> set ?es"
    unfolding c1 by blast+
  have n2: "node_set ?g2 = insert x (node_set g)"
    using node_set_addNode[OF assms(1,5)] g2(2) by (simp add: node_set_def)
  have r2: "isMember ?g2 root" using assms(8) g2(2) mem1[of root] by (simp add: isMember_def)
  note rem = removeNode_ok[OF g2(1) r2]
  have "node_set (removeNode ?g2 root) = node_set ?g2 - {root}" using rem by blast
  then have "node_set (removeNode ?g2 root) = insert x (node_set g - {root})" unfolding n2 using assms(6) by blast
  moreover have "conn_set (removeNode ?g2 root) =
      {c \<in> conn_set g. gc_from c \<noteq> root \<and> gc_to c \<noteq> root} \<union> {rewired tool x ai_tool} \<union>
      {rewired (gc_from c) x (gc_type c) |c. c \<in> set ps \<and> gc_from c \<noteq> root}" if "tool \<noteq> root"
  proof -
    let ?r = "\<lambda>c. rewired (gc_from c) x (gc_type c)"
    have sel: "gc_from (rewired tool x ai_tool) \<noteq> root \<and> gc_to (rewired tool x ai_tool) \<noteq> root"
      "\<And>c. (gc_from (?r c) \<noteq> root \<and> gc_to (?r c) \<noteq> root) = (gc_from c \<noteq> root)"
      using that assms(6) by (simp_all add: rewired_sel)
    have "conn_set (removeNode ?g2 root) = {c \<in> conn_set g \<union> set ?es. gc_from c \<noteq> root \<and> gc_to c \<noteq> root}"
      using rem unfolding g2(3) by blast
    also have "set ?es = insert (rewired tool x ai_tool) (?r ` set ps)" by simp
    finally show ?thesis unfolding split_new[OF sel] by blast
  qed
  ultimately show ?thesis using conjunct1[OF rem] unfolding Let_def by (intro conjI impI)
qed

text \<open>The sets of a written graph around a node that is not the written one.\<close>

lemma written_root_sets:
  assumes "wf_graph g" and "isMember g tool" and "node_name tool' = node_name tool" and "isMember g root" and "root \<noteq> tool"
  shows "isMember (writeNode g tool tool') root" and "tool' \<noteq> root"
    and "node_set (writeNode g tool tool') - {root} = written tool tool' ` (node_set g - {root})"
    and "{c \<in> conn_set (writeNode g tool tool'). gc_from c \<noteq> root \<and> gc_to c \<noteq> root} =
      writtenConnection tool tool' ` {c \<in> conn_set g. gc_from c \<noteq> root \<and> gc_to c \<noteq> root}"
    and "{rewired (gc_from c) x (gc_type c) |c.
        c \<in> {c \<in> conn_set (writeNode g tool tool'). gc_to c = root \<and> gc_type c = main_type} \<and> gc_from c \<noteq> root} =
      {rewired (written tool tool' (gc_from c)) x main_type |c.
         c \<in> conn_set g \<and> gc_to c = root \<and> gc_type c = main_type \<and> gc_from c \<noteq> root}"
proof -
  let ?w = "written tool tool'"
  have wroot: "?w root = root" and wtool: "?w tool = tool'" using assms(5) by (simp_all add: written_def)
  have is_root: "?w n = root \<longleftrightarrow> n = root" if "isMember g n" for n
    using written_inj[OF assms(2,3) that assms(4)] wroot by auto
  have ends: "?w (gc_from c) = root \<longleftrightarrow> gc_from c = root" "?w (gc_to c) = root \<longleftrightarrow> gc_to c = root" if "c \<in> conn_set g" for c
    using wf_ends[OF assms(1) that] is_root by auto
  have sel: "gc_from (writtenConnection tool tool' c) = ?w (gc_from c)" "gc_to (writtenConnection tool tool' c) = ?w (gc_to c)"
    "gc_type (writtenConnection tool tool' c) = gc_type c" for c
    by (simp_all add: writtenConnection_def)
  show "isMember (writeNode g tool tool') root" unfolding isMember_writeNode[OF assms(3)] using assms(4) wroot by metis
  show "tool' \<noteq> root" using is_root[OF assms(2)] wtool assms(5) by metis
  show "node_set (writeNode g tool tool') - {root} = ?w ` (node_set g - {root})"
  proof (intro equalityI subsetI)
    fix n assume "n \<in> node_set (writeNode g tool tool') - {root}"
    then obtain m where m: "m \<in> node_set g" "n = ?w m" "n \<noteq> root" unfolding writeNode_sets by blast
    then have "m \<noteq> root" using wroot by auto
    with m show "n \<in> ?w ` (node_set g - {root})" by blast
  next
    fix n assume "n \<in> ?w ` (node_set g - {root})"
    then obtain m where m: "m \<in> node_set g" "n = ?w m" "m \<noteq> root" by blast
    then have "n \<noteq> root" using is_root wf_member[OF assms(1)] by auto
    with m show "n \<in> node_set (writeNode g tool tool') - {root}" unfolding writeNode_sets by blast
  qed
  show "{c \<in> conn_set (writeNode g tool tool'). gc_from c \<noteq> root \<and> gc_to c \<noteq> root} =
      writtenConnection tool tool' ` {c \<in> conn_set g. gc_from c \<noteq> root \<and> gc_to c \<noteq> root}"
  proof -
    have "{c \<in> f ` S. P c} = f ` {c \<in> S. Q c}" if "\<And>c. c \<in> S \<Longrightarrow> P (f c) \<longleftrightarrow> Q c" for f :: "GraphConnection \<Rightarrow> GraphConnection" and S P Q
      using that by blast
    then show ?thesis unfolding writeNode_sets using ends by (simp add: sel)
  qed
  show "{rewired (gc_from c) x (gc_type c) |c.
        c \<in> {c \<in> conn_set (writeNode g tool tool'). gc_to c = root \<and> gc_type c = main_type} \<and> gc_from c \<noteq> root} =
      {rewired (?w (gc_from c)) x main_type |c.
         c \<in> conn_set g \<and> gc_to c = root \<and> gc_type c = main_type \<and> gc_from c \<noteq> root}"
  proof -
    have "{h c |c. c \<in> {c \<in> f ` S. P c} \<and> R c} = {k c |c. c \<in> S \<and> Q c}"
      if "\<And>c. c \<in> S \<Longrightarrow> P (f c) \<and> R (f c) \<longleftrightarrow> Q c" "\<And>c. c \<in> S \<Longrightarrow> Q c \<Longrightarrow> h (f c) = k c"
      for f :: "GraphConnection \<Rightarrow> GraphConnection" and h k :: "GraphConnection \<Rightarrow> GraphConnection" and S P Q R
    proof (intro equalityI subsetI)
      fix y assume "y \<in> {k c |c. c \<in> S \<and> Q c}"
      then obtain c where c: "c \<in> S" "Q c" "y = k c" by blast
      then have "y = h (f c)" "f c \<in> f ` S" "P (f c)" "R (f c)" using that by auto
      then show "y \<in> {h c |c. c \<in> {c \<in> f ` S. P c} \<and> R c}" by blast
    next
      fix y assume "y \<in> {h c |c. c \<in> {c \<in> f ` S. P c} \<and> R c}"
      then obtain c where "c \<in> S" "P (f c)" "R (f c)" "y = h (f c)" by blast
      then show "y \<in> {k c |c. c \<in> S \<and> Q c}" using that by fastforce
    qed
    then show ?thesis unfolding writeNode_sets using ends by (simp add: sel)
  qed
qed

text \<open>C18: Rewiring never fails: the agent at the end of the tool's children is replaced by the virtual one, which gets
  the tool and every node that led to the agent by a main connection, all at output and input 0; the tool's output
  goes to it, and every connection that did not touch the agent is kept, with the written tool.\<close>

theorem rewireGraph_exact:
  assumes "wf_graph g" and "plain_graph g" and "isMember g tool" and "dashless (node_name tool)"
    and "\<not> hasNode g TOOL_EXECUTOR_NODE_NAME" and "getChildren g tool = Inr children" and "children \<noteq> []"
    and "last children \<noteq> tool" and "tool' = tool\<lparr>node_rewireOutputLogTo := Some ai_tool\<rparr>"
    and "executor = newToolExecutor ref query toolName tool (last children)"
  shows "\<exists>g'. rewireGraph ref query toolName tool g = Inr g' \<and> wf_graph g' \<and>
    node_set g' = insert executor (written tool tool' ` (node_set g - {last children})) \<and>
    conn_set g' =
      writtenConnection tool tool' ` {c \<in> conn_set g. gc_from c \<noteq> last children \<and> gc_to c \<noteq> last children} \<union>
      {rewired tool' executor ai_tool} \<union>
      {rewired (written tool tool' (gc_from c)) executor main_type |c.
         c \<in> conn_set g \<and> gc_to c = last children \<and> gc_type c = main_type \<and> gc_from c \<noteq> last children}"
proof -
  let ?root = "last children" and ?w = "written tool tool'" and ?g0 = "writeNode g tool tool'"
  have name: "node_name tool' = node_name tool" by (simp add: assms(9))
  have root: "isMember g ?root" using children_member[OF assms(1,3,6)] assms(7) by simp
  have wroot: "?w ?root = ?root" and wtool: "?w tool = tool'" using assms(8) by (simp_all add: written_def)
  note sets = written_root_sets[OF assms(1,3) name root assms(8)]
  have wf0: "wf_graph ?g0" by (rule wf_writeNode[OF assms(1) name])
  have m0: "isMember ?g0 tool'" unfolding isMember_writeNode[OF name] using assms(3) wtool by metis
  have xname: "node_name executor = TOOL_EXECUTOR_NODE_NAME" by (simp add: assms(10) newToolExecutor_def)
  have x0: "jget (dg_nodes ?g0) (node_name executor) = None"
    using assms(5) by (simp add: xname hasNode_def writeNode_def jget_map_prod del: map_of_eq_None_iff)
  have fits: "fits ?g0 executor" using x0 by (simp add: fits_def)
  have xroot: "executor \<noteq> ?root" using root assms(5) xname by (auto simp: isMember_def hasNode_def simp del: map_of_eq_None_iff)
  let ?parents = "filter (\<lambda>c. gc_to c = ?root) (jvalues (dg_connections ?g0))"
  let ?ps = "filter (\<lambda>cn. gc_type cn = main_type) ?parents"
  have ps: "set ?ps = {c \<in> conn_set ?g0. gc_to c = ?root \<and> gc_type c = main_type}" by (auto simp: conn_set_def)
  have parents: "getDirectParentConnections ?g0 ?root = Inr ?parents" using sets(1) by (simp add: getDirectParentConnections_def)
  let ?g1 = "addNode ?g0 executor" and ?e = "rewired tool' executor ai_tool"
  let ?g' = "removeNode (foldl setConnection ?g1 (?e # map (\<lambda>c. rewired (gc_from c) executor (gc_type c)) ?ps)) ?root"
  have mem1: "isMember ?g1 m \<longleftrightarrow> m = executor \<or> isMember ?g0 m" for m by (rule isMember_addNode_fits[OF fits])
  have "addConnection ?g1 tool' executor (Some ai_tool) None None = Inr (setConnection ?g1 ?e)"
    using m0 by (simp add: addConnection_rewired mem1)
  moreover have "fold_res (\<lambda>cn g. addConnection g (gc_from cn) executor (Some (gc_type cn)) None None) ?ps (setConnection ?g1 ?e) =
      Inr (foldl setConnection (setConnection ?g1 ?e) (map (\<lambda>c. rewired (gc_from c) executor (gc_type c)) ?ps))"
    by (rule fold_addConnection_rewired) (use wf_ends[OF wf0] ps in \<open>auto simp: mem1\<close>)
  ultimately have res: "rewireGraph ref query toolName tool g =
Inr ?g'"
    using assms(6,7,9,10) wroot parents by (simp add: rewireGraph_def clone_ok[OF assms(1)] Let_def)
  have "dashless (node_name tool')" using assms(4) name by simp
  from rewired_graph[OF wf0 plain_writeNode[OF assms(2) name] m0 this fits xroot _ sets(1), of ?ps, unfolded ps]
  have "wf_graph ?g' \<and> node_set ?g' = insert executor (node_set ?g0 - {?root}) \<and>
      conn_set ?g' = {c \<in> conn_set ?g0. gc_from c \<noteq> ?root \<and> gc_to c \<noteq> ?root} \<union> {?e} \<union>
        {rewired (gc_from c) executor (gc_type c) |c.
           c \<in> {c \<in> conn_set ?g0. gc_to c = ?root \<and> gc_type c = main_type} \<and> gc_from c \<noteq> ?root}"
    using sets(2) unfolding Let_def by blast
  with res show ?thesis unfolding sets(3-5) by blast
qed

text \<open>A node with two outputs, both connected to an agent with a tool.\<close>

definition sampleToolGraph :: DirectedGraph where
  "sampleToolGraph = foldl setConnection (addNodes new_graph [nA, nB, nC])
     [sample_conn nA nB, (sample_conn nA nB)\<lparr>gc_outputIndex := 1\<rparr>, (sample_conn nC nB)\<lparr>gc_type := ai_tool\<rparr>]"

lemma sampleToolGraph_facts:
  "wf_graph sampleToolGraph" "plain_graph sampleToolGraph" "isMember sampleToolGraph nC" "dashless (node_name nC)"
  "\<not> hasNode sampleToolGraph TOOL_EXECUTOR_NODE_NAME" "getChildren sampleToolGraph nC = Inr [nB]" "last [nB] \<noteq> nC"
  by code_simp+

lemma rewireGraph_exact_witness:
  "\<exists>g'. rewireGraph 9 ''{}'' ''t'' nC sampleToolGraph = Inr g' \<and> wf_graph g' \<and>
    node_set g' = insert (newToolExecutor 9 ''{}'' ''t'' nC nB)
      (written nC (nC\<lparr>node_rewireOutputLogTo := Some ai_tool\<rparr>) ` (node_set sampleToolGraph - {nB}))"
  using rewireGraph_exact[OF sampleToolGraph_facts(1-6) list.distinct(2) sampleToolGraph_facts(7) refl refl, of 9 "''{}''" "''t''"]
  unfolding last_ConsL[OF refl] by blast

text \<open>Both connections become one, from the first output: what reached the agent from the second output is lost.\<close>

lemma rewire_merges_outputs:
  "map_sum id (\<lambda>g. map (\<lambda>c. (node_name (gc_from c), gc_outputIndex c, node_name (gc_to c))) (jvalues (dg_connections g)))
     (rewireGraph 9 ''{}'' ''t'' nC sampleToolGraph) =
   Inr [(''c'', 0, TOOL_EXECUTOR_NODE_NAME), (''a'', 0, TOOL_EXECUTOR_NODE_NAME)]"
  by code_simp

end
