(* ===== verification/Workflow_Connections.thy ===== *)
theory Workflow_Connections
  imports Workflow_Model
begin

text \<open>
  Connections of a workflow by name: \<^verbatim>\<open>map-connections-by-destination.ts\<close> transposes them,
  \<^verbatim>\<open>get-connected-nodes.ts\<close> with its wrappers \<^verbatim>\<open>getChildNodes\<close> and \<^verbatim>\<open>getParentNodes\<close> collects what
  is reachable, \<^verbatim>\<open>get-executable-nodes.ts\<close> what one start node can run.
\<close>

section \<open>By destination\<close>

text \<open>\<open>connections[node]?.[type]?.[index] ?? []\<close>.\<close>

definition connectionsAt :: "IConnections \<Rightarrow> string \<Rightarrow> connection_type \<Rightarrow> nat \<Rightarrow> IConnection list" where
  "connectionsAt connections node type index =
     (case jget connections node of
        None \<Rightarrow> []
      | Some types \<Rightarrow>
          (case jget types type of
             None \<Rightarrow> []
           | Some byIndex \<Rightarrow> slot_or (slot_get byIndex index) []))"

text \<open>The four nested loops of the source: source node, type, output index, connection.\<close>

type_synonym connection_entry = "string \<times> connection_type \<times> nat \<times> IConnection"

definition entriesOfOutputs ::
    "string \<Rightarrow> connection_type \<Rightarrow> NodeInputConnections \<Rightarrow> connection_entry list" where
  "entriesOfOutputs source type outputs =
     concat (map (\<lambda>(index, conns). map (\<lambda>c. (source, type, index, c)) (slot_or conns []))
       (List.enumerate 0 outputs))"

definition connectionEntries :: "IConnections \<Rightarrow> connection_entry list" where
  "connectionEntries connections =
     concat (map (\<lambda>(source, types).
       concat (map (\<lambda>(type, outputs). entriesOfOutputs source type outputs) types)) connections)"

text \<open>The body of the loops: the array of the input is padded with empty arrays up to the index.\<close>

definition addByDestination :: "IConnections \<Rightarrow> connection_entry \<Rightarrow> IConnections" where
  "addByDestination returnConnection e =
     (case e of (sourceNode, type, inputIndex, connectionInfo) \<Rightarrow>
        let types = (case jget returnConnection (con_node connectionInfo) of None \<Rightarrow> [] | Some m \<Rightarrow> m);
            byIndex = (case jget types (con_type connectionInfo) of None \<Rightarrow> [] | Some l \<Rightarrow> l);
            padded = byIndex @ replicate (Suc (con_index connectionInfo) - length byIndex) (Value []);
            pushed = (case slot_get padded (con_index connectionInfo) of
                Value grp \<Rightarrow>
                  padded[con_index connectionInfo :=
                    Value (grp @ [\<lparr>con_node = sourceNode, con_type = type, con_index = inputIndex\<rparr>])]
              | _ \<Rightarrow> padded)
        in jset returnConnection (con_node connectionInfo)
             (jset types (con_type connectionInfo) pushed))"

definition mapConnectionsByDestination :: "IConnections \<Rightarrow> IConnections" where
  "mapConnectionsByDestination connections = foldl addByDestination [] (connectionEntries connections)"

text \<open>Every array of the result holds arrays only.\<close>

definition full_rows :: "IConnections \<Rightarrow> bool" where
  "full_rows M \<longleftrightarrow> (\<forall>n types t l s. jget M n = Some types \<longrightarrow> jget types t = Some l \<longrightarrow> s \<in> set l \<longrightarrow>
     (\<exists>v. s = Value v))"

lemma full_rowsD: "full_rows M \<Longrightarrow> jget M n = Some types \<Longrightarrow> jget types t = Some l \<Longrightarrow> s \<in> set l \<Longrightarrow> \<exists>v. s = Value v"
  unfolding full_rows_def by blast

definition rowsOf :: "IConnections \<Rightarrow> string \<Rightarrow> connection_type \<Rightarrow> NodeInputConnections" where
  "rowsOf M n t = (case jget M n of None \<Rightarrow> [] | Some types \<Rightarrow> (case jget types t of None \<Rightarrow> [] | Some l \<Rightarrow> l))"

lemma connectionsAt_rows: "connectionsAt M n t i = slot_or (slot_get (rowsOf M n t) i) []"
  by (simp add: connectionsAt_def rowsOf_def slot_get_def split: option.splits)

lemma full_rows_alt: "full_rows M \<longleftrightarrow> (\<forall>n t. \<forall>s \<in> set (rowsOf M n t). \<exists>v. s = Value v)"
  unfolding full_rows_def rowsOf_def by (auto split: option.splits) (metis option.simps(5))+

definition pushRow :: "NodeInputConnections \<Rightarrow> nat \<Rightarrow> IConnection \<Rightarrow> NodeInputConnections" where
  "pushRow row i c =
     (let padded = row @ replicate (Suc i - length row) (Value [])
      in case slot_get padded i of
           Value grp \<Rightarrow> padded[i := Value (grp @ [c])]
         | _ \<Rightarrow> padded)"

lemma rowsOf_add:
  "rowsOf (addByDestination M (s, t, o', c)) n ty =
     (if n = con_node c \<and> ty = con_type c
      then pushRow (rowsOf M n ty) (con_index c) \<lparr>con_node = s, con_type = t, con_index = o'\<rparr>
      else rowsOf M n ty)"
  by (simp add: addByDestination_def rowsOf_def pushRow_def Let_def split: option.splits)

lemma pushRow_get:
  assumes "\<forall>s \<in> set row. \<exists>v. s = Value v"
  shows "slot_or (slot_get (pushRow row i c) j) [] =
      slot_or (slot_get row j) [] @ (if j = i then [c] else [])"
    and "\<forall>s \<in> set (pushRow row i c). \<exists>v. s = Value v"
proof -
  let ?p = "row @ replicate (Suc i - length row) (Value [])"
  have len: "i < length ?p" by auto
  have all: "\<forall>s \<in> set ?p. \<exists>v. s = Value v" using assms by auto
  have "?p ! i \<in> set ?p" using len by (rule nth_mem)
  with all obtain v where v: "?p ! i = Value v" by blast
  then have p: "slot_get ?p i = Value v" using len by (simp add: slot_get_def)
  have push: "pushRow row i c = ?p[i := Value (v @ [c])]"
    unfolding pushRow_def Let_def p by simp
  have pad: "slot_or (slot_get ?p k) [] = slot_or (slot_get row k) []" for k
    by (auto simp: slot_get_def nth_append)
  show "\<forall>s \<in> set (pushRow row i c). \<exists>v. s = Value v"
    unfolding push using all by (auto dest!: set_update_subset_insert[THEN subsetD])
  show "slot_or (slot_get (pushRow row i c) j) [] =
      slot_or (slot_get row j) [] @ (if j = i then [c] else [])"
  proof (cases "j = i")
    case True
    have "slot_or (slot_get row i) [] = v" using pad[of i] p by simp
    with True len show ?thesis unfolding push by (simp add: slot_get_def)
  next
    case False
    then have "slot_get (?p[i := Value (v @ [c])]) j = slot_get ?p j" by (simp add: slot_get_def)
    with pad[of j] False show ?thesis unfolding push by simp
  qed
qed

definition entryMatches :: "string \<Rightarrow> connection_type \<Rightarrow> nat \<Rightarrow> connection_entry \<Rightarrow> bool" where
  "entryMatches n ty i e \<longleftrightarrow> (case e of (_, _, _, c) \<Rightarrow> con_node c = n \<and> con_type c = ty \<and> con_index c = i)"

definition entrySource :: "connection_entry \<Rightarrow> IConnection" where
  "entrySource e = (case e of (s, t, o', _) \<Rightarrow> \<lparr>con_node = s, con_type = t, con_index = o'\<rparr>)"

lemma addByDestination_get:
  assumes "full_rows M"
  shows "connectionsAt (addByDestination M e) n ty i =
      connectionsAt M n ty i @ (if entryMatches n ty i e then [entrySource e] else [])"
    and "full_rows (addByDestination M e)"
proof -
  obtain s t o' c where e: "e = (s, t, o', c)" by (cases e)
  have rows: "\<forall>s \<in> set (rowsOf M n ty). \<exists>v. s = Value v" for n ty
    using assms by (simp add: full_rows_alt)
  show "connectionsAt (addByDestination M e) n ty i =
      connectionsAt M n ty i @ (if entryMatches n ty i e then [entrySource e] else [])"
    unfolding e connectionsAt_rows rowsOf_add entryMatches_def entrySource_def
    using pushRow_get(1)[OF rows] by auto
  show "full_rows (addByDestination M e)"
    unfolding full_rows_alt e rowsOf_add using rows pushRow_get(2)[OF rows] by simp
qed

lemma mapConnections_ok:
  "connectionsAt (mapConnectionsByDestination C) n ty i =
     map entrySource (filter (entryMatches n ty i) (connectionEntries C))"
proof -
  have "connectionsAt (foldl addByDestination M es) n ty i =
      connectionsAt M n ty i @ map entrySource (filter (entryMatches n ty i) es)"
    if "full_rows M" for M es
    using that by (induction es arbitrary: M) (auto simp: addByDestination_get)
  moreover have "full_rows []" by (simp add: full_rows_def)
  moreover have "connectionsAt [] n ty i = []" by (simp add: connectionsAt_def)
  ultimately show ?thesis by (simp add: mapConnectionsByDestination_def)
qed

text \<open>Keys are unique, as they are in a JavaScript object.\<close>

definition wf_connections :: "IConnections \<Rightarrow> bool" where
  "wf_connections C \<longleftrightarrow> jok C \<and> (\<forall>types \<in> set (jvalues C). jok types)"

lemma entriesOfOutputs_mem:
  "(s, t, o', c) \<in> set (entriesOfOutputs source type outputs) \<longleftrightarrow>
     s = source \<and> t = type \<and> c \<in> set (slot_or (slot_get outputs o') [])" (is "?L \<longleftrightarrow> ?R")
proof
  assume ?L then show ?R by (auto simp: entriesOfOutputs_def in_set_enumerate_eq slot_get_def)
next
  assume R: ?R
  then have l: "o' < length outputs" by (auto simp: slot_get_def split: if_splits)
  then have "(o', outputs ! o') \<in> set (List.enumerate 0 outputs)" by (simp add: in_set_enumerate_eq)
  moreover have "(s, t, o', c) \<in> set (map (\<lambda>c. (source, type, o', c)) (slot_or (outputs ! o') []))"
    using R l by (auto simp: slot_get_def)
  ultimately show ?L
    unfolding entriesOfOutputs_def set_concat
    by (intro UN_I[of "map (\<lambda>c. (source, type, o', c)) (slot_or (outputs ! o') [])"])
      (auto simp del: set_map intro!: image_eqI[of _ _ "(o', outputs ! o')"] simp: set_map)
qed

lemma connectionEntries_mem:
  assumes "wf_connections C"
  shows "(s, t, o', c) \<in> set (connectionEntries C) \<longleftrightarrow> c \<in> set (connectionsAt C s t o')"
proof -
  have ok: "jok C" and ok': "\<And>types. (s, types) \<in> set C \<Longrightarrow> jok types"
    using assms by (force simp: wf_connections_def)+
  have "(s, t, o', c) \<in> set (connectionEntries C) \<longleftrightarrow>
      (\<exists>types outputs. (s, types) \<in> set C \<and> (t, outputs) \<in> set types \<and>
         c \<in> set (slot_or (slot_get outputs o') []))"
    by (auto simp: connectionEntries_def entriesOfOutputs_mem) blast+
  also have "\<dots> \<longleftrightarrow> (\<exists>types outputs. jget C s = Some types \<and> jget types t = Some outputs \<and>
         c \<in> set (slot_or (slot_get outputs o') []))"
    using ok ok' by (metis map_of_eq_Some_iff)
  also have "\<dots> \<longleftrightarrow> c \<in> set (connectionsAt C s t o')"
  proof (cases "jget C s")
    case (Some types)
    then show ?thesis by (cases "jget types t") (simp_all add: connectionsAt_def)
  qed (simp add: connectionsAt_def)
  finally show ?thesis .
qed

lemma mapConnections_mem:
  assumes "wf_connections C"
  shows "\<lparr>con_node = s, con_type = t, con_index = o'\<rparr> \<in> set (connectionsAt (mapConnectionsByDestination C) d ty i)
    \<longleftrightarrow> \<lparr>con_node = d, con_type = ty, con_index = i\<rparr> \<in> set (connectionsAt C s t o')"
proof -
  have "\<lparr>con_node = s, con_type = t, con_index = o'\<rparr> \<in> set (connectionsAt (mapConnectionsByDestination C) d ty i)
      \<longleftrightarrow> (s, t, o', \<lparr>con_node = d, con_type = ty, con_index = i\<rparr>) \<in> set (connectionEntries C)"
    (is "?L \<longleftrightarrow> ?R")
  proof
    assume ?L
    then obtain e where e: "e \<in> set (connectionEntries C)" "entryMatches d ty i e"
      "\<lparr>con_node = s, con_type = t, con_index = o'\<rparr> = entrySource e"
      unfolding mapConnections_ok set_map set_filter by (elim imageE CollectE conjE)
    obtain s' t' o'' c where "e = (s', t', o'', c)" by (cases e)
    with e show ?R by (cases c) (simp add: entryMatches_def entrySource_def)
  next
    assume ?R
    then show ?L unfolding mapConnections_ok set_map
      by (rule rev_image_eqI[OF CollectI[THEN set_filter[symmetric, THEN equalityD1, THEN subsetD]], OF conjI])
        (simp_all add: entryMatches_def entrySource_def)
  qed
  with connectionEntries_mem[OF assms] show ?thesis by simp
qed

text \<open>C21: \<open>mapConnectionsByDestination\<close> is an exact transposition: a connection from output \<open>o'\<close> of type
  \<open>t\<close> of node \<open>s\<close> to input \<open>i\<close> of type \<open>ty\<close> of node \<open>d\<close> is listed at that input, as coming from
  that output, iff it is in the given connections; and the connections of an input are listed in the
  order the source lists them.\<close>

theorem mapConnectionsByDestination_transposes:
  assumes "wf_connections C"
  shows "(\<lparr>con_node = s, con_type = t, con_index = o'\<rparr> \<in> set (connectionsAt (mapConnectionsByDestination C) d ty i)
      \<longleftrightarrow> \<lparr>con_node = d, con_type = ty, con_index = i\<rparr> \<in> set (connectionsAt C s t o')) \<and>
    connectionsAt (mapConnectionsByDestination C) d ty i =
      map entrySource (filter (entryMatches d ty i) (connectionEntries C))"
  using mapConnections_mem[OF assms] mapConnections_ok by blast

definition sample_connections :: "(string \<times> string) list \<Rightarrow> IConnections" where
  "sample_connections es =
     map (\<lambda>a. (a, [(main_type, [Value (map (\<lambda>(_, b). \<lparr>con_node = b, con_type = main_type, con_index = 0\<rparr>)
            (filter (\<lambda>(x, _). x = a) es))])])) (remdups (map fst es))"

lemma mapConnectionsByDestination_transposes_witness:
  "\<lparr>con_node = ''a'', con_type = main_type, con_index = 0\<rparr> \<in>
     set (connectionsAt (mapConnectionsByDestination (sample_connections [(''a'', ''b''), (''a'', ''c'')]))
       ''c'' main_type 0)"
proof -
  let ?C = "sample_connections [(''a'', ''b''), (''a'', ''c'')]"
  have "wf_connections ?C" by code_simp
  moreover have "\<lparr>con_node = ''c'', con_type = main_type, con_index = 0\<rparr> \<in> set (connectionsAt ?C ''a'' main_type 0)"
    by code_simp
  ultimately show ?thesis using mapConnectionsByDestination_transposes[of ?C] by blast
qed

section \<open>Connected nodes\<close>

text \<open>The filter is a connection type, or one of the two words for sets of types.\<close>

definition followedTypes :: "INodeConnections \<Rightarrow> string \<Rightarrow> connection_type list" where
  "followedTypes types connectionType =
     (if connectionType = ''ALL'' then jkeys types
      else if connectionType = ''ALL_NON_MAIN'' then filter (\<lambda>t. t \<noteq> ''main'') (jkeys types)
      else [connectionType])"

text \<open>The targets the nested loops visit, in order.\<close>

definition followedNodes :: "IConnections \<Rightarrow> string \<Rightarrow> string \<Rightarrow> string list" where
  "followedNodes connections nodeName connectionType =
     (case jget connections nodeName of
        None \<Rightarrow> []
      | Some types \<Rightarrow>
          concat (map (\<lambda>t. case jget types t of
              None \<Rightarrow> []
            | Some byIndex \<Rightarrow> concat (map (\<lambda>conns. map con_node (slot_or conns [])) byIndex))
            (followedTypes types connectionType)))"

text \<open>\<open>splice\<close> at \<open>indexOf\<close> and \<open>unshift\<close>: move or add to the front.\<close>

definition moveToFront :: "'a \<Rightarrow> 'a list \<Rightarrow> 'a list" where
  "moveToFront x xs = x # remove1 x xs"

definition nextDepth :: "int \<Rightarrow> int" where
  "nextDepth depth = (if depth = -1 then depth else depth - 1)"

type_synonym connected_memo = "(int \<times> string, string list) jsmap"

text \<open>The loop of \<^verbatim>\<open>collectConnectedNodes\<close> over the connections of one node, with the recursive call on
  each target unfolded; \<open>depth\<close> is \<^verbatim>\<open>newDepth\<close> and \<open>path\<close> the set \<^verbatim>\<open>currentPath\<close>, which every call
  restores. The key of the memo is the pair of the two numbers its text is made of.\<close>

function collectLoop ::
    "IConnections \<Rightarrow> string \<Rightarrow> int \<Rightarrow> string list \<Rightarrow> string list \<Rightarrow> string list \<Rightarrow> connected_memo \<Rightarrow>
     string list \<times> connected_memo" where
  "collectLoop C ty depth path [] returnNodes memo = (returnNodes, memo)"
| "collectLoop C ty depth path (n # ns) returnNodes memo =
     (if n \<in> set path then collectLoop C ty depth path ns returnNodes memo
      else
        case (if depth = 0 \<or> jget C n = None then ([], memo)
              else case jget memo (depth, n) of
                Some cached \<Rightarrow> (cached, memo)
              | None \<Rightarrow>
                  (case collectLoop C ty (nextDepth depth) (set_add path n) (followedNodes C n ty) [] memo of
                     (nodes, memo') \<Rightarrow> (nodes, jset memo' (depth, n) nodes)))
        of (addNodes, memo') \<Rightarrow>
          collectLoop C ty depth path ns
            (foldr moveToFront addNodes (moveToFront n returnNodes)) memo')"
  by pat_completeness auto

termination collectLoop
proof (relation "inv_image (less_than <*lex*> less_than)
    (\<lambda>(C, ty, d, path, ns, r, m). (card (set (jkeys C) - set path), length ns))", goal_cases)
  case (3 C ty d path n ns r m)
  then have "jget C n \<noteq> None" by auto
  then have "n \<in> set (jkeys C)" by (metis list.set_map map_of_eq_None_iff)
  with 3 have "set (jkeys C) - set (set_add path n) \<subset> set (jkeys C) - set path" by auto
  then have "card (set (jkeys C) - set (set_add path n)) < card (set (jkeys C) - set path)"
    by (intro psubset_card_mono) auto
  then show ?case by simp
qed auto

text \<open>One call of \<^verbatim>\<open>collectConnectedNodes\<close>.\<close>

definition collectConnectedNodes ::
    "IConnections \<Rightarrow> string \<Rightarrow> string \<Rightarrow> int \<Rightarrow> string list \<Rightarrow> connected_memo \<Rightarrow>
     string list \<times> connected_memo" where
  "collectConnectedNodes C n ty depth path memo =
     (if depth = 0 \<or> jget C n = None then ([], memo)
      else case jget memo (depth, n) of
        Some cached \<Rightarrow> (cached, memo)
      | None \<Rightarrow>
          (case collectLoop C ty (nextDepth depth) (set_add path n) (followedNodes C n ty) [] memo of
             (nodes, memo') \<Rightarrow> (nodes, jset memo' (depth, n) nodes)))"

definition getConnectedNodes :: "IConnections \<Rightarrow> string \<Rightarrow> string \<Rightarrow> int \<Rightarrow> string list" where
  "getConnectedNodes connections nodeName connectionType depth =
     fst (collectConnectedNodes connections nodeName connectionType depth [] [])"

definition getChildNodes :: "IConnections \<Rightarrow> string \<Rightarrow> string \<Rightarrow> int \<Rightarrow> string list" where
  "getChildNodes connectionsBySourceNode nodeName type depth =
     getConnectedNodes connectionsBySourceNode nodeName type depth"

definition getParentNodes :: "IConnections \<Rightarrow> string \<Rightarrow> string \<Rightarrow> int \<Rightarrow> string list" where
  "getParentNodes connectionsByDestinationNode nodeName type depth =
     getConnectedNodes connectionsByDestinationNode nodeName type depth"

definition getExecutableNodeNames :: "IConnections \<Rightarrow> IConnections \<Rightarrow> string \<Rightarrow> string list" where
  "getExecutableNodeNames connectionsBySourceNode connectionsByDestinationNode startNodeName =
     (let reachable = set_add_all [startNodeName]
            (getChildNodes connectionsBySourceNode startNodeName main_type (-1))
      in foldl (\<lambda>acc node. set_add_all acc
             (getParentNodes connectionsByDestinationNode node ''ALL_NON_MAIN'' (-1)))
           reachable reachable)"

section \<open>What is collected\<close>

definition follows :: "IConnections \<Rightarrow> string \<Rightarrow> (string \<times> string) set" where
  "follows C ty = {(a, b). b \<in> set (followedNodes C a ty)}"

abbreviation expandable :: "IConnections \<Rightarrow> string \<Rightarrow> bool" where
  "expandable C n \<equiv> jget C n \<noteq> None"

lemma follows_expandable: "(a, b) \<in> follows C ty \<Longrightarrow> expandable C a"
  by (cases "jget C a") (simp_all add: follows_def followedNodes_def)

lemma moveToFront_set [simp]: "set (moveToFront x xs) = insert x (set xs)"
proof (rule set_eqI)
  show "y \<in> set (moveToFront x xs) \<longleftrightarrow> y \<in> insert x (set xs)" for y
    by (cases "y = x") (simp_all add: moveToFront_def)
qed

lemma moveToFront_distinct [simp]: "distinct xs \<Longrightarrow> distinct (moveToFront x xs)"
  by (simp add: moveToFront_def)

lemma foldr_moveToFront_set [simp]: "set (foldr moveToFront xs ys) = set xs \<union> set ys"
  by (induction xs) auto

lemma foldr_moveToFront_distinct [simp]: "distinct ys \<Longrightarrow> distinct (foldr moveToFront xs ys)"
  by (induction xs) auto

definition finished :: "connected_memo \<Rightarrow> string set" where
  "finished M = {a. jget M (-1, a) \<noteq> None}"

definition settled :: "IConnections \<Rightarrow> connected_memo \<Rightarrow> string \<Rightarrow> bool" where
  "settled C M x \<longleftrightarrow> x \<in> finished M \<or> \<not> expandable C x"

text \<open>The memo while the nodes of \<open>P\<close> are being expanded.\<close>

definition memo_ok :: "IConnections \<Rightarrow> string \<Rightarrow> string set \<Rightarrow> connected_memo \<Rightarrow> bool" where
  "memo_ok C ty P M \<longleftrightarrow>
     finished M \<inter> P = {} \<and>
     (\<forall>a b. a \<in> finished M \<longrightarrow> (a, b) \<in> follows C ty \<longrightarrow> settled C M b \<or> b \<in> P) \<and>
     (\<forall>a L. jget M (-1, a) = Some L \<longrightarrow>
        (\<forall>x \<in> set L. settled C M x \<and> (a, x) \<in> (follows C ty)\<^sup>+))"

text \<open>What a loop over \<open>ns\<close> does: it collects \<open>ns\<close>, and every node it finishes with its leaves.\<close>

definition loop_ok ::
    "IConnections \<Rightarrow> string \<Rightarrow> string set \<Rightarrow> string list \<Rightarrow> string list \<Rightarrow> connected_memo \<Rightarrow>
     string list \<Rightarrow> connected_memo \<Rightarrow> bool" where
  "loop_ok C ty P ns ret M ret' M' \<longleftrightarrow>
     memo_ok C ty P M' \<and> finished M \<subseteq> finished M' \<and> distinct ret' \<and> set ret \<subseteq> set ret' \<and>
     (\<forall>x \<in> set ret'. settled C M' x) \<and> set ns \<subseteq> P \<union> set ret' \<and>
     finished M' - finished M \<subseteq> set ret' \<and>
     (\<forall>a b. a \<in> finished M' - finished M \<longrightarrow> (a, b) \<in> follows C ty \<longrightarrow> \<not> expandable C b \<longrightarrow>
        b \<in> set ret' \<or> b \<in> P) \<and>
     (\<forall>x \<in> set ret' - set ret. \<exists>n \<in> set ns. (n, x) \<in> (follows C ty)\<^sup>*)"

lemma settled_mono: "settled C M x \<Longrightarrow> finished M \<subseteq> finished M' \<Longrightarrow> settled C M' x"
  by (auto simp: settled_def)

lemma loop_ok_skip:
  assumes "loop_ok C ty P ns ret M ret' M'" "n \<in> P"
  shows "loop_ok C ty P (n # ns) ret M ret' M'"
  using assms unfolding loop_ok_def by auto

text \<open>One step: what the expansion of \<open>n\<close> brings, then the rest of the loop.\<close>

definition expand_ok ::
    "IConnections \<Rightarrow> string \<Rightarrow> string set \<Rightarrow> string \<Rightarrow> connected_memo \<Rightarrow> string list \<Rightarrow> connected_memo \<Rightarrow> bool" where
  "expand_ok C ty P n M add M1 \<longleftrightarrow>
     memo_ok C ty P M1 \<and> finished M \<subseteq> finished M1 \<and> settled C M1 n \<and> (\<forall>x \<in> set add. settled C M1 x) \<and>
     finished M1 - finished M \<subseteq> insert n (set add) \<and>
     (\<forall>a b. a \<in> finished M1 - finished M \<longrightarrow> (a, b) \<in> follows C ty \<longrightarrow> \<not> expandable C b \<longrightarrow>
        b \<in> set add \<or> b \<in> insert n P) \<and>
     (\<forall>x \<in> set add. (n, x) \<in> (follows C ty)\<^sup>+)"

lemma loop_ok_step:
  assumes e: "expand_ok C ty P n M add M1" and d: "distinct ret"
    and l: "loop_ok C ty P ns (foldr moveToFront add (moveToFront n ret)) M1 ret' M'"
  shows "loop_ok C ty P (n # ns) ret M ret' M'"
proof -
  have sub: "insert n (set add \<union> set ret) \<subseteq> set ret'" using l by (auto simp: loop_ok_def)
  have leaves: "b \<in> set ret' \<or> b \<in> P"
    if a: "a \<in> finished M' - finished M" "(a, b) \<in> follows C ty" "\<not> expandable C b" for a b
  proof (cases "a \<in> finished M1")
    case True
    with a have "b \<in> set add \<or> b \<in> insert n P" using e by (auto simp: expand_ok_def)
    with sub show ?thesis by auto
  next
    case False
    with a l show ?thesis by (auto simp: loop_ok_def)
  qed
  have reach: "\<exists>m \<in> set (n # ns). (m, x) \<in> (follows C ty)\<^sup>*" if x: "x \<in> set ret' - set ret" for x
  proof (cases "x \<in> insert n (set add)")
    case True
    then show ?thesis using e by (auto simp: expand_ok_def intro: trancl_into_rtrancl)
  next
    case False
    with x l show ?thesis by (auto simp: loop_ok_def)
  qed
  have new: "finished M' - finished M \<subseteq> set ret'" "finished M \<subseteq> finished M'"
    using e l sub by (auto simp: expand_ok_def loop_ok_def)
  show ?thesis
    using l sub leaves reach new unfolding loop_ok_def[of C ty P "n # ns"]
    by (auto simp: loop_ok_def)
qed

lemma expand_new:
  assumes M: "memo_ok C ty P M" and n: "n \<notin> P" "expandable C n" "n \<notin> finished M"
    and l: "loop_ok C ty (insert n P) (followedNodes C n ty) [] M nodes M1"
  shows "expand_ok C ty P n M nodes (jset M1 (-1, n) nodes)"
proof -
  let ?M = "jset M1 (-1, n) nodes"
  have fin: "finished ?M = insert n (finished M1)" by (auto simp: finished_def)
  have M1: "memo_ok C ty (insert n P) M1" using l by (simp add: loop_ok_def)
  then have n1: "n \<notin> finished M1" by (auto simp: memo_ok_def)
  have kids: "b \<in> insert n P \<union> set nodes" if "(n, b) \<in> follows C ty" for b
    using l that by (auto simp: loop_ok_def follows_def)
  have reach: "(n, x) \<in> (follows C ty)\<^sup>+" if x: "x \<in> set nodes" for x
  proof -
    from l x have "\<exists>m \<in> set (followedNodes C n ty). (m, x) \<in> (follows C ty)\<^sup>*"
      by (simp add: loop_ok_def)
    then obtain m where m: "m \<in> set (followedNodes C n ty)" "(m, x) \<in> (follows C ty)\<^sup>*" ..
    then have "(n, m) \<in> follows C ty" by (simp add: follows_def)
    from this m(2) show ?thesis by (rule rtrancl_into_trancl2)
  qed
  have st: "settled C ?M x" if "settled C M1 x \<or> x = n" for x
    using that unfolding settled_def fin by blast
  have nodes: "settled C M1 x" if "x \<in> set nodes" for x using l that by (simp add: loop_ok_def)
  have closed: "settled C ?M b \<or> b \<in> P" if "a \<in> finished ?M" "(a, b) \<in> follows C ty" for a b
  proof (cases "a = n")
    case True
    with kids that(2) nodes st show ?thesis by blast
  next
    case False
    with that fin M1 have "settled C M1 b \<or> b \<in> insert n P" by (auto simp: memo_ok_def)
    with st show ?thesis by blast
  qed
  have lists: "\<forall>x \<in> set L. settled C ?M x \<and> (a, x) \<in> (follows C ty)\<^sup>+" if a: "jget ?M (-1, a) = Some L" for a L
  proof (cases "a = n")
    case True
    with a have "L = nodes" by simp
    with True reach nodes st show ?thesis by blast
  next
    case False
    with a have "jget M1 (-1, a) = Some L" by simp
    with M1 st show ?thesis unfolding memo_ok_def by blast
  qed
  have "finished ?M \<inter> P = {}" using M1 n(1) fin by (auto simp: memo_ok_def)
  with closed lists have ok: "memo_ok C ty P ?M" unfolding memo_ok_def by blast
  have leaves: "b \<in> set nodes \<or> b \<in> insert n P"
    if "a \<in> finished ?M - finished M" "(a, b) \<in> follows C ty" "\<not> expandable C b" for a b
    using that l kids fin by (cases "a = n") (auto simp: loop_ok_def)
  have "finished M \<subseteq> finished ?M" "finished ?M - finished M \<subseteq> insert n (set nodes)"
    using l fin by (auto simp: loop_ok_def)
  with ok leaves reach nodes st show ?thesis unfolding expand_ok_def by blast
qed

lemma collectLoop_step:
  "n \<notin> set path \<Longrightarrow> collectLoop C ty depth path (n # ns) ret memo =
     (case collectConnectedNodes C n ty depth path memo of
        (add, memo') \<Rightarrow>
          collectLoop C ty depth path ns (foldr moveToFront add (moveToFront n ret)) memo')"
  by (simp add: collectConnectedNodes_def)

lemma collectLoop_ok:
  assumes "memo_ok C ty (set P) M" "distinct ret" "\<forall>x \<in> set ret. settled C M x"
    and "collectLoop C ty (-1) P ns ret M = (ret', M')"
  shows "loop_ok C ty (set P) ns ret M ret' M'"
  using assms
proof (induction C ty "-1 :: int" P ns ret M arbitrary: ret' M' rule: collectLoop.induct)
  case (1 C ty path ret M)
  then show ?case by (simp add: loop_ok_def)
next
  case (2 C ty path n ns ret M)
  show ?case
  proof (cases "n \<in> set path")
    case True
    then have "collectLoop C ty (-1) path ns ret M = (ret', M')" using 2 by simp
    with 2(1)[OF True 2(4-6)] True show ?thesis by (blast intro: loop_ok_skip)
  next
    case out: False
    obtain add M1 where call: "collectConnectedNodes C n ty (-1) path M = (add, M1)" by fastforce
    have rest: "collectLoop C ty (-1) path ns (foldr moveToFront add (moveToFront n ret)) M1 = (ret', M')"
      using 2(7) unfolding collectLoop_step[OF out] call by simp
    have exp: "expand_ok C ty (set path) n M add M1"
    proof (cases "expandable C n \<and> n \<notin> finished M")
      case True
      then have new: "jget C n \<noteq> None" "jget M (-1, n) = None" by (auto simp: finished_def)
      obtain nodes M2 where inner:
        "collectLoop C ty (-1) (set_add path n) (followedNodes C n ty) [] M = (nodes, M2)" by fastforce
      have M: "memo_ok C ty (set (set_add path n)) M"
        using 2(4) True by (auto simp: memo_ok_def)
      have "loop_ok C ty (set (set_add path n)) (followedNodes C n ty) [] M nodes M2"
        using 2(2)[OF out _ new(2) _ M _ _] inner new by (simp add: nextDepth_def)
      moreover have "add = nodes" "M1 = jset M2 (-1, n) nodes"
        using call new inner by (auto simp: collectConnectedNodes_def nextDepth_def)
      ultimately show ?thesis using expand_new[OF 2(4) out new(1)] True by simp
    next
      case False
      have "expand_ok C ty (set path) n M add M" if "\<forall>x \<in> set add. settled C M x \<and> (n, x) \<in> (follows C ty)\<^sup>+"
        using that False 2(4) by (auto simp: expand_ok_def settled_def)
      moreover have "M1 = M" "\<forall>x \<in> set add. settled C M x \<and> (n, x) \<in> (follows C ty)\<^sup>+"
        using call False 2(4)
        by (auto simp: collectConnectedNodes_def finished_def memo_ok_def split: if_splits)
      ultimately show ?thesis by simp
    qed
    have "loop_ok C ty (set path) ns (foldr moveToFront add (moveToFront n ret)) M1 ret' M'"
    proof (rule 2(3)[OF out])
      show "(add, M1) = (if (-1 :: int) = 0 \<or> jget C n = None then ([], M)
              else case jget M (-1, n) of
                Some cached \<Rightarrow> (cached, M)
              | None \<Rightarrow>
                  (case collectLoop C ty (nextDepth (-1)) (set_add path n) (followedNodes C n ty) [] M of
                     (nodes, memo') \<Rightarrow> (nodes, jset memo' (-1, n) nodes)))"
        using call by (simp add: collectConnectedNodes_def)
    qed (use exp 2(5,6) rest in \<open>auto simp: expand_ok_def intro: settled_mono\<close>)
    from loop_ok_step[OF exp 2(5) this] show ?thesis .
  qed
qed

lemma getConnectedNodes_ok:
  "distinct (getConnectedNodes C n ty (-1)) \<and>
   set (getConnectedNodes C n ty (-1)) = {m. (n, m) \<in> (follows C ty)\<^sup>+} - {n}"
proof (cases "expandable C n")
  case False
  then have "(n, y) \<notin> follows C ty" for y using follows_expandable by metis
  then have "{m. (n, m) \<in> (follows C ty)\<^sup>+} = {}" by (auto dest: tranclD)
  with False show ?thesis by (simp add: getConnectedNodes_def collectConnectedNodes_def)
next
  case True
  let ?F = "follows C ty"
  obtain L M where r: "collectLoop C ty (-1) (set_add [] n) (followedNodes C n ty) [] [] = (L, M)" by fastforce
  have eq: "getConnectedNodes C n ty (-1) = L"
    using True r by (auto simp: getConnectedNodes_def collectConnectedNodes_def nextDepth_def)
  have init: "memo_ok C ty (set (set_add [] n)) []" by (simp add: memo_ok_def finished_def)
  have ok: "loop_ok C ty {n} (followedNodes C n ty) [] [] L M"
    using collectLoop_ok[OF init _ _ r] by simp
  have none: "finished [] = {}" by (simp add: finished_def)
  have memo: "memo_ok C ty {n} M" and dist: "distinct L"
    and stl: "\<And>x. x \<in> set L \<Longrightarrow> settled C M x" and start: "set (followedNodes C n ty) \<subseteq> insert n (set L)"
    and fin: "finished M \<subseteq> set L"
    and leaf: "\<And>a b. a \<in> finished M \<Longrightarrow> (a, b) \<in> ?F \<Longrightarrow> \<not> expandable C b \<Longrightarrow> b \<in> set L \<or> b = n"
    and reach: "\<And>x. x \<in> set L \<Longrightarrow> \<exists>m \<in> set (followedNodes C n ty). (m, x) \<in> ?F\<^sup>*"
    using ok by (simp_all add: loop_ok_def none)
  have out: "n \<notin> set L"
    using stl[of n] memo True by (auto simp: settled_def memo_ok_def)
  have closed: "z \<in> insert n (set L)" if y: "y \<in> insert n (set L)" "(y, z) \<in> ?F" for y z
  proof (cases "y = n")
    case True
    with y(2) start show ?thesis unfolding follows_def by blast
  next
    case False
    with y stl[of y] follows_expandable[OF y(2)] have f: "y \<in> finished M" by (auto simp: settled_def)
    then have "settled C M z \<or> z = n" using memo y(2) unfolding memo_ok_def by blast
    with leaf[OF f y(2)] fin show ?thesis unfolding settled_def by blast
  qed
  have "m \<in> insert n (set L)" if "(n, m) \<in> ?F\<^sup>+" for m
    using that by (induction rule: trancl_induct) (use closed in blast)+
  moreover have "(n, m) \<in> ?F\<^sup>+" if m: "m \<in> set L" for m
  proof -
    obtain k where "k \<in> set (followedNodes C n ty)" "(k, m) \<in> ?F\<^sup>*" using reach[OF m] by blast
    moreover from this have "(n, k) \<in> ?F" by (simp add: follows_def)
    ultimately show ?thesis by (blast intro: rtrancl_into_trancl2)
  qed
  ultimately show ?thesis using dist out unfolding eq by blast
qed

text \<open>C19: \<open>getConnectedNodes\<close> without a depth limit returns, without duplicates, exactly the nodes that
  a path over the followed connection types leads to, the node itself excepted: neither the cycles cut
  at the current path nor the memoised results, which were collected on another path, lose or
  duplicate a node.\<close>

theorem getConnectedNodes_reachable:
  "distinct (getConnectedNodes C n ty (-1)) \<and>
   set (getConnectedNodes C n ty (-1)) = {m. (n, m) \<in> (follows C ty)\<^sup>+} - {n}"
  by (rule getConnectedNodes_ok)

section \<open>Parents and children\<close>

lemma followedNodes_type:
  assumes "ty \<notin> {''ALL'', ''ALL_NON_MAIN''}"
  shows "m \<in> set (followedNodes C n ty) \<longleftrightarrow> (\<exists>i. \<exists>c \<in> set (connectionsAt C n ty i). con_node c = m)"
proof -
  have types: "followedTypes types ty = [ty]" for types using assms by (simp add: followedTypes_def)
  have row: "m \<in> set (concat (map (\<lambda>conns. map con_node (slot_or conns [])) l)) \<longleftrightarrow>
      (\<exists>i. \<exists>c \<in> set (slot_or (slot_get l i) []). con_node c = m)" for l :: NodeInputConnections
  proof
    assume "m \<in> set (concat (map (\<lambda>conns. map con_node (slot_or conns [])) l))"
    then obtain s c where "s \<in> set l" and c: "c \<in> set (slot_or s [])" "con_node c = m" by auto
    from this(1) obtain i where "i < length l" "l ! i = s" by (auto simp: in_set_conv_nth)
    with c show "\<exists>i. \<exists>c \<in> set (slot_or (slot_get l i) []). con_node c = m"
      by (intro exI[of _ i] bexI[of _ c]) (simp_all add: slot_get_def)
  next
    assume "\<exists>i. \<exists>c \<in> set (slot_or (slot_get l i) []). con_node c = m"
    then obtain i c where c: "c \<in> set (slot_or (slot_get l i) [])" "con_node c = m" by blast
    then have "i < length l" by (auto simp: slot_get_def split: if_splits)
    with c have "l ! i \<in> set l" "c \<in> set (slot_or (l ! i) [])" by (simp_all add: slot_get_def)
    with c(2) show "m \<in> set (concat (map (\<lambda>conns. map con_node (slot_or conns [])) l))" by auto
  qed
  show ?thesis
  proof (cases "jget C n")
    case (Some ts)
    then show ?thesis
      by (cases "jget ts ty") (simp_all add: followedNodes_def connectionsAt_def types row del: set_concat set_map)
  qed (simp add: followedNodes_def connectionsAt_def)
qed

definition typed_connections :: "IConnections \<Rightarrow> bool" where
  "typed_connections C \<longleftrightarrow> (\<forall>(s, t, o', c) \<in> set (connectionEntries C). con_type c = t)"

lemma typedD:
  assumes "wf_connections C" "typed_connections C" "c \<in> set (connectionsAt C s t o')"
  shows "con_type c = t"
proof -
  have "(s, t, o', c) \<in> set (connectionEntries C)" using assms connectionEntries_mem by blast
  from bspec[OF assms(2)[unfolded typed_connections_def] this] show ?thesis by simp
qed

lemma con_eta: "\<lparr>con_node = con_node c, con_type = con_type c, con_index = con_index c\<rparr> = c"
  by simp

lemma follows_converse:
  assumes "wf_connections C" "typed_connections C" "ty \<notin> {''ALL'', ''ALL_NON_MAIN''}"
  shows "follows (mapConnectionsByDestination C) ty = (follows C ty)\<inverse>"
proof -
  have "(d, s) \<in> follows (mapConnectionsByDestination C) ty \<longleftrightarrow> (s, d) \<in> follows C ty" for s d
  proof
    assume "(d, s) \<in> follows (mapConnectionsByDestination C) ty"
    then obtain i c where c: "c \<in> set (connectionsAt (mapConnectionsByDestination C) d ty i)" "con_node c = s"
      by (auto simp: follows_def followedNodes_type[OF assms(3)])
    have "\<lparr>con_node = s, con_type = con_type c, con_index = con_index c\<rparr> \<in>
        set (connectionsAt (mapConnectionsByDestination C) d ty i)"
      using con_eta c(1) unfolding c(2)[symmetric] by metis
    then have m: "\<lparr>con_node = d, con_type = ty, con_index = i\<rparr> \<in>
        set (connectionsAt C s (con_type c) (con_index c))"
      unfolding mapConnections_mem[OF assms(1)] .
    from typedD[OF assms(1,2) this] have "con_type c = ty" by simp
    with m have "\<exists>c' \<in> set (connectionsAt C s ty (con_index c)). con_node c' = d"
      by (intro bexI[of _ "\<lparr>con_node = d, con_type = ty, con_index = i\<rparr>"]) simp_all
    then show "(s, d) \<in> follows C ty"
      unfolding follows_def mem_Collect_eq prod.case followedNodes_type[OF assms(3)] ..
  next
    assume "(s, d) \<in> follows C ty"
    then obtain o' c where c: "c \<in> set (connectionsAt C s ty o')" "con_node c = d"
      by (auto simp: follows_def followedNodes_type[OF assms(3)])
    from typedD[OF assms(1,2) this(1)] have "con_type c = ty" .
    with c have "\<lparr>con_node = d, con_type = ty, con_index = con_index c\<rparr> \<in> set (connectionsAt C s ty o')"
      using con_eta by metis
    then have "\<lparr>con_node = s, con_type = ty, con_index = o'\<rparr> \<in>
        set (connectionsAt (mapConnectionsByDestination C) d ty (con_index c))"
      unfolding mapConnections_mem[OF assms(1)] .
    then have "\<exists>c' \<in> set (connectionsAt (mapConnectionsByDestination C) d ty (con_index c)). con_node c' = s"
      by (intro bexI[of _ "\<lparr>con_node = s, con_type = ty, con_index = o'\<rparr>"]) simp_all
    then show "(d, s) \<in> follows (mapConnectionsByDestination C) ty"
      unfolding follows_def mem_Collect_eq prod.case followedNodes_type[OF assms(3)] ..
  qed
  then show ?thesis by auto
qed

lemma parents_children_ok:
  assumes "wf_connections C" "typed_connections C" "ty \<notin> {''ALL'', ''ALL_NON_MAIN''}"
  shows "m \<in> set (getParentNodes (mapConnectionsByDestination C) n ty (-1)) \<longleftrightarrow>
    n \<in> set (getChildNodes C m ty (-1))"
  using getConnectedNodes_ok[of "mapConnectionsByDestination C" n ty] getConnectedNodes_ok[of C m ty]
  by (auto simp: getParentNodes_def getChildNodes_def follows_converse[OF assms] trancl_converse)



lemma executable_fold:
  "set (foldl (\<lambda>acc node. set_add_all acc (f node)) acc ns) = set acc \<union> (\<Union>n \<in> set ns. set (f n))"
  by (induction ns arbitrary: acc) auto

text \<open>\<open>getExecutableNodeNames\<close> is the start node and what main connections lead to from it, together
  with every other node from which connections of the other types lead to one of these, and nothing
  else.\<close>

lemma getExecutableNodeNames_closure:
  "set (getExecutableNodeNames C D start) =
     {m. (start, m) \<in> (follows C main_type)\<^sup>*} \<union>
     {s. \<exists>m. (start, m) \<in> (follows C main_type)\<^sup>* \<and> (m, s) \<in> (follows D ''ALL_NON_MAIN'')\<^sup>+}"
proof -
  let ?R = "set_add_all [start] (getChildNodes C start main_type (-1))"
  have R: "set ?R = {m. (start, m) \<in> (follows C main_type)\<^sup>*}"
    using getConnectedNodes_ok[of C start main_type]
    by (auto simp: getChildNodes_def rtrancl_eq_or_trancl)
  have S: "set (getParentNodes D n ''ALL_NON_MAIN'' (-1)) = {s. (n, s) \<in> (follows D ''ALL_NON_MAIN'')\<^sup>+} - {n}" for n
    using getConnectedNodes_ok[of D n "''ALL_NON_MAIN''"] by (simp add: getParentNodes_def)
  show ?thesis
    unfolding getExecutableNodeNames_def Let_def executable_fold R S by blast
qed

end
