(* ===== verification/Graph_Conversion.thy ===== *)
theory Graph_Conversion
  imports Rewire_Graph Workflow_Connections
begin

text \<open>
  From a graph back to the connections of a workflow: \<^verbatim>\<open>toIConnections\<close> of \<^verbatim>\<open>directed-graph.ts\<close>. It creates the
  object of a source node with the type of the first connection only, so it is defined exactly for graphs in which no
  node has outputs of two types, and then it lists every connection once.
\<close>

section \<open>The loop\<close>

definition outgoing :: "string \<Rightarrow> GraphConnection list \<Rightarrow> GraphConnection list" where
  "outgoing n cs = filter (\<lambda>c. node_name (gc_from c) = n) cs"

definition asIConnection :: "GraphConnection \<Rightarrow> IConnection" where
  "asIConnection c = \<lparr>con_node = node_name (gc_to c), con_type = gc_type c, con_index = gc_inputIndex c\<rparr>"

definition one_type :: "GraphConnection list \<Rightarrow> bool" where
  "one_type cs \<longleftrightarrow> (\<forall>c \<in> set cs. \<forall>d \<in> set cs. node_name (gc_from c) = node_name (gc_from d) \<longrightarrow> gc_type c = gc_type d)"

text \<open>What the accumulator holds after a prefix of the connections.\<close>

definition lists_prefix :: "GraphConnection list \<Rightarrow> IConnections \<Rightarrow> bool" where
  "lists_prefix cs acc \<longleftrightarrow> (\<forall>n.
     (case jget acc n of
        None \<Rightarrow> outgoing n cs = []
      | Some types \<Rightarrow> outgoing n cs \<noteq> [] \<and> jkeys types = [gc_type (hd (outgoing n cs))]) \<and>
     (\<forall>t i. connectionsAt acc n t i =
        map asIConnection (filter (\<lambda>c. gc_type c = t \<and> gc_outputIndex c = i) (outgoing n cs))))"

lemma outgoing_snoc: "outgoing n (cs @ [c]) = outgoing n cs @ (if node_name (gc_from c) = n then [c] else [])"
  by (simp add: outgoing_def)

lemma toIConnections_step_cases:
  assumes "lists_prefix cs acc"
  shows "case toIConnections_step c acc of
      Inl e \<Rightarrow> e = TypeError \<and> (\<exists>d \<in> set cs. node_name (gc_from d) = node_name (gc_from c) \<and> gc_type d \<noteq> gc_type c)
    | Inr acc' \<Rightarrow> lists_prefix (cs @ [c]) acc' \<and>
        (outgoing (node_name (gc_from c)) cs = [] \<or> gc_type (hd (outgoing (node_name (gc_from c)) cs)) = gc_type c)"
proof -
  let ?n = "node_name (gc_from c)" and ?t = "gc_type c"
  have pre: "case jget acc n of None \<Rightarrow> outgoing n cs = []
      | Some types \<Rightarrow> outgoing n cs \<noteq> [] \<and> jkeys types = [gc_type (hd (outgoing n cs))]"
    and at: "connectionsAt acc n t i = map asIConnection (filter (\<lambda>c. gc_type c = t \<and> gc_outputIndex c = i) (outgoing n cs))" for n t i
    using assms unfolding lists_prefix_def by blast+
  define types where "types = (case jget acc ?n of None \<Rightarrow> [(?t, [])] | Some m \<Rightarrow> m)"
  have keys: "jkeys types = [if outgoing ?n cs = [] then ?t else gc_type (hd (outgoing ?n cs))]"
    using pre[of ?n] by (auto simp: types_def split: option.splits)
  have old: "(case jget types t of None \<Rightarrow> [] | Some o' \<Rightarrow> slot_or (slot_get o' i) []) = connectionsAt acc ?n t i" for t i
    by (simp add: connectionsAt_def types_def slot_get_def split: option.split)
  show ?thesis
  proof (cases "jget types ?t")
    case None
    then have "outgoing ?n cs \<noteq> []" "gc_type (hd (outgoing ?n cs)) \<noteq> ?t"
      using keys by (auto simp: map_of_eq_None_iff split: if_splits)
    moreover from this(1) have "hd (outgoing ?n cs) \<in> set (outgoing ?n cs)" by simp
    ultimately have "\<exists>d \<in> set cs. node_name (gc_from d) = ?n \<and> gc_type d \<noteq> ?t" by (auto simp: outgoing_def)
    with None show ?thesis by (simp add: toIConnections_step_def Let_def types_def[symmetric])
  next
    case (Some outputs)
    let ?outputs = "slot_set outputs (gc_outputIndex c) (Value (slot_or (slot_get outputs (gc_outputIndex c)) [] @ [asIConnection c]))"
    let ?acc = "jset acc ?n (jset types ?t ?outputs)"
    have step: "toIConnections_step c acc = Inr ?acc"
      using Some by (simp add: toIConnections_step_def Let_def types_def[symmetric] asIConnection_def)
    have hd: "outgoing ?n cs = [] \<or> gc_type (hd (outgoing ?n cs)) = ?t"
      using Some keys by (cases types) (auto split: if_splits)
    have tkeys: "jkeys (jset types ?t ?outputs) = [?t]" using keys hd by (cases types) auto
    have at': "connectionsAt ?acc n t i = connectionsAt acc n t i @
        (if n = ?n \<and> t = ?t \<and> i = gc_outputIndex c then [asIConnection c] else [])" for n t i
    proof (cases "n = ?n")
      case True
      have "connectionsAt ?acc ?n t i = (if t = ?t then slot_or (slot_get ?outputs i) [] else connectionsAt acc ?n t i)"
        using old[where t = t and i = i] by (simp add: connectionsAt_def)
      then show ?thesis using True old[where t = ?t and i = i] Some by (cases "i = gc_outputIndex c") auto
    qed (simp add: connectionsAt_def)
    have "lists_prefix (cs @ [c]) ?acc" unfolding lists_prefix_def
    proof (intro allI conjI)
      fix n show "case jget ?acc n of None \<Rightarrow> outgoing n (cs @ [c]) = []
          | Some types \<Rightarrow> outgoing n (cs @ [c]) \<noteq> [] \<and> jkeys types = [gc_type (hd (outgoing n (cs @ [c])))]"
      proof (cases "node_name (gc_from c) = n")
        case True
        then show ?thesis using tkeys hd by (auto simp: outgoing_snoc hd_append simp del: jset_keys)
      next
        case False
        then show ?thesis using pre[of n] by (auto simp: outgoing_snoc split: option.split)
      qed
      fix t i show "connectionsAt ?acc n t i =
          map asIConnection (filter (\<lambda>c. gc_type c = t \<and> gc_outputIndex c = i) (outgoing n (cs @ [c])))"
        unfolding at' at by (simp add: outgoing_snoc)
    qed
    with step hd show ?thesis by simp
  qed
qed

section \<open>The result\<close>

lemma one_type_snoc:
  assumes "one_type cs" and "outgoing (node_name (gc_from c)) cs = [] \<or> gc_type (hd (outgoing (node_name (gc_from c)) cs)) = gc_type c"
  shows "one_type (cs @ [c])"
proof -
  have "gc_type d = gc_type c" if "d \<in> set cs" "node_name (gc_from d) = node_name (gc_from c)" for d
  proof -
    have d: "d \<in> set (outgoing (node_name (gc_from c)) cs)" using that by (simp add: outgoing_def)
    then have "hd (outgoing (node_name (gc_from c)) cs) \<in> set (outgoing (node_name (gc_from c)) cs)" by (cases "outgoing (node_name (gc_from c)) cs") auto
    moreover have "outgoing (node_name (gc_from c)) cs \<noteq> []" using d by auto
    ultimately have h: "hd (outgoing (node_name (gc_from c)) cs) \<in> set cs"
      "node_name (gc_from (hd (outgoing (node_name (gc_from c)) cs))) = node_name (gc_from c)"
      "gc_type (hd (outgoing (node_name (gc_from c)) cs)) = gc_type c"
      using assms(2) by (simp_all add: outgoing_def)
    from assms(1)[unfolded one_type_def, rule_format, OF that(1) h(1)] that(2) h(2,3) show ?thesis by simp
  qed
  note new = this
  show ?thesis unfolding one_type_def
  proof (intro ballI impI)
    fix a b assume a: "a \<in> set (cs @ [c])" and b: "b \<in> set (cs @ [c])" and e: "node_name (gc_from a) = node_name (gc_from b)"
    consider "a \<in> set cs" "b \<in> set cs" | "a = c" "b \<in> set cs" | "a \<in> set cs" "b = c" | "a = c" "b = c" using a b by auto
    then show "gc_type a = gc_type b"
    proof cases
      case 1
      then show ?thesis using assms(1) e unfolding one_type_def by blast
    qed (use new e in simp_all)
  qed
qed

lemma toIConnections_fold:
  "case fold_res toIConnections_step cs [] of
     Inl e \<Rightarrow> e = TypeError \<and> \<not> one_type cs
   | Inr acc \<Rightarrow> one_type cs \<and> lists_prefix cs acc"
proof (induction cs rule: rev_induct)
  case Nil
  then show ?case by (simp add: one_type_def lists_prefix_def outgoing_def connectionsAt_def)
next
  case (snoc c cs)
  show ?case
  proof (cases "fold_res toIConnections_step cs []")
    case (Inl e)
    with snoc have "e = TypeError" "\<not> one_type cs" by simp_all
    moreover from this(2) have "\<not> one_type (cs @ [c])" unfolding one_type_def set_append by blast
    ultimately show ?thesis using Inl by (simp add: fold_res_append)
  next
    case (Inr acc)
    with snoc have ot: "one_type cs" and "lists_prefix cs acc" by simp_all
    note step = toIConnections_step_cases[OF this(2), of c]
    show ?thesis
    proof (cases "toIConnections_step c acc")
      case (Inl e)
      with step have "e = TypeError" and
        "\<exists>d \<in> set cs. node_name (gc_from d) = node_name (gc_from c) \<and> gc_type d \<noteq> gc_type c" by simp_all
      then have "\<not> one_type (cs @ [c])" unfolding one_type_def by (metis UnCI list.set_intros(1) set_append)
      with Inl \<open>e = TypeError\<close> \<open>fold_res toIConnections_step cs [] = Inr acc\<close> show ?thesis by (simp add: fold_res_append)
    next
      case (Inr acc')
      with step one_type_snoc[OF ot] \<open>fold_res toIConnections_step cs [] = Inr acc\<close> show ?thesis
        by (simp add: fold_res_append)
    qed
  qed
qed

text \<open>C22: Turning a graph back into connections works exactly when no node has outputs of two types, and then lists at
  every output precisely the connections of the graph, in order; for any other graph it throws a \<^verbatim>\<open>TypeError\<close>.\<close>

theorem toIConnections_exact:
  "if one_type (jvalues (dg_connections g))
   then \<exists>C. toIConnections g = Inr C \<and>
     (\<forall>n t i. connectionsAt C n t i = map asIConnection
        (filter (\<lambda>c. gc_type c = t \<and> gc_outputIndex c = i) (outgoing n (jvalues (dg_connections g)))))
   else toIConnections g = Inl TypeError"
  using toIConnections_fold[of "jvalues (dg_connections g)"]
  by (auto simp: toIConnections_def lists_prefix_def split: sum.splits)

end
