(* ===== verification/Partial_Execution.thy ===== *)
theory Partial_Execution
  imports Execution_Stack Graph_Conversion "HOL-Library.Sublist"
begin

text \<open>
  A partial execution from start to stack: \<^verbatim>\<open>find-trigger-for-partial-execution.ts\<close> chooses the
  trigger and \<^verbatim>\<open>WorkflowExecute.runPartialWorkflow2\<close> composes the steps of the other theories, with
  the rewiring for a destination that is a tool. Node types come from installed packages: whether one is a
  trigger is the parameter \<open>isTrigger\<close>, of the type's name and version. The order \<^verbatim>\<open>Array.prototype.sort\<close> gives for the inconsistent comparison of
  pinned triggers is implementation-defined: it is the parameter \<open>webhooksFirst\<close>.
\<close>

section \<open>Finding the trigger\<close>

record Workflow =
  wf_nodes :: "(string, INode) jsmap"
  connectionsBySourceNode :: IConnections
  connectionsByDestinationNode :: IConnections
  wf_pinData :: "IPinData option"

definition getNode :: "Workflow \<Rightarrow> string \<Rightarrow> INode option" where
  "getNode w nodeName = jget (wf_nodes w) nodeName"

definition ends_with :: "string \<Rightarrow> string \<Rightarrow> bool" where
  "ends_with suf s \<longleftrightarrow> length suf \<le> length s \<and> drop (length s - length suf) s = suf"

definition isWebhook :: "INode \<Rightarrow> bool" where
  "isWebhook n \<longleftrightarrow> ends_with ''webhook'' (node_type n)"

definition isTriggerNode :: "(string \<Rightarrow> string \<Rightarrow> bool) \<Rightarrow> INode \<Rightarrow> bool" where
  "isTriggerNode isTrigger n = isTrigger (node_type n) (node_typeVersion n)"

fun lookupAll :: "Workflow \<Rightarrow> string list \<Rightarrow> INode list result" where
  "lookupAll w [] = Inr []"
| "lookupAll w (name # names) =
     (case getNode w name of
        None \<Rightarrow> Inl AssertionError
      | Some n \<Rightarrow> map_sum id (\<lambda>ns. n # ns) (lookupAll w names))"

definition findAllParentTriggers ::
    "(string \<Rightarrow> string \<Rightarrow> bool) \<Rightarrow> Workflow \<Rightarrow> string \<Rightarrow> INode list result" where
  "findAllParentTriggers isTrigger w destinationNodeName =
     map_sum id (filter (isTriggerNode isTrigger))
       (lookupAll w (getParentNodes (connectionsByDestinationNode w) destinationNodeName main_type (-1)))"

definition chooseTrigger ::
    "(INode list \<Rightarrow> INode list) \<Rightarrow> IPinData option \<Rightarrow> IRunData \<Rightarrow> INode list \<Rightarrow> INode option" where
  "chooseTrigger webhooksFirst pinData runData parentTriggers =
     (case List.find (\<lambda>t. jget runData (node_name t) \<noteq> None) parentTriggers of
        Some t \<Rightarrow> Some t
      | None \<Rightarrow>
          let pinned = webhooksFirst (filter (\<lambda>t.
                case pinData of None \<Rightarrow> False | Some p \<Rightarrow> jget p (node_name t) \<noteq> None) parentTriggers)
          in if length pinned > 0 then Some (hd pinned)
             else
               let webhookTriggers = filter isWebhook parentTriggers
               in if length webhookTriggers > 0 then Some (hd webhookTriggers)
                  else (case parentTriggers of [] \<Rightarrow> None | t # _ \<Rightarrow> Some t))"

definition findTriggerForPartialExecution ::
    "(string \<Rightarrow> string \<Rightarrow> bool) \<Rightarrow> (INode list \<Rightarrow> INode list) \<Rightarrow> Workflow \<Rightarrow> string \<Rightarrow> IRunData \<Rightarrow>
     INode option result" where
  "findTriggerForPartialExecution isTrigger webhooksFirst w destinationNodeName runData =
     (case getNode w destinationNodeName of
        None \<Rightarrow> Inr None
      | Some destinationNode \<Rightarrow>
          if isTriggerNode isTrigger destinationNode \<and> \<not> is_disabled destinationNode
          then Inr (Some destinationNode)
          else map_sum id (\<lambda>ts. chooseTrigger webhooksFirst (wf_pinData w) runData
                              (filter (\<lambda>t. \<not> is_disabled t) ts))
                 (findAllParentTriggers isTrigger w destinationNodeName))"

definition anyReachableRootHasRunData :: "DirectedGraph \<Rightarrow> string \<Rightarrow> IRunData \<Rightarrow> bool result" where
  "anyReachableRootHasRunData graph destinationNodeName runData =
     (case jget (dg_nodes graph) destinationNodeName of
        None \<Rightarrow> Inr False
      | Some destinationNode \<Rightarrow>
          (case getParentConnections graph destinationNode of
             Inl e \<Rightarrow> Inl e
           | Inr parentConnections \<Rightarrow>
               let parentNodes = set_add_all [] (map gc_from parentConnections)
               in map_sum id (list_ex (\<lambda>rootNode. jget runData (node_name rootNode) \<noteq> None))
                    (fold_res (\<lambda>parentNode roots.
                         case getDirectParentConnections graph parentNode of
                           Inl e \<Rightarrow> Inl e
                         | Inr ps \<Rightarrow>
                             Inr (if list_ex (\<lambda>c. gc_type c = main_type) ps then roots
                                  else set_add roots parentNode))
                       parentNodes [])))"

lemma lookupAll_ok:
  "\<forall>name \<in> set names. \<exists>n. getNode w name = Some n \<Longrightarrow>
    lookupAll w names = Inr (map (\<lambda>name. the (getNode w name)) names)"
  by (induction names) auto

lemma chooseTrigger_ok:
  assumes "\<And>xs. mset (webhooksFirst xs) = mset xs"
  shows "case chooseTrigger webhooksFirst p r ts of
      None \<Rightarrow> ts = []
    | Some t \<Rightarrow> t \<in> set ts \<and>
        ((\<exists>u \<in> set ts. jget r (node_name u) \<noteq> None) \<longrightarrow> jget r (node_name t) \<noteq> None)"
proof (cases "List.find (\<lambda>t. jget r (node_name t) \<noteq> None) ts")
  case (Some t)
  then have "t \<in> set ts" "jget r (node_name t) \<noteq> None" by (auto simp: find_Some_iff)
  with Some show ?thesis by (simp add: chooseTrigger_def)
next
  case None
  then have none: "\<forall>t \<in> set ts. jget r (node_name t) = None" unfolding find_None_iff by auto
  let ?pinned = "webhooksFirst (filter (\<lambda>t. case p of None \<Rightarrow> False | Some p \<Rightarrow> jget p (node_name t) \<noteq> None) ts)"
  have sub: "set ?pinned \<subseteq> set ts"
    using assms by (metis filter_is_subset set_mset_mset)
  have hd: "hd xs \<in> set ts" if "length xs > 0" "set xs \<subseteq> set ts" for xs
    using that by (cases xs) auto
  have "case chooseTrigger webhooksFirst p r ts of None \<Rightarrow> ts = [] | Some t \<Rightarrow> t \<in> set ts"
    unfolding chooseTrigger_def None option.case Let_def
    using hd[OF _ sub] hd[OF _ filter_is_subset[of isWebhook ts]]
    by (simp del: set_filter split: list.splits)
  with none show ?thesis by (auto split: option.splits)
qed

text \<open>C17: When the workflow holds the nodes its connections name, \<open>findTriggerForPartialExecution\<close> fails no
  assertion. It returns an enabled trigger that is the destination itself or one of its parents, one
  with run data whenever such a parent has some and the destination is no trigger, and it returns
  none only if no enabled trigger leads to the destination.\<close>

theorem findTriggerForPartialExecution_choice:
  assumes "\<And>xs. mset (webhooksFirst xs) = mset xs"
    and "getNode w d = Some destination"
    and "\<forall>name \<in> set (getParentNodes (connectionsByDestinationNode w) d main_type (-1)).
      \<exists>n. getNode w name = Some n"
  shows "\<exists>t. findTriggerForPartialExecution isTrigger webhooksFirst w d r = Inr t \<and>
    (let parents = {n. \<exists>name \<in> set (getParentNodes (connectionsByDestinationNode w) d main_type (-1)).
                        getNode w name = Some n};
         enabled = {n. isTriggerNode isTrigger n \<and> \<not> is_disabled n}
     in case t of
          None \<Rightarrow> insert destination parents \<inter> enabled = {}
        | Some n \<Rightarrow> n \<in> insert destination parents \<inter> enabled \<and>
            (destination \<in> enabled \<longrightarrow> n = destination) \<and>
            (destination \<notin> enabled \<and> (\<exists>u \<in> parents \<inter> enabled. jget r (node_name u) \<noteq> None) \<longrightarrow>
               jget r (node_name n) \<noteq> None))"
proof (cases "isTriggerNode isTrigger destination \<and> \<not> is_disabled destination")
  case True
  with assms(2) show ?thesis by (simp add: findTriggerForPartialExecution_def Let_def)
next
  case False
  let ?names = "getParentNodes (connectionsByDestinationNode w) d main_type (-1)"
  define ts where
    "ts = filter (\<lambda>t. \<not> is_disabled t) (filter (isTriggerNode isTrigger) (map (\<lambda>name. the (getNode w name)) ?names))"
  have eq: "findTriggerForPartialExecution isTrigger webhooksFirst w d r =
      Inr (chooseTrigger webhooksFirst (wf_pinData w) r ts)"
    using False assms(2) lookupAll_ok[OF assms(3)]
    by (auto simp: findTriggerForPartialExecution_def findAllParentTriggers_def ts_def)
  let ?parents = "{n. \<exists>name \<in> set ?names. getNode w name = Some n}"
  let ?enabled = "{n. isTriggerNode isTrigger n \<and> \<not> is_disabled n}"
  have ts: "set ts = ?parents \<inter> ?enabled"
    unfolding ts_def using assms(3) by force
  have out: "destination \<notin> ?enabled" using False by blast
  note choice = chooseTrigger_ok[OF assms(1), where p = "wf_pinData w" and r = r and ts = ts]
  show ?thesis
  proof (cases "chooseTrigger webhooksFirst (wf_pinData w) r ts")
    case None
    with choice have "ts = []" by simp
    then have "?parents \<inter> ?enabled = {}" using ts by simp
    with out have "insert destination ?parents \<inter> ?enabled = {}" by blast
    then show ?thesis unfolding eq Let_def None
      by (intro exI[of _ None] conjI refl) (unfold option.case)
  next
    case (Some t)
    with choice have t: "t \<in> ?parents \<inter> ?enabled"
      "(\<exists>u \<in> ?parents \<inter> ?enabled. jget r (node_name u) \<noteq> None) \<longrightarrow> jget r (node_name t) \<noteq> None"
      unfolding ts[symmetric] by simp_all
    have "t \<in> insert destination ?parents \<inter> ?enabled \<and> (destination \<in> ?enabled \<longrightarrow> t = destination) \<and>
        (destination \<notin> ?enabled \<and> (\<exists>u \<in> ?parents \<inter> ?enabled. jget r (node_name u) \<noteq> None) \<longrightarrow>
           jget r (node_name t) \<noteq> None)"
      using t out by (intro conjI impI) (blast | simp only: simp_thms)+
    then show ?thesis unfolding eq Let_def Some
      by (intro exI[of _ "Some t"] conjI refl) (unfold option.case)
  qed
qed

definition sample_workflow :: "INode list \<Rightarrow> (string \<times> string) list \<Rightarrow> Workflow" where
  "sample_workflow ns es =
     \<lparr>wf_nodes = map (\<lambda>n. (node_name n, n)) ns, connectionsBySourceNode = sample_connections es,
      connectionsByDestinationNode = mapConnectionsByDestination (sample_connections es),
      wf_pinData = None\<rparr>"

definition trigger_node :: "nat \<Rightarrow> string \<Rightarrow> INode" where
  "trigger_node r name = (sample_node r name)\<lparr>node_type := ''n8n-nodes-base.manualTrigger''\<rparr>"

abbreviation "tA \<equiv> trigger_node 1 ''a''"

lemma findTriggerForPartialExecution_choice_witness:
  "findTriggerForPartialExecution (\<lambda>t _. t = ''n8n-nodes-base.manualTrigger'') id
     (sample_workflow [tA, nB, nC] [(''a'', ''b''), (''b'', ''c'')]) ''c'' [] \<noteq> Inl AssertionError"
proof -
  let ?w = "sample_workflow [tA, nB, nC] [(''a'', ''b''), (''b'', ''c'')]"
  have 1: "\<And>xs :: INode list. mset (id xs) = mset xs" by simp
  have 2: "getNode ?w ''c'' = Some nC" by code_simp
  have "list_all (\<lambda>name. getNode ?w name \<noteq> None)
      (getParentNodes (connectionsByDestinationNode ?w) ''c'' main_type (-1))" by code_simp
  then have 3: "\<forall>name \<in> set (getParentNodes (connectionsByDestinationNode ?w) ''c'' main_type (-1)).
      \<exists>n. getNode ?w name = Some n" by (auto simp: list_all_iff)
  obtain t where "findTriggerForPartialExecution (\<lambda>t _. t = ''n8n-nodes-base.manualTrigger'') id ?w ''c'' [] = Inr t"
    using findTriggerForPartialExecution_choice[OF 1 2 3, of "\<lambda>t _. t = ''n8n-nodes-base.manualTrigger''" "[]"]
    by (elim exE conjE)
  then show ?thesis by (simp only: sum.distinct not_False_eq_True simp_thms)
qed

section \<open>The steps of a partial execution\<close>

record PartialRun =
  pr_runNodeFilter :: "string list"
  pr_runData :: IRunData
  pr_stack :: RecreatedStack
  pr_nextExecutionIndex :: nat

text \<open>Steps 2 to 7 of \<^verbatim>\<open>runPartialWorkflow2\<close>, from the graph of the workflow to the data the
  execution starts with.\<close>

definition partialSteps ::
    "(string \<Rightarrow> string \<Rightarrow> int) \<Rightarrow> DirectedGraph \<Rightarrow> INode \<Rightarrow> INode \<Rightarrow> IRunData \<Rightarrow> IPinData \<Rightarrow>
     string list \<Rightarrow> PartialRun result" where
  "partialSteps localeCompare graph trigger destination runData pinData dirtyNodeNames =
     (case filterDisabledNodes graph of
        Inl e \<Rightarrow> Inl e
      | Inr filteredGraph \<Rightarrow>
          if is_disabled destination then Inl (UserError ''Cannot execute a disabled node'')
          else case findSubgraph filteredGraph destination trigger of
            Inl e \<Rightarrow> Inl e
          | Inr g \<Rightarrow>
              (case cleanRunData runData g (getNodesByNames g dirtyNodeNames) of
                 Inl e \<Rightarrow> Inl e
               | Inr runData1 \<Rightarrow>
                   (case findStartNodes g trigger destination pinData runData1 of
                      Inl e \<Rightarrow> Inl e
                    | Inr startNodes \<Rightarrow>
                        (case handleCycles g startNodes trigger of
                           Inl e \<Rightarrow> Inl e
                         | Inr startNodes1 \<Rightarrow>
                             (case cleanRunData runData1 g startNodes1 of
                                Inl e \<Rightarrow> Inl e
                              | Inr runData2 \<Rightarrow>
                                  map_sum id (\<lambda>stack.
                                      \<lparr>pr_runNodeFilter = jkeys (dg_nodes g), pr_runData = runData2,
                                       pr_stack = stack, pr_nextExecutionIndex = getNextExecutionIndex runData2\<rparr>)
                                    (recreateNodeExecutionStack localeCompare g startNodes1 runData2 pinData))))))"

definition fallbackTrigger :: "Workflow \<Rightarrow> IRunData \<Rightarrow> string list \<Rightarrow> INode option" where
  "fallbackTrigger w runData parentNodes =
     (case List.find (\<lambda>nodeName. case getNode w nodeName of
          None \<Rightarrow> False
        | Some parentNode \<Rightarrow> \<not> is_disabled parentNode \<and> jget runData nodeName \<noteq> None) parentNodes of
        None \<Rightarrow> None
      | Some nodeName \<Rightarrow> getNode w nodeName)"

text \<open>
  \<^verbatim>\<open>isTool\<close> of \<^verbatim>\<open>node-helpers.ts\<close>, of the description of a node type: its name, and its outputs if they are an array,
  each a string or an object with a type. The loop returns at the first output that is a string.
\<close>

record NodeDescription =
  nd_name :: string
  nd_outputs :: "(connection_type + connection_type option) list option"

fun hasToolOutput :: "(connection_type + connection_type option) list \<Rightarrow> bool" where
  "hasToolOutput [] \<longleftrightarrow> False"
| "hasToolOutput (Inl output # outputs) \<longleftrightarrow> output = ai_tool"
| "hasToolOutput (Inr type # outputs) \<longleftrightarrow> type = Some ai_tool \<or> hasToolOutput outputs"

definition isTool :: "NodeDescription \<Rightarrow> (string \<times> json) list \<Rightarrow> bool" where
  "isTool description parameters =
     (if sublist ''vectorStore'' (nd_name description)
      then jget parameters ''mode'' = Some (JStr ''retrieve-as-tool'')
      else case nd_outputs description of None \<Rightarrow> False | Some outputs \<Rightarrow> hasToolOutput outputs)"

text \<open>\<^verbatim>\<open>toWorkflow\<close>: the constructor of \<^verbatim>\<open>Workflow\<close> stores the nodes by name and transposes the connections. The default
  values it fills into the parameters are not modelled: no step reads them.\<close>

definition toWorkflow :: "DirectedGraph \<Rightarrow> Workflow \<Rightarrow> Workflow result" where
  "toWorkflow g w =
     map_sum id (\<lambda>connections.
         w\<lparr>wf_nodes := foldl (\<lambda>m n. jset m (node_name n) n) [] (jvalues (dg_nodes g)),
           connectionsBySourceNode := connections,
           connectionsByDestinationNode := mapConnectionsByDestination connections\<rparr>)
       (toIConnections g)"

text \<open>The request of the agent: the address of the virtual node, the JSON text of the query and the name of the tool.\<close>

record AgentRequest =
  ar_ref :: nat
  ar_query :: string
  ar_toolName :: string

definition rewireDestination :: "AgentRequest \<Rightarrow> INode \<Rightarrow> DirectedGraph \<Rightarrow> Workflow \<Rightarrow>
    (Workflow \<times> DirectedGraph \<times> INode \<times> string) result" where
  "rewireDestination request destination graph w =
     (case rewireGraph (ar_ref request) (ar_query request) (ar_toolName request) destination graph of
        Inl e \<Rightarrow> Inl e
      | Inr g \<Rightarrow>
          (case toWorkflow g w of
             Inl e \<Rightarrow> Inl e
           | Inr w1 \<Rightarrow>
               (case getNode w1 TOOL_EXECUTOR_NODE_NAME of
                  None \<Rightarrow> Inl (OperationalError ''ToolExecutor can not be found'')
                | Some toolExecutorNode \<Rightarrow> Inr (w1, g, toolExecutorNode, node_name toolExecutorNode))))"

text \<open>The whole function before the stack is executed; \<open>describe\<close> gives the description of a node's type.\<close>

definition runPartialWorkflow2 ::
    "(string \<Rightarrow> string \<Rightarrow> int) \<Rightarrow> (string \<Rightarrow> string \<Rightarrow> bool) \<Rightarrow> (INode list \<Rightarrow> INode list) \<Rightarrow>
     (INode \<Rightarrow> NodeDescription) \<Rightarrow> AgentRequest \<Rightarrow> Workflow \<Rightarrow>
     IRunData \<Rightarrow> IPinData \<Rightarrow> string list \<Rightarrow> string \<Rightarrow> PartialRun result" where
  "runPartialWorkflow2 localeCompare isTrigger webhooksFirst describe request w0 runData pinData dirtyNodeNames destinationName0 =
     (case getNode w0 destinationName0 of None \<Rightarrow> Inl AssertionError | Some destination0 \<Rightarrow>
      case fromWorkflow (wf_nodes w0) (connectionsBySourceNode w0) of Inl e \<Rightarrow> Inl e | Inr graph0 \<Rightarrow>
      case (if isTool (describe destination0) (node_parameters destination0)
            then rewireDestination request destination0 graph0 w0 else Inr (w0, graph0, destination0, destinationName0)) of
        Inl e \<Rightarrow> Inl e
      | Inr (w, graph, destination, destinationName) \<Rightarrow>
          (case findTriggerForPartialExecution isTrigger webhooksFirst w destinationName runData of
             Inl e \<Rightarrow> Inl e
           | Inr found \<Rightarrow>
               (case (case found of
                        Some t \<Rightarrow> Some t
                      | None \<Rightarrow> fallbackTrigger w runData
                          (getParentNodes (connectionsByDestinationNode w) destinationName main_type (-1))) of
                  None \<Rightarrow> Inl (UserError ''Connect a trigger and make sure it's enabled to run this node'')
                | Some trigger \<Rightarrow>
                    partialSteps localeCompare graph trigger destination runData pinData dirtyNodeNames)))"

text \<open>A tool that is connected to no agent cannot be executed alone.\<close>

lemma unconnected_tool_fails:
  assumes "wf_graph g" and "getChildren g tool = Inr []" and "one_type (jvalues (dg_connections g))"
    and "\<not> hasNode g TOOL_EXECUTOR_NODE_NAME"
  shows "rewireDestination request tool g w = Inl (OperationalError ''ToolExecutor can not be found'')"
proof -
  obtain C where C: "toIConnections g = Inr C" using toIConnections_fold[of "jvalues (dg_connections g)"] assms(3)
    by (auto simp: toIConnections_def split: sum.splits)
  have no: "jget (foldl (\<lambda>m n. jset m (node_name n) n) m ns) k = None"
    if "jget m k = None" "\<forall>n \<in> set ns. node_name n \<noteq> k" for m k and ns :: "INode list"
    using that by (induction ns arbitrary: m) (auto simp del: map_of_eq_None_iff)
  have "\<forall>n \<in> set (jvalues (dg_nodes g)). node_name n \<noteq> TOOL_EXECUTOR_NODE_NAME"
    using assms(1,4) by (auto simp: wf_nodesD hasNode_def isMember_def simp del: map_of_eq_None_iff)
  from no[OF _ this, of "[]"] show ?thesis
    by (simp add: rewireDestination_def rewireGraph_def clone_ok[OF assms(1)] assms(2) toWorkflow_def C getNode_def
        del: map_of_eq_None_iff)
qed

section \<open>The steps fit together\<close>

lemma getNodesByNames_members:
  assumes "wf_graph g"
  shows "\<forall>n \<in> set (getNodesByNames g names). isMember g n"
proof -
  have "\<forall>n \<in> set (foldl (\<lambda>nodes name. case jget (dg_nodes g) name of None \<Rightarrow> nodes | Some n \<Rightarrow> set_add nodes n)
      acc names). isMember g n" if "\<forall>n \<in> set acc. isMember g n" for acc
    using that
  proof (induction names arbitrary: acc)
    case (Cons name names)
    have "isMember g n" if "jget (dg_nodes g) name = Some n" for n
      using map_of_SomeD[OF that] wf_nodesD[OF assms] by blast
    then have "\<forall>n \<in> set (case jget (dg_nodes g) name of None \<Rightarrow> acc | Some n \<Rightarrow> set_add acc n). isMember g n"
      using Cons.prems by (cases "jget (dg_nodes g) name") auto
    from Cons.IH[OF this] show ?case by simp
  qed simp
  from this[of "[]"] show ?thesis by (simp add: getNodesByNames_def)
qed

lemma reach_member:
  assumes "wf_graph g" "isMember g t" "(t, n) \<in> (edges g)\<^sup>*"
  shows "isMember g n"
  using assms(3,2) by (induction rule: rtrancl_induct) (auto dest: edges_members[OF assms(1)])

lemma start_entries_node: "e \<in> set (start_entries cmp g r p n) \<Longrightarrow> ed_node e = n"
  by (auto simp: start_entries_def group_entry_def split: if_splits)

text \<open>What the steps leave: the nodes of the filter are enabled nodes of the graph, the trigger among
  them; every entry of the stack is for one of them that the trigger reaches, and the run data it
  starts with has nothing for that node.\<close>

definition good_run :: "DirectedGraph \<Rightarrow> INode \<Rightarrow> DirectedGraph \<Rightarrow> PartialRun \<Rightarrow> bool" where
  "good_run graph trigger g run \<longleftrightarrow>
     wf_graph g \<and> node_set g \<subseteq> {n \<in> node_set graph. \<not> is_disabled n} \<and> isMember g trigger \<and>
     pr_runNodeFilter run = jkeys (dg_nodes g) \<and>
     (\<forall>e \<in> set (nodeExecutionStack (pr_stack run)).
        isMember g (ed_node e) \<and> (trigger, ed_node e) \<in> (edges g)\<^sup>* \<and>
        jget (pr_runData run) (node_name (ed_node e)) = None) \<and>
     pr_nextExecutionIndex run = getNextExecutionIndex (pr_runData run)"

lemma subgraph_steps_ok:
  assumes g: "wf_graph g" "isMember g trigger" "\<forall>n \<in> node_set g. \<not> is_disabled n"
  shows "\<exists>r1 st st1 r2 stack.
    cleanRunData r g (getNodesByNames g dirty) = Inr r1 \<and> findStartNodes g trigger d p r1 = Inr st \<and>
    handleCycles g st trigger = Inr st1 \<and> cleanRunData r1 g st1 = Inr r2 \<and>
    recreateNodeExecutionStack cmp g st1 r2 p = Inr stack \<and>
    (\<forall>e \<in> set (nodeExecutionStack stack).
        isMember g (ed_node e) \<and> (trigger, ed_node e) \<in> (edges g)\<^sup>* \<and>
        jget r2 (node_name (ed_node e)) = None)"
proof -
  obtain r1 where r1: "cleanRunData r g (getNodesByNames g dirty) = Inr r1"
    using cleanRunData_ok[OF g(1) getNodesByNames_members[OF g(1)]] by blast
  obtain st where st: "findStartNodes g trigger d p r1 = Inr st"
    using findStartNodes_ok[OF g(1,2)] by blast
  note reach = findStartNodes_reachable[OF g(1,2) st]
  obtain st1 where st1: "handleCycles g st trigger = Inr st1" "good_starts g trigger st st1"
    using handleCycles_ok[OF g(1,2), of st] reach by blast
  have starts: "(trigger, n) \<in> (edges g)\<^sup>* \<and> isMember g n" if "n \<in> set st1" for n
    using st1(2) that reach_member[OF g(1,2)] by (auto simp: good_starts_def)
  then have m: "\<forall>n \<in> set st1. isMember g n" by blast
  obtain r2 where r2: "cleanRunData r1 g st1 = Inr r2"
    "\<forall>k. jget r2 k = (if hasNode g k \<and> k \<notin> (\<Union>n \<in> set st1. downstream_names g n) then jget r1 k else None)"
    using cleanRunData_ok[OF g(1) m] by blast
  have cleaned: "jget r2 (node_name n) = None" if "n \<in> set st1" for n
  proof -
    have "node_name n \<in> downstream_names g n" by (auto simp: downstream_names_def)
    with that r2(2) show ?thesis by auto
  qed
  obtain stack where stack: "recreateNodeExecutionStack cmp g st1 r2 p = Inr stack"
    "nodeExecutionStack stack = concat (map (start_entries cmp g r2 p) st1)"
    using recreate_ok[OF g(3) m] by blast
  have "ed_node e \<in> set st1" if "e \<in> set (nodeExecutionStack stack)" for e
    using that unfolding stack(2) by (auto dest: start_entries_node)
  with starts cleaned r1 st st1(1) r2(1) stack(1) show ?thesis by blast
qed

lemma partialSteps_ok:
  assumes wf: "wf_graph graph" "plain_graph graph"
    and ac: "acyclic (type_edges main_type graph \<inter> {n. is_disabled n} \<times> {n. is_disabled n})"
    and t: "isMember graph trigger" "\<not> is_disabled trigger"
    and d: "isMember graph destination" "\<not> is_disabled destination"
    and path: "(trigger, destination) \<in> (type_edges main_type graph)\<^sup>*"
  shows "\<exists>run g. partialSteps localeCompare graph trigger destination r p dirty = Inr run \<and>
    good_run graph trigger g run \<and> (trigger, destination) \<in> (type_edges main_type g)\<^sup>*"
proof -
  obtain h where h: "filterDisabledNodes graph = Inr h" "wf_graph h"
    "node_set h = {n \<in> node_set graph. \<not> is_disabled n}"
    and paths: "\<forall>x y. \<not> is_disabled x \<longrightarrow> \<not> is_disabled y \<longrightarrow>
       (x, y) \<in> (type_edges main_type h)\<^sup>+ \<longleftrightarrow> (x, y) \<in> (type_edges main_type graph)\<^sup>+"
    using filterDisabledNodes_ok[OF wf ac] by blast
  have hm: "isMember h n" if "isMember graph n" "\<not> is_disabled n" for n
    using that h(2,3) wf(1) by (metis (mono_tags, lifting) mem_Collect_eq wf_member)
  have hp: "(trigger, destination) \<in> (type_edges main_type h)\<^sup>*"
    using path paths t(2) d(2) by (metis rtrancl_eq_or_trancl)
  obtain g where g: "findSubgraph h destination trigger = Inr g" "subgraph_of g h"
    "(trigger, destination) \<in> (type_edges main_type g)\<^sup>*"
    using findSubgraph_reaches[OF h(2) hm[OF d] hm[OF t] hp] by blast
  have gt: "isMember g trigger" by (rule findSubgraph_trigger[OF h(2) hm[OF d] hm[OF t] hp g(1)])
  have gn: "node_set g \<subseteq> {n \<in> node_set graph. \<not> is_disabled n}" "wf_graph g"
    using g(2) h(3) by (auto simp: subgraph_of_def)
  then have en: "\<forall>n \<in> node_set g. \<not> is_disabled n" by blast
  obtain r1 st st1 r2 stack where s:
    "cleanRunData r g (getNodesByNames g dirty) = Inr r1" "findStartNodes g trigger destination p r1 = Inr st"
    "handleCycles g st trigger = Inr st1" "cleanRunData r1 g st1 = Inr r2"
    "recreateNodeExecutionStack localeCompare g st1 r2 p = Inr stack"
    and e: "\<forall>e \<in> set (nodeExecutionStack stack).
        isMember g (ed_node e) \<and> (trigger, ed_node e) \<in> (edges g)\<^sup>* \<and>
        jget r2 (node_name (ed_node e)) = None"
    using subgraph_steps_ok[OF gn(2) gt en, of r dirty destination p localeCompare]
    by (elim exE conjE)
  let ?run = "\<lparr>pr_runNodeFilter = jkeys (dg_nodes g), pr_runData = r2, pr_stack = stack,
    pr_nextExecutionIndex = getNextExecutionIndex r2\<rparr>"
  have "partialSteps localeCompare graph trigger destination r p dirty = Inr ?run"
    unfolding partialSteps_def using h(1) d(2) g(1) s by simp
  moreover have "good_run graph trigger g ?run"
    unfolding good_run_def using gn gt e by simp
  ultimately show ?thesis using g(3) by blast
qed



end
