(* ===== verification/Subgraph_Selection.thy ===== *)
theory Subgraph_Selection
  imports Workflow_Connections
begin

text \<open>
  \<^verbatim>\<open>packages/workflow/src/graph/graph-utils.ts\<close>: whether a selection of nodes can be extracted into a
  sub-workflow. An adjacency list is the map of the source; a set of connection objects is the list
  of its members, since every connection is an object of its own.
\<close>

section \<open>Adjacency\<close>

type_synonym IConnectionAdjacencyList = "(string, IConnection list) jsmap"

definition adjacent :: "IConnectionAdjacencyList \<Rightarrow> string \<Rightarrow> IConnection list" where
  "adjacent adjacencyList n = (case jget adjacencyList n of None \<Rightarrow> [] | Some cs \<Rightarrow> cs)"

text \<open>The loops read every connection back by its indices, so \<^verbatim>\<open>if (connection)\<close> always holds.\<close>

definition buildAdjacencyList :: "IConnections \<Rightarrow> IConnectionAdjacencyList" where
  "buildAdjacencyList connectionsBySourceNode =
     foldl (\<lambda>result (sourceNode, _, _, connection).
         jset result sourceNode (adjacent result sourceNode @ [connection]))
       [] (connectionEntries connectionsBySourceNode)"

definition getInputEdges :: "string list \<Rightarrow> IConnectionAdjacencyList \<Rightarrow> (string \<times> IConnection) list" where
  "getInputEdges graphIds adjacencyList =
     concat (map (\<lambda>(from, tos).
         if from \<in> set graphIds then []
         else map (\<lambda>to. (from, to)) (filter (\<lambda>to. con_node to \<in> set graphIds) tos))
       adjacencyList)"

definition getOutputEdges :: "string list \<Rightarrow> IConnectionAdjacencyList \<Rightarrow> (string \<times> IConnection) list" where
  "getOutputEdges graphIds adjacencyList =
     concat (map (\<lambda>(from, tos).
         if from \<notin> set graphIds then []
         else map (\<lambda>to. (from, to)) (filter (\<lambda>to. con_node to \<notin> set graphIds) tos))
       adjacencyList)"

definition js_intersection :: "'a list \<Rightarrow> 'a list \<Rightarrow> 'a list" where
  "js_intersection a b = filter (\<lambda>x. x \<in> set b) a"

definition js_union :: "'a list \<Rightarrow> 'a list \<Rightarrow> 'a list" where
  "js_union a b = set_add_all (set_add_all [] a) b"

definition js_difference :: "'a list \<Rightarrow> 'a list \<Rightarrow> 'a list" where
  "js_difference minuend subtrahend = foldl set_del minuend subtrahend"

definition mainTargets :: "IConnectionAdjacencyList \<Rightarrow> string \<Rightarrow> string list" where
  "mainTargets adjacencyList n =
     map con_node (filter (\<lambda>x. con_type x = ''main'') (adjacent adjacencyList n))"

text \<open>The inner targets of a node, without a loop to itself.\<close>

definition otherTargets :: "IConnectionAdjacencyList \<Rightarrow> string \<Rightarrow> string list" where
  "otherTargets adjacencyList nodeId =
     map con_node (filter (\<lambda>x. con_type x = ''main'' \<and> con_node x \<noteq> nodeId) (adjacent adjacencyList nodeId))"

definition getRootNodes :: "string list \<Rightarrow> IConnectionAdjacencyList \<Rightarrow> string list" where
  "getRootNodes graphIds adjacencyList =
     (let innerNodes = foldl (\<lambda>inner nodeId.
            js_union inner (set_add_all [] (otherTargets adjacencyList nodeId))) [] graphIds
      in js_difference graphIds innerNodes)"

definition getLeafNodes :: "string list \<Rightarrow> IConnectionAdjacencyList \<Rightarrow> string list" where
  "getLeafNodes graphIds adjacencyList =
     foldl (\<lambda>result nodeId.
         if length (js_intersection (set_add_all [] (otherTargets adjacencyList nodeId)) graphIds) = 0
         then set_add result nodeId else result)
       [] graphIds"

lemma js_intersection_set [simp]: "set (js_intersection a b) = set a \<inter> set b"
  by (auto simp: js_intersection_def)

lemma js_union_set [simp]: "set (js_union a b) = set a \<union> set b"
  by (simp add: js_union_def)

lemma js_difference_set [simp]: "set (js_difference a b) = set a - set b"
  unfolding js_difference_def by (induction b arbitrary: a) auto

lemma distinct_js_intersection [simp]: "distinct a \<Longrightarrow> distinct (js_intersection a b)"
  by (simp add: js_intersection_def)

lemma distinct_js_difference [simp]: "distinct a \<Longrightarrow> distinct (js_difference a b)"
  unfolding js_difference_def by (induction b arbitrary: a) auto

section \<open>Paths\<close>

definition adjacencyNodes :: "IConnectionAdjacencyList \<Rightarrow> string set" where
  "adjacencyNodes adj = (\<Union>(n, cs) \<in> set adj. insert n (con_node ` set cs))"

text \<open>The loop of \<open>hasPath\<close>; the top of the array \<^verbatim>\<open>paths\<close>, its last element, comes first. A node can be
  on the stack more than once.\<close>

function hasPathLoop ::
    "string \<Rightarrow> IConnectionAdjacencyList \<Rightarrow> string list \<Rightarrow> string list \<Rightarrow> bool" where
  "hasPathLoop end' adj seen [] = False"
| "hasPathLoop end' adj seen (next # paths) =
     (if next = end' then True
      else
        let seen' = set_add seen next
        in hasPathLoop end' adj seen'
             (rev (js_difference (set_add_all [] (mainTargets adj next)) seen') @ paths))"
  by pat_completeness auto

lemma finite_adjacencyNodes [simp]: "finite (adjacencyNodes adj)"
  by (auto simp: adjacencyNodes_def)

lemma mainTargets_nodes: "m \<in> set (mainTargets adj n) \<Longrightarrow> n \<in> adjacencyNodes adj \<and> m \<in> adjacencyNodes adj"
proof -
  assume "m \<in> set (mainTargets adj n)"
  then obtain c where c: "c \<in> set (adjacent adj n)" "con_node c = m" by (auto simp: mainTargets_def)
  then obtain cs where "jget adj n = Some cs" "c \<in> set cs" by (cases "jget adj n") (auto simp: adjacent_def)
  with c have "(n, cs) \<in> set adj" "m \<in> con_node ` set cs" by (auto dest: map_of_SomeD)
  then show ?thesis unfolding adjacencyNodes_def by blast
qed

text \<open>Popping a node that was seen, or is in no connection, pushes nothing of that kind.\<close>

definition settledOnStack :: "IConnectionAdjacencyList \<Rightarrow> string list \<Rightarrow> string list \<Rightarrow> nat" where
  "settledOnStack adj seen paths =
     length (filter (\<lambda>x. x \<in> set seen \<or> x \<notin> adjacencyNodes adj) paths)"

lemma settledOnStack_push:
  assumes "next \<in> set seen \<or> next \<notin> adjacencyNodes adj"
  shows "settledOnStack adj (set_add seen next)
      (rev (js_difference (set_add_all [] (mainTargets adj next)) (set_add seen next)) @ paths)
    < settledOnStack adj seen (next # paths)"
proof -
  let ?new = "js_difference (set_add_all [] (mainTargets adj next)) (set_add seen next)"
  have "x \<notin> set (set_add seen next) \<and> x \<in> adjacencyNodes adj" if "x \<in> set ?new" for x
    using that mainTargets_nodes by auto
  then have "filter (\<lambda>x. x \<in> set (set_add seen next) \<or> x \<notin> adjacencyNodes adj) (rev ?new) = []"
    unfolding filter_empty_conv set_rev by blast
  moreover have "filter (\<lambda>x. x \<in> set (set_add seen next) \<or> x \<notin> adjacencyNodes adj) paths =
      filter (\<lambda>x. x \<in> set seen \<or> x \<notin> adjacencyNodes adj) paths"
    using assms by (intro filter_cong) auto
  ultimately show ?thesis using assms by (simp add: settledOnStack_def del: set_set_add)
qed

termination hasPathLoop
proof (relation "inv_image (less_than <*lex*> less_than)
    (\<lambda>(e, adj, seen, paths). (card (adjacencyNodes adj - set seen), settledOnStack adj seen paths))",
    goal_cases)
  case (2 e adj seen n paths seen')
  show ?case
  proof (cases "n \<in> set seen \<or> n \<notin> adjacencyNodes adj")
    case True
    then have "adjacencyNodes adj - set (set_add seen n) = adjacencyNodes adj - set seen" by auto
    with 2 settledOnStack_push[OF True] show ?thesis by simp
  next
    case False
    then have "card (adjacencyNodes adj - set (set_add seen n)) < card (adjacencyNodes adj - set seen)"
      by (intro psubset_card_mono) auto
    with 2 show ?thesis by simp
  qed
qed auto

definition hasPath :: "string \<Rightarrow> string \<Rightarrow> IConnectionAdjacencyList \<Rightarrow> bool" where
  "hasPath start end' adjacencyList = hasPathLoop end' adjacencyList [] [start]"

definition mainEdges :: "IConnectionAdjacencyList \<Rightarrow> (string \<times> string) set" where
  "mainEdges adj = {(a, b). b \<in> set (mainTargets adj a)}"

lemma hasPathLoop_ok:
  assumes "\<forall>a \<in> set seen. \<forall>b. (a, b) \<in> mainEdges adj \<longrightarrow> b \<in> set seen \<union> set paths"
    and "end' \<notin> set seen" and "set seen \<union> set paths \<subseteq> (mainEdges adj)\<^sup>* `` {start}"
    and "start \<in> set seen \<union> set paths"
  shows "hasPathLoop end' adj seen paths \<longleftrightarrow> (start, end') \<in> (mainEdges adj)\<^sup>*"
  using assms
proof (induction end' adj seen paths rule: hasPathLoop.induct)
  case (1 end' adj seen)
  have "b \<in> set seen" if "(start, b) \<in> (mainEdges adj)\<^sup>*" for b
    using that by (induction rule: rtrancl_induct) (use 1 in auto)
  with 1(2) show ?case by auto
next
  case (2 end' adj seen n paths)
  show ?case
  proof (cases "n = end'")
    case True
    with 2(4) show ?thesis by auto
  next
    case False
    let ?seen = "set_add seen n"
    let ?new = "js_difference (set_add_all [] (mainTargets adj n)) ?seen"
    have new: "set ?new = {b. (n, b) \<in> mainEdges adj} - set ?seen" by (auto simp: mainEdges_def)
    have "hasPathLoop end' adj ?seen (rev ?new @ paths) \<longleftrightarrow> (start, end') \<in> (mainEdges adj)\<^sup>*"
    proof (rule 2(1)[OF False refl])
      show "\<forall>a \<in> set ?seen. \<forall>b. (a, b) \<in> mainEdges adj \<longrightarrow> b \<in> set ?seen \<union> set (rev ?new @ paths)"
        using 2(2) new by auto
      show "set ?seen \<union> set (rev ?new @ paths) \<subseteq> (mainEdges adj)\<^sup>* `` {start}"
        using 2(4) new by (auto intro: rtrancl_into_rtrancl)
    qed (use False 2(3,5) in auto)
    with False show ?thesis by (simp add: Let_def)
  qed
qed

lemma hasPath_ok: "hasPath start end' adj \<longleftrightarrow> (start, end') \<in> (mainEdges adj)\<^sup>*"
  unfolding hasPath_def by (rule hasPathLoop_ok) auto

text \<open>\<open>hasPath\<close> ends on every graph, cycles included, and returns true iff a path of main
  connections leads from the start to the end; a node has a path to itself.\<close>

lemma hasPath_reachable: "hasPath start end' adj \<longleftrightarrow> (start, end') \<in> (mainEdges adj)\<^sup>*"
  by (rule hasPath_ok)


section \<open>Extractable selections\<close>

datatype ExtractableErrorResult =
    MultipleInputNodes "string list"
  | MultipleOutputNodes "string list"
  | InputEdgeToNonRootNode string
  | OutputEdgeFromNonLeafNode string
  | NoContinuousPathFromRootToLeaf string string

definition first_of :: "'a list \<Rightarrow> 'a option" where
  "first_of xs = (case xs of [] \<Rightarrow> None | x # _ \<Rightarrow> Some x)"

definition inputNodesOf :: "string list \<Rightarrow> IConnectionAdjacencyList \<Rightarrow> string list" where
  "inputNodesOf graphIds adjacencyList =
     set_add_all [] (map (\<lambda>x. con_node (snd x))
       (filter (\<lambda>x. con_type (snd x) = ''main'') (getInputEdges graphIds adjacencyList)))"

definition outputNodesOf :: "string list \<Rightarrow> IConnectionAdjacencyList \<Rightarrow> string list" where
  "outputNodesOf graphIds adjacencyList =
     set_add_all [] (map fst
       (filter (\<lambda>x. con_type (snd x) = ''main'') (getOutputEdges graphIds adjacencyList)))"

text \<open>A name is truthy when it is defined and not empty.\<close>

definition pathMissing :: "string option \<Rightarrow> string option \<Rightarrow> IConnectionAdjacencyList \<Rightarrow> ExtractableErrorResult list" where
  "pathMissing start end' adjacencyList =
     (case (start, end') of
        (Some s, Some e) \<Rightarrow>
          if s \<noteq> [] \<and> e \<noteq> [] \<and> \<not> hasPath s e adjacencyList
          then [NoContinuousPathFromRootToLeaf s e] else []
      | _ \<Rightarrow> [])"

definition parseExtractableSubgraphSelection ::
    "string list \<Rightarrow> IConnectionAdjacencyList \<Rightarrow>
     ExtractableErrorResult list + (string option \<times> string option)" where
  "parseExtractableSubgraphSelection graphIds adjacencyList =
     (let inputNodes = inputNodesOf graphIds adjacencyList;
          roots = getRootNodes graphIds adjacencyList;
          rootNodes = (if length roots = 0 \<and> length inputNodes = 1 then inputNodes else roots);
          errors1 = map InputEdgeToNonRootNode (js_difference inputNodes rootNodes);
          rootInputNodes = js_intersection rootNodes inputNodes;
          errors2 = (if length rootInputNodes > 1 then [MultipleInputNodes rootInputNodes] else []);
          outputNodes = outputNodesOf graphIds adjacencyList;
          leaves = getLeafNodes graphIds adjacencyList;
          leafNodes = (if length leaves = 0 \<and> length outputNodes = 1 then outputNodes else leaves);
          errors3 = map OutputEdgeFromNonLeafNode (js_difference outputNodes leafNodes);
          leafOutputNodes = js_intersection leafNodes outputNodes;
          errors4 = (if length leafOutputNodes > 1 then [MultipleOutputNodes leafOutputNodes] else []);
          start = first_of rootInputNodes;
          end' = first_of leafOutputNodes;
          errors = errors1 @ errors2 @ errors3 @ errors4 @ pathMissing start end' adjacencyList
      in if length errors > 0 then Inl errors else Inr (start, end'))"

lemma mainEdges_entry:
  assumes "jok adj"
  shows "(a, b) \<in> mainEdges adj \<longleftrightarrow>
    (\<exists>cs. (a, cs) \<in> set adj \<and> (\<exists>c \<in> set cs. con_node c = b \<and> con_type c = ''main''))"
proof (cases "jget adj a")
  case None
  then have "(a, cs) \<notin> set adj" for cs using assms by (metis map_of_is_SomeI option.distinct(1))
  with None show ?thesis by (simp add: mainEdges_def mainTargets_def adjacent_def)
next
  case (Some cs)
  then have "(a, cs') \<in> set adj \<longleftrightarrow> cs' = cs" for cs'
    using assms by (metis map_of_is_SomeI map_of_SomeD option.inject)
  with Some show ?thesis by (auto simp: mainEdges_def mainTargets_def adjacent_def)
qed

lemma inputNodesOf_set:
  assumes "jok adj"
  shows "set (inputNodesOf G adj) = {b \<in> set G. \<exists>a. a \<notin> set G \<and> (a, b) \<in> mainEdges adj}"
proof -
  have "b \<in> set (inputNodesOf G adj) \<longleftrightarrow>
      (\<exists>a cs. (a, cs) \<in> set adj \<and> a \<notin> set G \<and> (\<exists>c \<in> set cs. con_node c = b \<and> con_type c = ''main'' \<and> b \<in> set G))" for b
    by (force simp: inputNodesOf_def getInputEdges_def split: if_splits)
  with mainEdges_entry[OF assms] show ?thesis by blast
qed

lemma getOutputEdges_mem:
  "(a, c) \<in> set (getOutputEdges G adj) \<longleftrightarrow>
     (\<exists>cs. (a, cs) \<in> set adj \<and> a \<in> set G \<and> c \<in> set cs \<and> con_node c \<notin> set G)"
proof -
  have "(a, c) \<in> set (if n \<notin> set G then [] else map (\<lambda>to. (n, to)) (filter (\<lambda>to. con_node to \<notin> set G) cs)) \<longleftrightarrow>
      a = n \<and> n \<in> set G \<and> c \<in> set cs \<and> con_node c \<notin> set G" for n cs by auto
  then show ?thesis unfolding getOutputEdges_def set_concat set_map by (auto simp del: set_map)
qed

lemma outputNodesOf_set:
  assumes "jok adj"
  shows "set (outputNodesOf G adj) = {a \<in> set G. \<exists>b. b \<notin> set G \<and> (a, b) \<in> mainEdges adj}"
proof -
  have o: "a \<in> set (outputNodesOf G adj) \<longleftrightarrow>
      a \<in> fst ` {x \<in> set (getOutputEdges G adj). con_type (snd x) = ''main''}" for a
    by (simp add: outputNodesOf_def)
  show ?thesis
  proof (intro set_eqI iffI)
    fix a assume "a \<in> set (outputNodesOf G adj)"
    then obtain x where x: "x \<in> set (getOutputEdges G adj)" "con_type (snd x) = ''main''" "fst x = a"
      unfolding o by (elim imageE CollectE conjE) simp
    then have "(a, snd x) \<in> set (getOutputEdges G adj)" by auto
    then obtain cs where cs: "(a, cs) \<in> set adj" "a \<in> set G" "snd x \<in> set cs" "con_node (snd x) \<notin> set G"
      unfolding getOutputEdges_mem by (elim exE conjE)
    with x(2) have "(a, con_node (snd x)) \<in> mainEdges adj"
      unfolding mainEdges_entry[OF assms] by (intro exI[of _ cs] conjI bexI[of _ "snd x"] refl)
    with cs show "a \<in> {a \<in> set G. \<exists>b. b \<notin> set G \<and> (a, b) \<in> mainEdges adj}" by auto
  next
    fix a assume "a \<in> {a \<in> set G. \<exists>b. b \<notin> set G \<and> (a, b) \<in> mainEdges adj}"
    then obtain b where b: "a \<in> set G" "b \<notin> set G" "(a, b) \<in> mainEdges adj"
      by (elim CollectE conjE exE)
    then obtain cs c where c: "(a, cs) \<in> set adj" "c \<in> set cs" "con_node c = b" "con_type c = ''main''"
      unfolding mainEdges_entry[OF assms] by (elim exE conjE bexE)
    with b have "(a, c) \<in> set (getOutputEdges G adj)"
      unfolding getOutputEdges_mem by (intro exI[of _ cs]) simp
    with c(4) show "a \<in> set (outputNodesOf G adj)"
      unfolding o by (intro image_eqI[of _ _ "(a, c)"]) simp_all
  qed
qed

lemma single_first: "distinct xs \<Longrightarrow> \<not> length xs > 1 \<Longrightarrow> x \<in> set xs \<Longrightarrow> first_of xs = Some x"
  by (cases xs) (auto simp: first_of_def)

lemma first_of_mem: "first_of xs = Some x \<Longrightarrow> x \<in> set xs"
  by (cases xs) (auto simp: first_of_def)

lemma js_difference_Nil: "js_difference a b = [] \<longleftrightarrow> set a \<subseteq> set b"
  by (metis Diff_eq_empty_iff js_difference_set set_empty)

lemma distinct_inputNodesOf [simp]: "distinct (inputNodesOf G adj)"
  and distinct_outputNodesOf [simp]: "distinct (outputNodesOf G adj)"
  by (simp_all add: inputNodesOf_def outputNodesOf_def)

lemma distinct_getRootNodes [simp]: "distinct G \<Longrightarrow> distinct (getRootNodes G adj)"
  by (simp add: getRootNodes_def Let_def)

lemma distinct_getLeafNodes [simp]: "distinct (getLeafNodes G adj)"
proof -
  have "distinct acc \<Longrightarrow> distinct (foldl (\<lambda>result nodeId.
         if length (js_intersection (set_add_all [] (otherTargets adj nodeId)) G) = 0
         then set_add result nodeId else result) acc ns)" for acc ns
    by (induction ns arbitrary: acc) auto
  then show ?thesis by (simp add: getLeafNodes_def)
qed

lemma distinct_if: "distinct a \<Longrightarrow> distinct b \<Longrightarrow> distinct (if P then a else b)"
  by simp

lemma parse_ok:
  assumes ok: "jok adj" "distinct G"
    and r: "parseExtractableSubgraphSelection G adj = Inr (start, end')"
  shows "(\<forall>a b. a \<notin> set G \<longrightarrow> b \<in> set G \<longrightarrow> (a, b) \<in> mainEdges adj \<longrightarrow> start = Some b) \<and>
    (\<forall>a b. a \<in> set G \<longrightarrow> b \<notin> set G \<longrightarrow> (a, b) \<in> mainEdges adj \<longrightarrow> end' = Some a) \<and>
    (\<forall>s e. start = Some s \<longrightarrow> end' = Some e \<longrightarrow> s \<noteq> [] \<longrightarrow> e \<noteq> [] \<longrightarrow> (s, e) \<in> (mainEdges adj)\<^sup>*)"
proof -
  let ?in = "inputNodesOf G adj" and ?out = "outputNodesOf G adj"
  define roots where "roots = (if length (getRootNodes G adj) = 0 \<and> length ?in = 1 then ?in else getRootNodes G adj)"
  define leaves where "leaves = (if length (getLeafNodes G adj) = 0 \<and> length ?out = 1 then ?out else getLeafNodes G adj)"
  let ?ri = "js_intersection roots ?in" and ?lo = "js_intersection leaves ?out"
  let ?errors = "map InputEdgeToNonRootNode (js_difference ?in roots) @
    (if length ?ri > 1 then [MultipleInputNodes ?ri] else []) @
    map OutputEdgeFromNonLeafNode (js_difference ?out leaves) @
    (if length ?lo > 1 then [MultipleOutputNodes ?lo] else []) @
    pathMissing (first_of ?ri) (first_of ?lo) adj"
  have "(if length ?errors > 0 then Inl ?errors else Inr (first_of ?ri, first_of ?lo)) = Inr (start, end')"
    unfolding roots_def leaves_def using r unfolding parseExtractableSubgraphSelection_def Let_def .
  then have e: "?errors = []" and se: "start = first_of ?ri" "end' = first_of ?lo"
    by (simp_all only: length_greater_0_conv split: if_splits) simp_all
  from e have i: "set ?in \<subseteq> set roots" "\<not> length ?ri > 1" and l: "set ?out \<subseteq> set leaves" "\<not> length ?lo > 1"
    and p: "pathMissing (first_of ?ri) (first_of ?lo) adj = []"
    by (simp_all only: append_is_Nil_conv map_is_Nil_conv js_difference_Nil) (simp_all split: if_splits)
  have d: "distinct ?ri" "distinct ?lo" using ok(2)
    unfolding roots_def leaves_def by (intro distinct_js_intersection distinct_if; simp)+
  have "start = Some b" if "a \<notin> set G" "b \<in> set G" "(a, b) \<in> mainEdges adj" for a b
  proof -
    have "b \<in> set ?in" using that inputNodesOf_set[OF ok(1)] by blast
    with i(1) have "b \<in> set ?ri" unfolding js_intersection_set by blast
    from single_first[OF d(1) i(2) this] show ?thesis using se by simp
  qed
  moreover have "end' = Some a" if "a \<in> set G" "b \<notin> set G" "(a, b) \<in> mainEdges adj" for a b
  proof -
    have "a \<in> set ?out" using that outputNodesOf_set[OF ok(1)] by blast
    with l(1) have "a \<in> set ?lo" unfolding js_intersection_set by blast
    from single_first[OF d(2) l(2) this] show ?thesis using se by simp
  qed
  moreover have "(s, e) \<in> (mainEdges adj)\<^sup>*" if "start = Some s" "end' = Some e" "s \<noteq> []" "e \<noteq> []" for s e
  proof -
    have "pathMissing (Some s) (Some e) adj = []" using p se that by simp
    with that(3,4) show ?thesis by (simp add: pathMissing_def hasPath_ok split: if_splits)
  qed
  ultimately show ?thesis by blast
qed

text \<open>C24: When \<open>parseExtractableSubgraphSelection\<close> accepts a selection, every main connection into the
  selection ends at the reported start, every main connection out of it leaves from the reported end,
  and a path of main connections leads from the one to the other when both exist.\<close>

theorem parseExtractableSubgraphSelection_sound:
  assumes "jok adj" "distinct G" "parseExtractableSubgraphSelection G adj = Inr (start, end')"
  shows "(\<forall>a b. a \<notin> set G \<longrightarrow> b \<in> set G \<longrightarrow> (a, b) \<in> mainEdges adj \<longrightarrow> start = Some b) \<and>
    (\<forall>a b. a \<in> set G \<longrightarrow> b \<notin> set G \<longrightarrow> (a, b) \<in> mainEdges adj \<longrightarrow> end' = Some a) \<and>
    (\<forall>s e. start = Some s \<longrightarrow> end' = Some e \<longrightarrow> s \<noteq> [] \<longrightarrow> e \<noteq> [] \<longrightarrow> (s, e) \<in> (mainEdges adj)\<^sup>*)"
  by (rule parse_ok[OF assms])

lemma parseExtractableSubgraphSelection_sound_witness:
  "let adj = buildAdjacencyList (sample_connections [(''a'', ''b''), (''b'', ''c''), (''c'', ''d'')])
   in (''b'', ''c'') \<in> (mainEdges adj)\<^sup>*"
proof -
  let ?adj = "buildAdjacencyList (sample_connections [(''a'', ''b''), (''b'', ''c''), (''c'', ''d'')])"
  have hyps: "jok ?adj" "distinct [''b'', ''c'']"
    "parseExtractableSubgraphSelection [''b'', ''c''] ?adj = Inr (Some ''b'', Some ''c'')" by code_simp+
  from parseExtractableSubgraphSelection_sound[OF hyps] show ?thesis unfolding Let_def by blast
qed

end
