(* ===== verification/Concurrency_Queue.thy ===== *)
theory Concurrency_Queue
  imports Prelude "HOL-Library.Multiset"
begin

text \<open>
  \<^verbatim>\<open>packages/cli/src/concurrency/concurrency-queue.ts\<close>: the queue that limits how many executions run
  at once. An element of the array \<^verbatim>\<open>queue\<close> is the id of the execution whose promise is pending;
  resolving the promise is the event \<open>ExecutionReleased\<close>, after which the execution runs. The locale
  \<open>step_system\<close> is the contract of an inductive invariant.
\<close>

section \<open>The class\<close>

record ConcurrencyQueue =
  cq_capacity :: int
  cq_queue :: "string list"

datatype concurrency_event =
    ConcurrencyCheck int
  | ExecutionThrottled string
  | ExecutionReleased string

definition new_queue :: "int \<Rightarrow> ConcurrencyQueue" where
  "new_queue capacity = \<lparr>cq_capacity = capacity, cq_queue = []\<rparr>"

text \<open>The last component says whether the returned promise is pending.\<close>

definition enqueue :: "ConcurrencyQueue \<Rightarrow> string \<Rightarrow> ConcurrencyQueue \<times> concurrency_event list \<times> bool" where
  "enqueue q executionId =
     (let q1 = q\<lparr>cq_capacity := cq_capacity q - 1\<rparr>
      in if cq_capacity q1 < 0
         then (q1\<lparr>cq_queue := cq_queue q1 @ [executionId]\<rparr>,
               [ConcurrencyCheck (cq_capacity q1), ExecutionThrottled executionId], True)
         else (q1, [ConcurrencyCheck (cq_capacity q1)], False))"

definition resolveNext :: "ConcurrencyQueue \<Rightarrow> ConcurrencyQueue \<times> concurrency_event list" where
  "resolveNext q =
     (case cq_queue q of
        [] \<Rightarrow> (q, [])
      | item # rest \<Rightarrow> (q\<lparr>cq_queue := rest\<rparr>, [ExecutionReleased item]))"

definition dequeue :: "ConcurrencyQueue \<Rightarrow> ConcurrencyQueue \<times> concurrency_event list" where
  "dequeue q = resolveNext (q\<lparr>cq_capacity := cq_capacity q + 1\<rparr>)"

definition remove_queued :: "ConcurrencyQueue \<Rightarrow> string \<Rightarrow> ConcurrencyQueue \<times> concurrency_event list" where
  "remove_queued q executionId =
     (if executionId \<in> set (cq_queue q)
      then resolveNext (q\<lparr>cq_queue := remove1 executionId (cq_queue q), cq_capacity := cq_capacity q + 1\<rparr>)
      else (q, []))"

definition getAll :: "ConcurrencyQueue \<Rightarrow> string list" where
  "getAll q = set_add_all [] (cq_queue q)"

definition has_queued :: "ConcurrencyQueue \<Rightarrow> string \<Rightarrow> bool" where
  "has_queued q executionId = list_ex (\<lambda>item. item = executionId) (cq_queue q)"

definition released :: "concurrency_event list \<Rightarrow> string list" where
  "released es = List.map_filter (\<lambda>e. case e of ExecutionReleased i \<Rightarrow> Some i | _ \<Rightarrow> None) es"

section \<open>Invariants of step relations\<close>

locale step_system =
  fixes init :: 's
    and step :: "'s \<Rightarrow> 's \<Rightarrow> bool"
    and inv :: "'s \<Rightarrow> bool"
  assumes inv_init: "inv init"
    and inv_step: "inv s \<Longrightarrow> step s t \<Longrightarrow> inv t"
begin

lemma inv_reachable: "step\<^sup>*\<^sup>* init s \<Longrightarrow> inv s"
  by (induction rule: rtranclp_induct) (auto intro: inv_init inv_step)

end

section \<open>Executions under a limit\<close>

text \<open>An execution asks for capacity and runs once its promise resolves; when it ends, the queue is
  told by \<open>dequeue\<close>. A queued execution may be cancelled, which calls \<open>remove\<close>. \<open>arrived\<close> and
  \<open>started\<close> record the order.\<close>

record Executions =
  ex_queue :: ConcurrencyQueue
  ex_running :: "string multiset"
  ex_arrived :: "string list"
  ex_started :: "string list"

definition run_all :: "string list \<Rightarrow> Executions \<Rightarrow> Executions" where
  "run_all ids s = s\<lparr>ex_running := ex_running s + mset ids, ex_started := ex_started s @ ids\<rparr>"

inductive exec_step :: "Executions \<Rightarrow> Executions \<Rightarrow> bool" where
  arrive: "enqueue (ex_queue s) i = (q, es, pending) \<Longrightarrow>
    exec_step s (run_all (if pending then [] else [i]) (s\<lparr>ex_queue := q, ex_arrived := ex_arrived s @ [i]\<rparr>))"
| finish: "i \<in># ex_running s \<Longrightarrow> dequeue (ex_queue s) = (q, es) \<Longrightarrow>
    exec_step s (run_all (released es) (s\<lparr>ex_queue := q, ex_running := ex_running s - {#i#}\<rparr>))"

inductive cancel_step :: "Executions \<Rightarrow> Executions \<Rightarrow> bool" where
  cancel: "remove_queued (ex_queue s) i = (q, es) \<Longrightarrow>
    cancel_step s (run_all (released es) (s\<lparr>ex_queue := q\<rparr>))"

inductive_cases exec_stepE: "exec_step s t"
inductive_cases cancel_stepE: "cancel_step s t"
inductive_simps exec_step_simps: "exec_step s t"

definition exec_init :: "nat \<Rightarrow> Executions" where
  "exec_init limit = \<lparr>ex_queue = new_queue (int limit), ex_running = {#}, ex_arrived = [], ex_started = []\<rparr>"

definition within_limit :: "nat \<Rightarrow> Executions \<Rightarrow> bool" where
  "within_limit limit s \<longleftrightarrow>
     cq_capacity (ex_queue s) = int limit - int (size (ex_running s)) - int (length (cq_queue (ex_queue s))) \<and>
     size (ex_running s) \<le> limit \<and> (cq_queue (ex_queue s) \<noteq> [] \<longrightarrow> size (ex_running s) = limit) \<and>
     ex_arrived s = ex_started s @ cq_queue (ex_queue s)"

lemmas queue_defs = enqueue_def dequeue_def remove_queued_def resolveNext_def new_queue_def released_def
  List.map_filter_def run_all_def

lemma within_limit_init: "within_limit limit (exec_init limit)"
  by (simp add: within_limit_def exec_init_def new_queue_def)

lemma within_limit_step:
  assumes inv: "within_limit limit s" and step: "exec_step s t"
  shows "within_limit limit t"
  using step
proof (cases rule: exec_step.cases)
  case (arrive i q es pending)
  have full: "cq_queue (ex_queue s) = []" if "cq_capacity (ex_queue s) > 0"
    using inv that by (auto simp: within_limit_def)
  show ?thesis
  proof (cases "cq_capacity (ex_queue s) - 1 < 0")
    case True
    then have "size (ex_running s) = limit"
      using inv by (cases "cq_queue (ex_queue s)") (auto simp: within_limit_def)
    with inv arrive True show ?thesis
      by (auto simp: within_limit_def enqueue_def run_all_def Let_def)
  next
    case False
    with inv full arrive show ?thesis
      by (auto simp: within_limit_def enqueue_def run_all_def Let_def)
  qed
next
  case (finish i q es)
  have size: "size (ex_running s - {#i#}) = size (ex_running s) - 1" "size (ex_running s) > 0"
    using finish(2) multi_member_split[of i "ex_running s"] by (auto simp: size_Diff_singleton)
  show ?thesis
  proof (cases "cq_queue (ex_queue s)")
    case Nil
    with finish(3) have q: "q = (ex_queue s)\<lparr>cq_capacity := cq_capacity (ex_queue s) + 1\<rparr>" "released es = []"
      by (auto simp: dequeue_def resolveNext_def released_def List.map_filter_def)
    with finish(1) inv Nil size show ?thesis by (auto simp: within_limit_def run_all_def)
  next
    case (Cons x xs)
    with finish(3) have q: "q = (ex_queue s)\<lparr>cq_capacity := cq_capacity (ex_queue s) + 1, cq_queue := xs\<rparr>"
      "released es = [x]"
      by (auto simp: dequeue_def resolveNext_def released_def List.map_filter_def)
    with finish(1) inv Cons size show ?thesis by (auto simp: within_limit_def run_all_def)
  qed
qed

interpretation limited: step_system "exec_init limit" exec_step "within_limit limit" for limit
  by unfold_locales (auto intro: within_limit_init within_limit_step)

lemma arrive_free:
  assumes "cq_capacity (ex_queue s) > 0"
  shows "exec_step s (s\<lparr>ex_queue := (ex_queue s)\<lparr>cq_capacity := cq_capacity (ex_queue s) - 1\<rparr>,
    ex_arrived := ex_arrived s @ [i], ex_running := ex_running s + {#i#}, ex_started := ex_started s @ [i]\<rparr>)"
  using arrive[of s i "(ex_queue s)\<lparr>cq_capacity := cq_capacity (ex_queue s) - 1\<rparr>"
      "[ConcurrencyCheck (cq_capacity (ex_queue s) - 1)]" False] assms
  by (simp add: enqueue_def run_all_def)

lemma arrive_throttled:
  assumes "cq_capacity (ex_queue s) \<le> 0"
  shows "exec_step s (s\<lparr>ex_queue := (ex_queue s)\<lparr>cq_capacity := cq_capacity (ex_queue s) - 1,
      cq_queue := cq_queue (ex_queue s) @ [i]\<rparr>, ex_arrived := ex_arrived s @ [i]\<rparr>)"
  using arrive[of s i "(ex_queue s)\<lparr>cq_capacity := cq_capacity (ex_queue s) - 1,
      cq_queue := cq_queue (ex_queue s) @ [i]\<rparr>"
      "[ConcurrencyCheck (cq_capacity (ex_queue s) - 1), ExecutionThrottled i]" True] assms
  by (simp add: enqueue_def run_all_def)

definition one_running :: Executions where
  "one_running = \<lparr>ex_queue = \<lparr>cq_capacity = 0, cq_queue = []\<rparr>, ex_running = {#''1''#},
    ex_arrived = [''1''], ex_started = [''1'']\<rparr>"

definition one_queued :: Executions where
  "one_queued = \<lparr>ex_queue = \<lparr>cq_capacity = -1, cq_queue = [''2'']\<rparr>, ex_running = {#''1''#},
    ex_arrived = [''1'', ''2''], ex_started = [''1'']\<rparr>"

definition two_queued :: Executions where
  "two_queued = \<lparr>ex_queue = \<lparr>cq_capacity = -2, cq_queue = [''2'', ''3'']\<rparr>, ex_running = {#''1''#},
    ex_arrived = [''1'', ''2'', ''3''], ex_started = [''1'']\<rparr>"

lemma to_one_running: "exec_step (exec_init 1) one_running"
  using arrive_free[of "exec_init 1" "''1''"] by (simp add: exec_init_def new_queue_def one_running_def)

lemma to_one_queued: "exec_step one_running one_queued"
  using arrive_throttled[of one_running "''2''"] by (simp add: one_running_def one_queued_def)

lemma to_two_queued: "exec_step one_queued two_queued"
  using arrive_throttled[of one_queued "''3''"] by (simp add: one_queued_def two_queued_def)

lemmas queued_up =
  rtranclp.rtrancl_into_rtrancl[OF r_into_rtranclp[of exec_step, OF to_one_running] to_one_queued]

text \<open>C25: As long as executions only arrive and finish, never more than the limit run at once, an
  execution waits only while the limit is reached, the capacity counter is the limit less the running
  and the waiting ones, and executions start in the order they arrived.\<close>

theorem concurrency_limit_respected:
  assumes "exec_step\<^sup>*\<^sup>* (exec_init limit) s"
  shows "size (ex_running s) \<le> limit \<and>
    (cq_queue (ex_queue s) \<noteq> [] \<longrightarrow> size (ex_running s) = limit) \<and>
    cq_capacity (ex_queue s) = int limit - int (size (ex_running s)) - int (length (cq_queue (ex_queue s))) \<and>
    ex_arrived s = ex_started s @ cq_queue (ex_queue s)"
  using limited.inv_reachable[OF assms] by (simp add: within_limit_def)

lemma concurrency_limit_respected_witness:
  "size (ex_running one_queued) \<le> 1 \<and> ex_arrived one_queued = [''1''] @ [''2'']"
  using concurrency_limit_respected[OF queued_up] by (simp add: one_queued_def)

section \<open>Cancelling\<close>

text \<open>Cancelling a queued execution lets the next one run although none has ended: under a limit of
  one, with an execution running and two queued, removing the first of these leaves two running. The
  capacity counter then no longer stops at the limit either.\<close>

lemma cancel_exceeds_limit:
  "\<exists>s t. exec_step\<^sup>*\<^sup>* (exec_init 1) s \<and> cancel_step s t \<and> ex_running t = {#''1'', ''3''#} \<and>
     cq_queue (ex_queue t) = []"
proof -
  let ?t = "run_all [''3''] (two_queued\<lparr>ex_queue := \<lparr>cq_capacity = -1, cq_queue = []\<rparr>\<rparr>)"
  have "exec_step\<^sup>*\<^sup>* (exec_init 1) two_queued"
    by (rule rtranclp.rtrancl_into_rtrancl[OF queued_up to_two_queued])
  moreover have "cancel_step two_queued ?t"
    using cancel[of two_queued "''2''" "\<lparr>cq_capacity = -1, cq_queue = []\<rparr>" "[ExecutionReleased ''3'']"]
    by (simp add: remove_queued_def resolveNext_def released_def List.map_filter_def two_queued_def)
  moreover have "ex_running ?t = {#''1'', ''3''#}" "cq_queue (ex_queue ?t) = []"
    by (simp_all add: run_all_def two_queued_def)
  ultimately show ?thesis by metis
qed

end
