(* ===== verification/Concurrency_Control.thy ===== *)
theory Concurrency_Control
  imports Concurrency_Queue
begin

text \<open>
  \<^verbatim>\<open>packages/cli/src/concurrency/concurrency-control.service.ts\<close>,
  \<^verbatim>\<open>concurrency-capacity-reservation.ts\<close> and \<^verbatim>\<open>evaluation.ee/evaluation-concurrency.helper.ts\<close>: the
  service that owns one queue for production executions and one for evaluations. A queue object is
  the entry of its type in the map \<^verbatim>\<open>queues\<close>. The license and the configuration are the record
  \<open>Environment\<close>; the tier table is looked up by its own keys only. Log output is not modelled.
\<close>

section \<open>Configuration and limits\<close>

datatype WorkflowExecuteMode =
    Mode_cli | Mode_error | Mode_integrated | Mode_internal | Mode_manual | Mode_retry | Mode_trigger
  | Mode_webhook | Mode_evaluation | Mode_chat | Mode_agent

datatype ConcurrencyQueueType = Production | Evaluation

datatype concurrency_error =
    InvalidConcurrencyLimit int
  | UnknownExecutionMode WorkflowExecuteMode
  | CapacityAlreadyReserved
  | QueuesUndefined

record Environment =
  env_productionLimit :: int
  env_evaluationLimit :: int
  env_queueMode :: bool
  env_cloud :: bool
  env_evaluationSet :: bool
  env_quota :: "int option"
  env_planName :: string

definition readLicenseQuota :: "Environment \<Rightarrow> int option" where
  "readLicenseQuota env =
     (case env_quota env of None \<Rightarrow> None | Some raw \<Rightarrow> if raw = 0 then None else Some raw)"

definition EVALUATION_TIER_DEFAULTS :: "(string, int) jsmap" where
  "EVALUATION_TIER_DEFAULTS = [(''Community'', 1), (''Pro'', 1), (''Business'', 3), (''Enterprise'', 5)]"

definition resolveEvaluationConcurrencyLimit :: "Environment \<Rightarrow> int" where
  "resolveEvaluationConcurrencyLimit env =
     (if env_evaluationSet env then env_evaluationLimit env
      else case readLicenseQuota env of
          Some fromLicense \<Rightarrow> fromLicense
        | None \<Rightarrow> (case jget EVALUATION_TIER_DEFAULTS (env_planName env) of Some l \<Rightarrow> l | None \<Rightarrow> 1))"

datatype limit_source = From_env | From_license | From_tier

definition getEvaluationConcurrencyLimitSource :: "Environment \<Rightarrow> limit_source" where
  "getEvaluationConcurrencyLimitSource env =
     (if env_evaluationSet env then From_env
      else if readLicenseQuota env \<noteq> None then From_license else From_tier)"

definition normaliseLimit :: "int \<Rightarrow> concurrency_error + int" where
  "normaliseLimit limit = (if limit = 0 then Inl (InvalidConcurrencyLimit 0)
     else Inr (if limit < -1 then -1 else limit))"

section \<open>The service\<close>

record ControlService =
  cc_isEnabled :: bool
  cc_limits :: "(ConcurrencyQueueType, int) jsmap"
  cc_queues :: "(ConcurrencyQueueType, ConcurrencyQueue) jsmap option"
  cc_evalQueueResolved :: bool

text \<open>What the listeners of \<^verbatim>\<open>wireQueue\<close> do with an event of a queue.\<close>

datatype control_event =
    TrackLimit int ConcurrencyQueueType
  | EmitThrottled string ConcurrencyQueueType
  | PromiseResolved string

definition limitsToReport :: "int list" where
  "limitsToReport = map (\<lambda>t. 999 - t) [5, 10, 20, 50, 100, 200]"

definition shouldReport :: "Environment \<Rightarrow> int \<Rightarrow> bool" where
  "shouldReport env capacity \<longleftrightarrow> env_cloud env \<and> capacity \<in> set limitsToReport"

fun wireQueue :: "Environment \<Rightarrow> ConcurrencyQueueType \<Rightarrow> concurrency_event \<Rightarrow> control_event list" where
  "wireQueue env type (ConcurrencyCheck capacity) =
     (if shouldReport env capacity then [TrackLimit (999 - capacity) type] else [])"
| "wireQueue env type (ExecutionThrottled executionId) = [EmitThrottled executionId type]"
| "wireQueue env type (ExecutionReleased executionId) = [PromiseResolved executionId]"

definition new_service :: "Environment \<Rightarrow> concurrency_error + ControlService" where
  "new_service env =
     (case normaliseLimit (env_productionLimit env) of Inl e \<Rightarrow> Inl e | Inr production \<Rightarrow>
      case normaliseLimit (env_evaluationLimit env) of Inl e \<Rightarrow> Inl e | Inr evaluation \<Rightarrow>
        let limits = [(Production, production), (Evaluation, evaluation)]
        in if env_queueMode env
           then Inr \<lparr>cc_isEnabled = False, cc_limits = limits, cc_queues = None, cc_evalQueueResolved = False\<rparr>
           else let queues0 = if production > 0 then jset [] Production (new_queue production) else [];
                    queues = if evaluation > 0 then jset queues0 Evaluation (new_queue evaluation) else queues0
                in Inr \<lparr>cc_isEnabled = (queues \<noteq> []), cc_limits = limits, cc_queues = Some queues,
                        cc_evalQueueResolved = (evaluation > 0)\<rparr>)"

definition ensureEvalQueueResolved :: "Environment \<Rightarrow> ControlService \<Rightarrow> concurrency_error + ControlService" where
  "ensureEvalQueueResolved env c =
     (if cc_evalQueueResolved c then Inr c
      else let c1 = c\<lparr>cc_evalQueueResolved := True\<rparr>
        in if env_queueMode env then Inr c1
           else case normaliseLimit (resolveEvaluationConcurrencyLimit env) of
               Inl e \<Rightarrow> Inl e
             | Inr normalised \<Rightarrow>
                 let c2 = c1\<lparr>cc_limits := jset (cc_limits c1) Evaluation normalised\<rparr>
                 in if normalised > 0
                    then (case cc_queues c2 of
                        None \<Rightarrow> Inl QueuesUndefined
                      | Some qs \<Rightarrow> Inr (c2\<lparr>cc_queues := Some (jset qs Evaluation (new_queue normalised)),
                                           cc_isEnabled := True\<rparr>))
                    else Inr c2)"

definition lookupQueue ::
    "ControlService \<Rightarrow> ConcurrencyQueueType \<Rightarrow> concurrency_error + (ConcurrencyQueueType \<times> ConcurrencyQueue) option" where
  "lookupQueue c type =
     (case cc_queues c of None \<Rightarrow> Inl QueuesUndefined | Some qs \<Rightarrow> Inr (map_option (Pair type) (jget qs type)))"

definition getQueue ::
    "ControlService \<Rightarrow> WorkflowExecuteMode \<Rightarrow> concurrency_error + (ConcurrencyQueueType \<times> ConcurrencyQueue) option" where
  "getQueue c mode =
     (if mode \<in> {Mode_error, Mode_integrated, Mode_cli, Mode_internal, Mode_manual, Mode_retry} then Inr None
      else if mode \<in> {Mode_webhook, Mode_trigger, Mode_chat} then lookupQueue c Production
      else if mode = Mode_evaluation then lookupQueue c Evaluation
      else Inl (UnknownExecutionMode mode))"

definition isUnlimited :: "ControlService \<Rightarrow> WorkflowExecuteMode \<Rightarrow> concurrency_error + bool" where
  "isUnlimited c mode = (case getQueue c mode of Inl e \<Rightarrow> Inl e | Inr q \<Rightarrow> Inr (q = None))"

text \<open>The common body of \<^verbatim>\<open>throttle\<close>, \<^verbatim>\<open>release\<close> and \<^verbatim>\<open>remove\<close>: the guards, then a call on the
  queue of the mode. The last component of the result is what the call returned.\<close>

definition on_queue :: "Environment \<Rightarrow> (ConcurrencyQueue \<Rightarrow> ConcurrencyQueue \<times> concurrency_event list \<times> bool)
    \<Rightarrow> ControlService \<Rightarrow> WorkflowExecuteMode \<Rightarrow> concurrency_error + (ControlService \<times> control_event list \<times> bool)" where
  "on_queue env call c0 mode =
     (case (if mode = Mode_evaluation then ensureEvalQueueResolved env c0 else Inr c0) of
        Inl e \<Rightarrow> Inl e
      | Inr c \<Rightarrow>
          if \<not> cc_isEnabled c then Inr (c, [], False)
          else case isUnlimited c mode of
              Inl e \<Rightarrow> Inl e
            | Inr True \<Rightarrow> Inr (c, [], False)
            | Inr False \<Rightarrow>
                (case getQueue c mode of
                   Inl e \<Rightarrow> Inl e
                 | Inr None \<Rightarrow> Inr (c, [], False)
                 | Inr (Some (type, q)) \<Rightarrow>
                     (case call q of (q', es, pending) \<Rightarrow>
                        Inr (c\<lparr>cc_queues := map_option (\<lambda>qs. jset qs type q') (cc_queues c)\<rparr>,
                             concat (map (wireQueue env type) es), pending))))"

definition throttle :: "Environment \<Rightarrow> ControlService \<Rightarrow> WorkflowExecuteMode \<Rightarrow> string \<Rightarrow>
    concurrency_error + (ControlService \<times> control_event list \<times> bool)" where
  "throttle env c mode executionId = on_queue env (\<lambda>q. enqueue q executionId) c mode"

definition release :: "Environment \<Rightarrow> ControlService \<Rightarrow> WorkflowExecuteMode \<Rightarrow>
    concurrency_error + (ControlService \<times> control_event list \<times> bool)" where
  "release env c mode = on_queue env (\<lambda>q. case dequeue q of (q', es) \<Rightarrow> (q', es, False)) c mode"

definition remove :: "Environment \<Rightarrow> ControlService \<Rightarrow> WorkflowExecuteMode \<Rightarrow> string \<Rightarrow>
    concurrency_error + (ControlService \<times> control_event list \<times> bool)" where
  "remove env c mode executionId =
     on_queue env (\<lambda>q. case remove_queued q executionId of (q', es) \<Rightarrow> (q', es, False)) c mode"

definition has_execution :: "ControlService \<Rightarrow> string \<Rightarrow> concurrency_error + bool" where
  "has_execution c executionId =
     (if \<not> cc_isEnabled c then Inr False
      else case cc_queues c of
          None \<Rightarrow> Inl QueuesUndefined
        | Some qs \<Rightarrow> Inr (list_ex (\<lambda>q. has_queued q executionId) (jvalues qs)))"

fun remove_ids :: "string list \<Rightarrow> ConcurrencyQueue \<Rightarrow> ConcurrencyQueue \<times> concurrency_event list" where
  "remove_ids [] q = (q, [])"
| "remove_ids (i # is) q =
     (case remove_queued q i of (q1, es1) \<Rightarrow> case remove_ids is q1 of (q2, es2) \<Rightarrow> (q2, es1 @ es2))"

text \<open>\<^verbatim>\<open>removeAll\<close> returns the executions it marks as cancelled in the database.\<close>

definition removeAll :: "Environment \<Rightarrow> ControlService \<Rightarrow> string list \<Rightarrow>
    concurrency_error + (ControlService \<times> control_event list \<times> string list)" where
  "removeAll env c executionIdsToCancel =
     (if \<not> cc_isEnabled c then Inr (c, [], [])
      else case cc_queues c of
          None \<Rightarrow> Inl QueuesUndefined
        | Some qs \<Rightarrow>
            Inr (c\<lparr>cc_queues := Some (map (\<lambda>(t, q). (t, fst (remove_ids (getAll q) q))) qs)\<rparr>,
                 concat (map (\<lambda>(t, q). concat (map (wireQueue env t) (snd (remove_ids (getAll q) q)))) qs),
                 executionIdsToCancel))"

definition disable :: "ControlService \<Rightarrow> ControlService" where
  "disable c = c\<lparr>cc_isEnabled := False\<rparr>"

section \<open>Reservations\<close>

type_synonym CapacityTarget = "WorkflowExecuteMode \<times> string"

text \<open>\<^verbatim>\<open>reserve\<close> stores its target once the promise of \<^verbatim>\<open>throttle\<close> has resolved: at once, or later
  (\<open>reserve_resolved\<close>) when the execution is queued.\<close>

definition reserve :: "Environment \<Rightarrow> ControlService \<Rightarrow> CapacityTarget option \<Rightarrow> CapacityTarget \<Rightarrow>
    concurrency_error + (ControlService \<times> CapacityTarget option \<times> bool)" where
  "reserve env c acquired capacityFor =
     (if acquired \<noteq> None then Inl CapacityAlreadyReserved
      else case throttle env c (fst capacityFor) (snd capacityFor) of
          Inl e \<Rightarrow> Inl e
        | Inr (c', es, pending) \<Rightarrow> Inr (c', if pending then None else Some capacityFor, pending))"

definition reserve_resolved :: "CapacityTarget \<Rightarrow> CapacityTarget option" where
  "reserve_resolved capacityFor = Some capacityFor"

definition release_reservation :: "Environment \<Rightarrow> ControlService \<Rightarrow> CapacityTarget option \<Rightarrow>
    concurrency_error + (ControlService \<times> CapacityTarget option)" where
  "release_reservation env c acquired =
     (case acquired of
        None \<Rightarrow> Inr (c, None)
      | Some t \<Rightarrow> (case release env c (fst t) of Inl e \<Rightarrow> Inl e | Inr (c', es, _) \<Rightarrow> Inr (c', None)))"

section \<open>The contract of a queue\<close>

text \<open>What the service relies on: acquiring takes one unit and waits when none is left, freeing gives
  one unit back, and an execution waits only while the units are used up.\<close>

locale capacity_gate =
  fixes acquire :: "'g \<Rightarrow> string \<Rightarrow> 'g \<times> 'e \<times> bool"
    and free :: "'g \<Rightarrow> 'g \<times> 'e"
    and drop_waiting :: "'g \<Rightarrow> string \<Rightarrow> 'g \<times> 'e"
    and units :: "'g \<Rightarrow> int"
    and waiting :: "'g \<Rightarrow> string list"
    and gate_ok :: "'g \<Rightarrow> bool"
  assumes acquire_units: "units (fst (acquire g i)) = units g - 1"
    and acquire_pending: "snd (snd (acquire g i)) \<longleftrightarrow> units g \<le> 0"
    and acquire_waiting: "waiting (fst (acquire g i)) = waiting g @ (if units g \<le> 0 then [i] else [])"
    and free_units: "units (fst (free g)) = units g + 1"
    and free_waiting: "waiting (fst (free g)) = tl (waiting g)"
    and gate_okD: "gate_ok g \<Longrightarrow> waiting g \<noteq> [] \<Longrightarrow> units g < 0"
    and ok_acquire: "gate_ok g \<Longrightarrow> gate_ok (fst (acquire g i))"
    and ok_free: "gate_ok g \<Longrightarrow> gate_ok (fst (free g))"
    and ok_drop: "gate_ok g \<Longrightarrow> gate_ok (fst (drop_waiting g i))"
    and gate_eq: "units g = units h \<Longrightarrow> waiting g = waiting h \<Longrightarrow> g = h"
begin

lemma acquire_free:
  assumes "gate_ok g" and "\<not> snd (snd (acquire g i))"
  shows "fst (free (fst (acquire g i))) = g"
proof -
  have "units g > 0" using assms(2) acquire_pending by force
  then have "waiting g = []" using gate_okD[OF assms(1)] by force
  with \<open>units g > 0\<close> show ?thesis
    by (intro gate_eq) (simp_all add: free_units acquire_units free_waiting acquire_waiting)
qed

lemma waiting_blocks: "gate_ok g \<Longrightarrow> waiting g \<noteq> [] \<Longrightarrow> snd (snd (acquire g i))"
  using gate_okD[of g] acquire_pending[of g i] by simp

end

definition queue_ok :: "ConcurrencyQueue \<Rightarrow> bool" where
  "queue_ok q \<longleftrightarrow> (cq_queue q \<noteq> [] \<longrightarrow> cq_capacity q + int (length (cq_queue q)) \<le> 0)"

lemma queue_ok_new: "queue_ok (new_queue n)"
  by (simp add: queue_ok_def new_queue_def)

lemma queue_ok_enqueue: "queue_ok q \<Longrightarrow> queue_ok (fst (enqueue q i))"
  by (auto simp: queue_ok_def enqueue_def Let_def)

lemma queue_ok_dequeue: "queue_ok q \<Longrightarrow> queue_ok (fst (dequeue q))"
  by (auto simp: queue_ok_def dequeue_def resolveNext_def split: list.splits)

lemma queue_ok_resolveNext: "queue_ok q \<Longrightarrow> queue_ok (fst (resolveNext q))"
  by (auto simp: queue_ok_def resolveNext_def split: list.splits)

lemma queue_ok_remove: "queue_ok q \<Longrightarrow> queue_ok (fst (remove_queued q i))"
proof (cases "i \<in> set (cq_queue q)")
  case True
  assume "queue_ok q"
  with True have "queue_ok (q\<lparr>cq_queue := remove1 i (cq_queue q), cq_capacity := cq_capacity q + 1\<rparr>)"
    by (cases "length (cq_queue q)") (auto simp: queue_ok_def length_remove1)
  with True show ?thesis by (simp add: remove_queued_def queue_ok_resolveNext)
qed (simp add: remove_queued_def)

lemma queue_okD: "queue_ok q \<Longrightarrow> cq_queue q \<noteq> [] \<Longrightarrow> cq_capacity q < 0"
  by (cases "cq_queue q") (auto simp: queue_ok_def)

interpretation cgate: capacity_gate enqueue dequeue remove_queued cq_capacity cq_queue queue_ok
  by unfold_locales
    (simp_all add: queue_okD queue_ok_enqueue queue_ok_dequeue queue_ok_remove,
     auto simp: enqueue_def dequeue_def resolveNext_def Let_def split: list.splits)

section \<open>Reachable states of the service\<close>

inductive control_step :: "Environment \<Rightarrow> ControlService \<Rightarrow> ControlService \<Rightarrow> bool" for env where
  step_throttle: "throttle env c mode i = Inr (c', es, p) \<Longrightarrow> control_step env c c'"
| step_release: "release env c mode = Inr (c', es, p) \<Longrightarrow> control_step env c c'"
| step_remove: "remove env c mode i = Inr (c', es, p) \<Longrightarrow> control_step env c c'"
| step_removeAll: "removeAll env c ids = Inr (c', es, cancelled) \<Longrightarrow> control_step env c c'"
| step_disable: "control_step env c (disable c)"

definition control_ok :: "Environment \<Rightarrow> ControlService \<Rightarrow> bool" where
  "control_ok env c \<longleftrightarrow>
     (env_queueMode env \<longrightarrow> \<not> cc_isEnabled c) \<and>
     (\<not> env_queueMode env \<longrightarrow> cc_queues c \<noteq> None) \<and>
     (env_evaluationSet env \<longrightarrow> env_evaluationLimit env \<noteq> 0) \<and>
     (\<forall>qs. cc_queues c = Some qs \<longrightarrow> (\<forall>q \<in> snd ` set qs. queue_ok q))"

lemma control_ok_new:
  assumes "new_service env = Inr c"
  shows "control_ok env c"
  using assms
  by (auto simp: new_service_def normaliseLimit_def control_ok_def Let_def queue_ok_new
      split: if_splits)

lemma resolved_limit_nonzero:
  assumes "control_ok env c"
  shows "resolveEvaluationConcurrencyLimit env \<noteq> 0"
  using assms
  by (auto simp: resolveEvaluationConcurrencyLimit_def readLicenseQuota_def control_ok_def
      EVALUATION_TIER_DEFAULTS_def split: option.splits if_splits)

lemma values_jset: "(a, v) \<in> set (jset m k x) \<Longrightarrow> v = x \<or> (a, v) \<in> set m"
  by (induction m) (auto split: if_splits)

lemma ensure_ok:
  assumes "control_ok env c"
  obtains c' where "ensureEvalQueueResolved env c = Inr c'" and "control_ok env c'"
    and "cc_evalQueueResolved c'"
    and "\<And>qs. cc_queues c = Some qs \<Longrightarrow> \<exists>qs'. cc_queues c' = Some qs' \<and> jget qs' Production = jget qs Production"
proof -
  note nz = resolved_limit_nonzero[OF assms]
  consider "cc_evalQueueResolved c" | "env_queueMode env" "\<not> cc_evalQueueResolved c"
    | qs where "\<not> env_queueMode env" "\<not> cc_evalQueueResolved c" "cc_queues c = Some qs"
    using assms by (auto simp: control_ok_def)
  then show thesis
  proof cases
    case 1
    with assms that[of c] show ?thesis by (auto simp: ensureEvalQueueResolved_def)
  next
    case 2
    with assms show ?thesis
      by (intro that[of "c\<lparr>cc_evalQueueResolved := True\<rparr>"])
        (auto simp: ensureEvalQueueResolved_def control_ok_def)
  next
    case (3 qs)
    let ?l = "if resolveEvaluationConcurrencyLimit env < -1 then -1 else resolveEvaluationConcurrencyLimit env"
    have n: "normaliseLimit (resolveEvaluationConcurrencyLimit env) = Inr ?l"
      using nz by (simp add: normaliseLimit_def)
    let ?c = "c\<lparr>cc_evalQueueResolved := True, cc_limits := jset (cc_limits c) Evaluation ?l\<rparr>"
    show ?thesis
    proof (cases "?l > 0")
      case True
      show ?thesis
        by (rule that[of "?c\<lparr>cc_queues := Some (jset qs Evaluation (new_queue ?l)), cc_isEnabled := True\<rparr>"])
          (use 3 n True assms in \<open>auto simp: ensureEvalQueueResolved_def control_ok_def Let_def
            queue_ok_new dest!: values_jset\<close>)
    next
      case False
      show ?thesis
        by (rule that[of ?c]) (use 3 n False assms in \<open>auto simp: ensureEvalQueueResolved_def control_ok_def Let_def\<close>)
    qed
  qed
qed

lemma on_queue_ok:
  assumes ok: "control_ok env c" and call: "\<And>q. queue_ok q \<Longrightarrow> queue_ok (fst (call q))"
    and r: "on_queue env call c mode = Inr (c', es, p)"
  shows "control_ok env c'"
proof -
  obtain c1 where c1: "(if mode = Mode_evaluation then ensureEvalQueueResolved env c else Inr c) = Inr c1"
    "control_ok env c1"
    using ok ensure_ok[OF ok] by (cases "mode = Mode_evaluation") auto
  show ?thesis
  proof (cases "c' = c1")
    case True
    with c1 show ?thesis by simp
  next
    case False
    with r c1(1) obtain type q where q: "getQueue c1 mode = Inr (Some (type, q))"
      "c' = c1\<lparr>cc_queues := map_option (\<lambda>qs. jset qs type (fst (call q))) (cc_queues c1)\<rparr>"
      by (auto simp: on_queue_def split: sum.splits if_splits bool.splits option.splits prod.splits)
    from q(1) obtain qs where "cc_queues c1 = Some qs" "jget qs type = Some q"
      by (auto simp: getQueue_def lookupQueue_def split: if_splits option.splits)
    moreover from this have "queue_ok q"
      using c1(2) by (auto simp: control_ok_def dest!: map_of_SomeD)
    ultimately show ?thesis
      using c1(2) call[of q] q(2) by (auto simp: control_ok_def dest!: values_jset)
  qed
qed

lemma remove_ids_ok: "queue_ok q \<Longrightarrow> queue_ok (fst (remove_ids ids q))"
proof (induction ids arbitrary: q)
  case (Cons i ids)
  have "queue_ok (fst (remove_queued q i))" using Cons.prems by (rule queue_ok_remove)
  then show ?case using Cons.IH by (auto simp: case_prod_beta)
qed simp

lemma control_ok_step:
  assumes "control_ok env c" and "control_step env c c'"
  shows "control_ok env c'"
  using assms(2)
proof cases
  case (step_throttle mode i es p)
  then show ?thesis
    by (intro on_queue_ok[OF assms(1) _ step_throttle[unfolded throttle_def]] queue_ok_enqueue)
next
  case (step_release mode es p)
  then show ?thesis
    by (intro on_queue_ok[OF assms(1) _ step_release[unfolded release_def]])
      (simp add: case_prod_beta queue_ok_dequeue)
next
  case (step_remove mode i es p)
  then show ?thesis
    by (intro on_queue_ok[OF assms(1) _ step_remove[unfolded remove_def]])
      (simp add: case_prod_beta queue_ok_remove)
next
  case (step_removeAll ids es cancelled)
  then show ?thesis
    using assms(1) remove_ids_ok
    by (fastforce simp: removeAll_def control_ok_def split: if_splits option.splits)
next
  case step_disable
  then show ?thesis using assms(1) by (auto simp: disable_def control_ok_def)
qed

interpretation control: step_system "projr (new_service env)" "control_step env"
    "\<lambda>c. isl (new_service env) \<or> control_ok env c" for env
  by unfold_locales (auto intro: control_ok_new control_ok_step split: sum.splits simp: sum.expand)

lemma control_ok_reachable:
  assumes "new_service env = Inr c0" and "(control_step env)\<^sup>*\<^sup>* c0 c"
  shows "control_ok env c"
  using control.inv_reachable[of env c] assms by simp

lemma on_queue_fails:
  assumes "control_ok env c" and "on_queue env call c mode = Inl e"
  shows "mode = Mode_agent \<and> e = UnknownExecutionMode Mode_agent"
  using assms(2)
proof -
  obtain c1 where c1: "(if mode = Mode_evaluation then ensureEvalQueueResolved env c else Inr c) = Inr c1"
    "control_ok env c1"
    using assms(1) ensure_ok[OF assms(1)] by (cases "mode = Mode_evaluation") auto
  have "cc_queues c1 \<noteq> None" if "cc_isEnabled c1"
    using c1(2) that by (auto simp: control_ok_def)
  with assms(2) c1(1) show ?thesis
    by (cases mode) (auto simp: on_queue_def isUnlimited_def getQueue_def lookupQueue_def
        split: sum.splits if_splits bool.splits option.splits prod.splits)
qed

section \<open>Properties\<close>

text \<open>Once the service has been constructed, and whatever was called on it since, a call of
  \<^verbatim>\<open>throttle\<close>, \<^verbatim>\<open>release\<close> or \<^verbatim>\<open>remove\<close> fails only for the execution mode \<open>agent\<close>: the lazily resolved
  evaluation limit is never invalid and the map of queues is always there when it is needed.\<close>

lemma control_fails_only_for_agent:
  assumes "new_service env = Inr c0" and "(control_step env)\<^sup>*\<^sup>* c0 c"
    and "throttle env c mode i = Inl e \<or> release env c mode = Inl e \<or> remove env c mode i = Inl e"
  shows "mode = Mode_agent \<and> e = UnknownExecutionMode Mode_agent"
  using assms(3) on_queue_fails[OF control_ok_reachable[OF assms(1,2)]]
  by (auto simp: throttle_def release_def remove_def)

definition sample_env :: Environment where
  "sample_env = \<lparr>env_productionLimit = 2, env_evaluationLimit = -1, env_queueMode = False, env_cloud = False,
     env_evaluationSet = False, env_quota = None, env_planName = ''Business''\<rparr>"

definition sample_service :: ControlService where
  "sample_service = \<lparr>cc_isEnabled = True, cc_limits = [(Production, 2), (Evaluation, -1)],
     cc_queues = Some [(Production, new_queue 2)], cc_evalQueueResolved = False\<rparr>"

lemma sample_service_new: "new_service sample_env = Inr sample_service"
  by (simp add: new_service_def sample_env_def sample_service_def normaliseLimit_def)

lemma on_queue_entry:
  assumes "(if mode = Mode_evaluation then ensureEvalQueueResolved env c0 else Inr c0) = Inr c"
  shows "on_queue env call c0 mode =
    (if \<not> cc_isEnabled c then Inr (c, [], False)
     else case getQueue c mode of
         Inl e \<Rightarrow> Inl e
       | Inr None \<Rightarrow> Inr (c, [], False)
       | Inr (Some (type, q)) \<Rightarrow>
           (case call q of (q', es, pending) \<Rightarrow>
              Inr (c\<lparr>cc_queues := map_option (\<lambda>qs. jset qs type q') (cc_queues c)\<rparr>,
                   concat (map (wireQueue env type) es), pending)))"
  using assms by (auto simp: on_queue_def isUnlimited_def split: sum.splits option.splits)

lemma entry_resolved:
  "mode = Mode_evaluation \<longrightarrow> cc_evalQueueResolved c \<Longrightarrow>
    (if mode = Mode_evaluation then ensureEvalQueueResolved env c else Inr c) = Inr c"
  by (simp add: ensureEvalQueueResolved_def)

lemmas on_queue_resolved = on_queue_entry[OF entry_resolved]

lemma getQueue_SomeD:
  assumes "getQueue c mode = Inr (Some (type, q))"
  obtains qs where "cc_queues c = Some qs" and "jget qs type = Some q"
    and "\<And>q'. getQueue (c\<lparr>cc_queues := Some (jset qs type q')\<rparr>) mode = Inr (Some (type, q'))"
  using assms by (auto simp: getQueue_def lookupQueue_def split: if_splits option.splits)

lemma on_queue_acquire:
  assumes ok: "control_ok env c" and m: "mode = Mode_evaluation \<longrightarrow> cc_evalQueueResolved c"
    and t: "throttle env c mode i = Inr (c', es, False)"
  shows "\<exists>es'. release env c' mode = Inr (c, es', False)"
proof (cases "cc_isEnabled c \<and> getQueue c mode \<noteq> Inr None")
  case False
  with t have "c' = c"
    by (auto simp: throttle_def on_queue_resolved[OF m] split: sum.splits if_splits)
  with False m show ?thesis
    by (auto simp: release_def on_queue_resolved)
next
  case True
  with t obtain type q where q: "getQueue c mode = Inr (Some (type, q))"
    by (auto simp: throttle_def on_queue_resolved[OF m] split: sum.splits option.splits)
  obtain qs where qs: "cc_queues c = Some qs" "jget qs type = Some q"
    "\<And>q'. getQueue (c\<lparr>cc_queues := Some (jset qs type q')\<rparr>) mode = Inr (Some (type, q'))"
    by (rule getQueue_SomeD[OF q]) blast
  then have okq: "queue_ok q"
    using ok by (auto simp: control_ok_def dest!: map_of_SomeD)
  obtain q' es0 where enq: "enqueue q i = (q', es0, False)"
    "c' = c\<lparr>cc_queues := Some (jset qs type q')\<rparr>"
    using t True q qs(1) by (auto simp: throttle_def on_queue_resolved[OF m] split: prod.splits)
  have restored: "fst (dequeue q') = q"
    using cgate.acquire_free[OF okq, of i] enq(1) by simp
  obtain es1 where deq: "dequeue q' = (q, es1)" using restored by (cases "dequeue q'") auto
  have same: "jset (jset qs type q') type q = qs" using qs(2) by (simp add: update_triv)
  have "mode = Mode_evaluation \<longrightarrow> cc_evalQueueResolved c'" using m enq(2) by simp
  then show ?thesis
    using qs(1) qs(3)[of q'] deq enq(2) True same by (simp add: release_def on_queue_resolved)
qed

text \<open>A reservation that did not have to wait and is then released leaves the service as it was, and
  releasing the reservation once more does nothing.\<close>

lemma reserve_release_roundtrip:
  assumes "new_service env = Inr c0" and "(control_step env)\<^sup>*\<^sup>* c0 c"
    and "mode = Mode_evaluation \<longrightarrow> cc_evalQueueResolved c"
    and "reserve env c None (mode, i) = Inr (c', r, False)"
  shows "release_reservation env c' r = Inr (c, None) \<and> release_reservation env c None = Inr (c, None)"
proof -
  obtain es where t: "throttle env c mode i = Inr (c', es, False)" "r = Some (mode, i)"
    using assms(4) by (auto simp: reserve_def split: sum.splits if_splits)
  from on_queue_acquire[OF control_ok_reachable[OF assms(1,2)] assms(3) t(1)] t(2)
  show ?thesis by (auto simp: release_reservation_def)
qed

lemma on_queue_frame:
  assumes "on_queue env call c mode = Inr (c', es, p)" and "cc_queues c = Some qs"
    and "control_ok env c"
  shows "\<exists>qs'. cc_queues c' = Some qs' \<and>
     (mode \<in> {Mode_webhook, Mode_trigger, Mode_chat} \<longrightarrow> jget qs' Evaluation = jget qs Evaluation) \<and>
     (mode = Mode_evaluation \<longrightarrow> jget qs' Production = jget qs Production) \<and>
     (mode \<notin> {Mode_webhook, Mode_trigger, Mode_chat, Mode_evaluation} \<longrightarrow> c' = c \<and> \<not> p)"
proof -
  obtain c1 qs1 where c1: "(if mode = Mode_evaluation then ensureEvalQueueResolved env c else Inr c) = Inr c1"
    "cc_queues c1 = Some qs1" "jget qs1 Production = jget qs Production"
    "mode \<noteq> Mode_evaluation \<Longrightarrow> c1 = c \<and> qs1 = qs"
  proof (cases "mode = Mode_evaluation")
    case True
    obtain c1 where c1: "ensureEvalQueueResolved env c = Inr c1"
      "\<And>qs. cc_queues c = Some qs \<Longrightarrow> \<exists>qs'. cc_queues c1 = Some qs' \<and> jget qs' Production = jget qs Production"
      by (rule ensure_ok[OF assms(3)]) blast
    obtain qs1 where "cc_queues c1 = Some qs1" "jget qs1 Production = jget qs Production"
      using c1(2)[OF assms(2)] by (elim exE conjE)
    with c1(1) True show thesis by (intro that[of c1 qs1]) simp_all
  next
    case False
    with assms(2) show thesis by (intro that[of c qs]) simp_all
  qed
  note r = assms(1)[unfolded on_queue_entry[OF c1(1)]]
  consider "c' = c1" "\<not> p" | type q q' where "getQueue c1 mode = Inr (Some (type, q))"
      "c' = c1\<lparr>cc_queues := Some (jset qs1 type q')\<rparr>"
  proof (cases "\<exists>type q. cc_isEnabled c1 \<and> getQueue c1 mode = Inr (Some (type, q))")
    case True
    then obtain type q where q: "cc_isEnabled c1" "getQueue c1 mode = Inr (Some (type, q))" by (elim exE conjE)
    obtain q' es' p' where "call q = (q', es', p')" by (cases "call q")
    with q r c1(2) show thesis by (intro that(2)[of type q q']) simp_all
  next
    case False
    with r show thesis by (intro that(1)) (simp_all split: if_splits sum.splits option.splits prod.splits)
  qed
  then show ?thesis
  proof cases
    case 1
    with c1(2-4) assms(2) show ?thesis by (intro exI[of _ qs1]) simp
  next
    case (2 type q q')
    from 2(1) have "mode \<in> {Mode_webhook, Mode_trigger, Mode_chat} \<and> type = Production \<or>
        mode = Mode_evaluation \<and> type = Evaluation"
      by (cases mode) (auto simp: getQueue_def lookupQueue_def split: option.splits)
    with 2(2) c1(3,4) show ?thesis by (intro exI[of _ "jset qs1 type q'"]) auto
  qed
qed

text \<open>The two limits do not interfere: a call for a webhook, trigger or chat execution leaves the
  evaluation queue alone, a call for an evaluation leaves the production queue alone, and a call for any
  other mode leaves both alone and never waits.\<close>

lemma limits_independent:
  assumes "new_service env = Inr c0" and "(control_step env)\<^sup>*\<^sup>* c0 c" and "cc_queues c = Some qs"
    and "throttle env c mode i = Inr (c', es, p) \<or> release env c mode = Inr (c', es, p) \<or>
      remove env c mode i = Inr (c', es, p)"
  shows "\<exists>qs'. cc_queues c' = Some qs' \<and>
     (mode \<in> {Mode_webhook, Mode_trigger, Mode_chat} \<longrightarrow> jget qs' Evaluation = jget qs Evaluation) \<and>
     (mode = Mode_evaluation \<longrightarrow> jget qs' Production = jget qs Production) \<and>
     (mode \<notin> {Mode_webhook, Mode_trigger, Mode_chat, Mode_evaluation} \<longrightarrow> c' = c \<and> \<not> p)"
  using assms(4) on_queue_frame[OF _ assms(3) control_ok_reachable[OF assms(1,2)]]
  unfolding throttle_def release_def remove_def by metis

section \<open>Shutting down\<close>

text \<open>\<^verbatim>\<open>ActiveExecutions.shutdown\<close> disables the service and then hands it the executions to cancel;
  the disabled service neither cancels any of them nor empties a queue.\<close>

lemma disabled_removeAll_cancels_nothing:
  "removeAll env (disable c) executionIdsToCancel = Inr (disable c, [], [])"
  by (simp add: removeAll_def disable_def)

text \<open>Disabling the service does not last: with a license tier that limits evaluations, the next
  call for an evaluation switches it on again, and production executions release capacity once more.\<close>

lemma disable_is_undone:
  "\<exists>c1 c2. throttle sample_env (disable sample_service) Mode_evaluation ''1'' = Inr (c1, [], False) \<and>
     cc_isEnabled c1 \<and>
     throttle sample_env (disable sample_service) Mode_webhook ''2'' = Inr (disable sample_service, [], False) \<and>
     throttle sample_env c1 Mode_webhook ''2'' = Inr (c2, [], False) \<and>
     cc_queues c2 = Some [(Production, new_queue 1), (Evaluation, new_queue 2)]"
proof -
  let ?c = "\<lambda>p. \<lparr>cc_isEnabled = True, cc_limits = [(Production, 2), (Evaluation, 3)],
    cc_queues = Some [(Production, new_queue p), (Evaluation, new_queue 2)], cc_evalQueueResolved = True\<rparr>"
  note defs = throttle_def on_queue_def isUnlimited_def getQueue_def lookupQueue_def disable_def
    sample_service_def sample_env_def ensureEvalQueueResolved_def resolveEvaluationConcurrencyLimit_def
    readLicenseQuota_def EVALUATION_TIER_DEFAULTS_def normaliseLimit_def enqueue_def new_queue_def shouldReport_def
  have "throttle sample_env (disable sample_service) Mode_evaluation ''1'' = Inr (?c 2, [], False)"
    by (simp add: defs)
  moreover have "throttle sample_env (disable sample_service) Mode_webhook ''2'' = Inr (disable sample_service, [], False)"
    by (simp add: defs)
  moreover have "throttle sample_env (?c 2) Mode_webhook ''2'' = Inr (?c 1, [], False)"
    by (simp add: defs)
  ultimately show ?thesis by (intro exI[of _ "?c 2"] exI[of _ "?c 1"]) simp
qed

fun every_second :: "'a list \<Rightarrow> 'a list" where
  "every_second (x # y # xs) = y # every_second xs"
| "every_second _ = []"

lemma remove_ids_absent:
  "i \<notin> set (cq_queue q) \<Longrightarrow> remove_ids (i # ids) q = remove_ids ids q"
  by (simp add: remove_queued_def)

lemma remove_ids_all:
  assumes "distinct (cq_queue q)"
  shows "remove_ids (cq_queue q) q =
    (q\<lparr>cq_queue := [], cq_capacity := cq_capacity q + int ((length (cq_queue q) + 1) div 2)\<rparr>,
     map ExecutionReleased (every_second (cq_queue q)))"
  using assms
proof (induction "cq_queue q" arbitrary: q rule: every_second.induct[case_names more none one])
  case (more x y xs)
  let ?q = "q\<lparr>cq_queue := xs, cq_capacity := cq_capacity q + 1\<rparr>"
  have q: "cq_queue q = x # y # xs" by (rule more.hyps(2)[symmetric])
  have "remove_queued q x = (?q, [ExecutionReleased y])"
    by (simp add: remove_queued_def resolveNext_def q)
  moreover have "remove_ids (y # xs) ?q = remove_ids xs ?q"
    using more.prems q by (intro remove_ids_absent) simp
  moreover have "remove_ids xs ?q = (?q\<lparr>cq_queue := [], cq_capacity := cq_capacity ?q + int ((length xs + 1) div 2)\<rparr>,
      map ExecutionReleased (every_second xs))"
    using more.hyps(1)[of ?q] more.prems q by simp
  ultimately show ?case by (simp add: q)
next
  case none
  then show ?case by (cases q) simp
next
  case (one v)
  then have "cq_queue q = [v]" by simp
  then show ?case by (simp add: remove_queued_def resolveNext_def)
qed

lemma removeAll_queue:
  assumes "distinct (cq_queue q)"
  shows "remove_ids (getAll q) q =
    (q\<lparr>cq_queue := [], cq_capacity := cq_capacity q + int ((length (cq_queue q) + 1) div 2)\<rparr>,
     map ExecutionReleased (every_second (cq_queue q)))"
proof -
  have "getAll q = cq_queue q"
    using assms by (simp add: getAll_def set_add_all_distinct)
  with remove_ids_all[OF assms] show ?thesis by simp
qed

text \<open>Emptying the queues starts executions: \<^verbatim>\<open>removeAll\<close> releases the second, fourth, sixth, \<dots>
  waiting execution of each queue, so half of the executions it is to drop begin to run, and it gives
  back one unit of capacity for each of the others.\<close>

lemma removeAll_starts_every_second:
  assumes "cc_isEnabled c" and "cc_queues c = Some [(Production, q)]" and "distinct (cq_queue q)"
  shows "\<exists>c'. removeAll env c ids = Inr (c', map PromiseResolved (every_second (cq_queue q)), ids) \<and>
    cc_queues c' = Some [(Production, q\<lparr>cq_queue := [],
      cq_capacity := cq_capacity q + int ((length (cq_queue q) + 1) div 2)\<rparr>)]"
proof -
  have "concat (map (wireQueue env Production) (map ExecutionReleased xs)) = map PromiseResolved xs" for xs
    by (induction xs) auto
  with assms removeAll_queue[OF assms(3)] show ?thesis by (simp add: removeAll_def)
qed

definition waiting_service :: ControlService where
  "waiting_service = sample_service\<lparr>cc_queues :=
     Some [(Production, \<lparr>cq_capacity = -3, cq_queue = [''3'', ''4'', ''5'']\<rparr>)]\<rparr>"

end
