(* ===== verification/Task_Broker_Model.thy ===== *)
theory Task_Broker_Model
  imports Prelude
begin

text \<open>
  \<^verbatim>\<open>packages/cli/src/task-runners/task-broker/task-broker.service.ts\<close>: the broker between the
  requesters of code tasks and the runners that execute them. The state of \<^verbatim>\<open>TaskBroker\<close> is the record
  \<open>Broker\<close>; the messages it sends are appended to \<open>b_out\<close>. A task request is a mutable object shared by
  the pending list and by \<^verbatim>\<open>acceptOffer\<close>, so it lives in a store and is named by its index. An
  invocation of \<^verbatim>\<open>acceptOffer\<close> that waits on a promise is an entry of \<open>b_acceptances\<close> with its phase;
  the promise settles in one event and the code after \<^verbatim>\<open>await\<close> runs in a later one. An \<^verbatim>\<open>await\<close> on the
  callback that only hands a message to the transport returns before the next event. \<^verbatim>\<open>nanoid\<close>, the
  clocks and the reachability of a transport are parameters. Log output is not modelled.
\<close>

section \<open>Data\<close>

type_synonym payload = string

record TaskRunner =
  rn_id :: string
  rn_taskTypes :: "string list"

record Task =
  tk_id :: string
  tk_runnerId :: string
  tk_requesterId :: string
  tk_taskType :: string
  tk_timeout :: bool
  tk_timesOutAt :: "int option"

record TaskOffer =
  of_offerId :: string
  of_runnerId :: string
  of_taskType :: string
  of_validFor :: int
  of_validUntil :: int

record TaskRequest =
  rq_requestId :: string
  rq_requesterId :: string
  rq_taskType :: string
  rq_timeout :: bool
  rq_acceptInProgress :: bool
  rq_timeoutRefreshes :: nat

definition MAX_REQUEST_TIMEOUT_REFRESHES :: nat where
  "MAX_REQUEST_TIMEOUT_REFRESHES = 3"

definition MAX_CONSECUTIVE_ACCEPT_TIMEOUTS :: nat where
  "MAX_CONSECUTIVE_ACCEPT_TIMEOUTS = 3"

definition MIN_SILENCE_DURATION_MS :: int where
  "MIN_SILENCE_DURATION_MS = 2000"

datatype broker_error =
    TaskRunnerShutdownTimeout
  | TaskRunnerExecutionTimeout
  | TaskRunnerUnreachable string string
  | RunnerNotFound string
  | TaskNotFound string
  | RunnerError payload
  | TransportError payload

datatype to_runner =
    RunnerRegistered
  | TaskOfferAccept string string
  | TaskCancel string string
  | TaskSettings string payload
  | RpcResponse string string payload payload
  | TaskDataResponse string string payload
  | NodeTypes string string payload

datatype expiry = Expired_timeout | Expired_draining

datatype to_requester =
    TaskReady string string
  | RequestExpired string expiry
  | TaskDone string payload
  | TaskFailed string broker_error
  | TaskDataRequest string string payload
  | NodeTypesRequest string string payload
  | Rpc string string payload payload

datatype broker_output =
    ToRunner string to_runner
  | ToRequester string to_requester
  | RunnerUnresponsive string
  | RunnerTimedOutDuringTask string

datatype accept_failure = TaskReject string | TaskDeferred | RunnerAcceptTimeout | RequesterAcceptTimeout

datatype accept_phase =
    AwaitRunner
  | RunnerAccepted
  | RunnerFailed accept_failure
  | AwaitRequester
  | RequesterAccepted payload
  | RequesterFailed accept_failure

record Acceptance =
  ac_taskId :: string
  ac_offer :: TaskOffer
  ac_request :: nat
  ac_phase :: accept_phase

record AcceptTimeouts =
  at_count :: nat
  at_lastTimeoutAt :: int

record Broker =
  b_knownRunners :: "(string, TaskRunner) jsmap"
  b_requesters :: "string list"
  b_tasks :: "(string, Task) jsmap"
  b_isDraining :: bool
  b_shutdownDeadline :: "int option"
  b_runnerAcceptRejects :: "(string, string) jsmap"
  b_requesterAcceptRejects :: "(string, unit) jsmap"
  b_consecutiveAcceptTimeouts :: "(string, AcceptTimeouts) jsmap"
  b_silentRunnersSince :: "(string, int) jsmap"
  b_pendingTaskOffers :: "TaskOffer list"
  b_pendingTaskRequests :: "nat list"
  b_mismatchWarned :: "string list"
  b_requests :: "TaskRequest list"
  b_acceptances :: "Acceptance list"
  b_nextId :: nat
  b_out :: "broker_output list"

text \<open>What the broker reads from its surroundings: its configuration and the ids it draws (fixed), and
  the clocks and the transports' reachability (at each event).\<close>

record BrokerConfig =
  cfg_taskTimeout :: int
  cfg_taskAcceptTimeout :: int
  cfg_external :: bool
  cfg_nanoid :: "nat \<Rightarrow> string"

record BrokerEnv =
  env_hrtime :: int
  env_now :: int
  env_reachable :: "string \<Rightarrow> bool"

definition new_broker :: Broker where
  "new_broker = \<lparr>b_knownRunners = [], b_requesters = [], b_tasks = [], b_isDraining = False,
     b_shutdownDeadline = None, b_runnerAcceptRejects = [], b_requesterAcceptRejects = [],
     b_consecutiveAcceptTimeouts = [], b_silentRunnersSince = [], b_pendingTaskOffers = [],
     b_pendingTaskRequests = [], b_mismatchWarned = [], b_requests = [], b_acceptances = [], b_nextId = 0,
     b_out = []\<rparr>"

abbreviation request_at :: "Broker \<Rightarrow> nat \<Rightarrow> TaskRequest" where
  "request_at b r \<equiv> b_requests b ! r"

definition upd_request :: "nat \<Rightarrow> (TaskRequest \<Rightarrow> TaskRequest) \<Rightarrow> Broker \<Rightarrow> Broker" where
  "upd_request r f b = b\<lparr>b_requests := (b_requests b)[r := f (request_at b r)]\<rparr>"

section \<open>Messages\<close>

definition messageRunner :: "string \<Rightarrow> to_runner \<Rightarrow> Broker \<Rightarrow> Broker" where
  "messageRunner runnerId m b =
     (if jget (b_knownRunners b) runnerId = None then b else b\<lparr>b_out := b_out b @ [ToRunner runnerId m]\<rparr>)"

definition messageRequester :: "string \<Rightarrow> to_requester \<Rightarrow> Broker \<Rightarrow> Broker" where
  "messageRequester requesterId m b =
     (if requesterId \<in> set (b_requesters b) then b\<lparr>b_out := b_out b @ [ToRequester requesterId m]\<rparr> else b)"

definition registerRunner :: "TaskRunner \<Rightarrow> Broker \<Rightarrow> Broker" where
  "registerRunner runner b =
     messageRunner (rn_id runner) RunnerRegistered
       (b\<lparr>b_knownRunners := jset (b_knownRunners b) (rn_id runner) runner\<rparr>)"

definition registerRequester :: "string \<Rightarrow> Broker \<Rightarrow> Broker" where
  "registerRequester requesterId b = b\<lparr>b_requesters := set_add (b_requesters b) requesterId\<rparr>"

definition deregisterRequester :: "string \<Rightarrow> Broker \<Rightarrow> Broker" where
  "deregisterRequester requesterId b = b\<lparr>b_requesters := set_del (b_requesters b) requesterId\<rparr>"

section \<open>Offers\<close>

definition discardOffers :: "(TaskOffer \<Rightarrow> bool) \<Rightarrow> Broker \<Rightarrow> Broker" where
  "discardOffers shouldDiscard b =
     b\<lparr>b_pendingTaskOffers := filter (\<lambda>offer. \<not> shouldDiscard offer) (b_pendingTaskOffers b)\<rparr>"

definition expireTasks :: "BrokerEnv \<Rightarrow> Broker \<Rightarrow> Broker" where
  "expireTasks env = discardOffers (\<lambda>offer. of_validFor offer \<noteq> -1 \<and> of_validUntil offer < env_hrtime env)"

definition discardOffersFrom :: "string \<Rightarrow> Broker \<Rightarrow> Broker" where
  "discardOffersFrom runnerId = discardOffers (\<lambda>offer. of_runnerId offer = runnerId)"

definition discardOffersFromUnreachableRunners :: "BrokerEnv \<Rightarrow> Broker \<Rightarrow> Broker" where
  "discardOffersFromUnreachableRunners env b =
     discardOffers (\<lambda>offer. jget (b_knownRunners b) (of_runnerId offer) \<noteq> None \<and>
       \<not> env_reachable env (of_runnerId offer)) b"

section \<open>Tasks\<close>

definition untrackTask :: "string \<Rightarrow> Broker \<Rightarrow> Task option \<times> Broker" where
  "untrackTask taskId b =
     (case jget (b_tasks b) taskId of
        None \<Rightarrow> (None, b)
      | Some task \<Rightarrow> (Some task, b\<lparr>b_tasks := jdel (b_tasks b) taskId\<rparr>))"

definition cancelTask :: "string \<Rightarrow> string \<Rightarrow> Broker \<Rightarrow> Broker" where
  "cancelTask taskId reason b =
     (case untrackTask taskId b of
        (None, b') \<Rightarrow> b'
      | (Some task, b') \<Rightarrow> messageRunner (tk_runnerId task) (TaskCancel taskId reason) b')"

definition failTask :: "string \<Rightarrow> broker_error \<Rightarrow> Broker \<Rightarrow> Broker" where
  "failTask taskId error b =
     (case untrackTask taskId b of
        (None, b') \<Rightarrow> b'
      | (Some task, b') \<Rightarrow> messageRequester (tk_requesterId task) (TaskFailed taskId error) b')"

definition taskDoneHandler :: "string \<Rightarrow> payload \<Rightarrow> Broker \<Rightarrow> Broker" where
  "taskDoneHandler taskId data b =
     (case untrackTask taskId b of
        (None, b') \<Rightarrow> b'
      | (Some task, b') \<Rightarrow> messageRequester (tk_requesterId task) (TaskDone (tk_id task) data) b')"

definition taskErrorHandler :: "string \<Rightarrow> broker_error \<Rightarrow> Broker \<Rightarrow> Broker" where
  "taskErrorHandler taskId error b =
     (case untrackTask taskId b of
        (None, b') \<Rightarrow> b'
      | (Some task, b') \<Rightarrow> messageRequester (tk_requesterId task) (TaskFailed (tk_id task) error) b')"

definition getInFlightTaskIds :: "Broker \<Rightarrow> string \<Rightarrow> string list" where
  "getInFlightTaskIds b runnerId = map tk_id (filter (\<lambda>task. tk_runnerId task = runnerId) (jvalues (b_tasks b)))"

definition failTasks :: "string list \<Rightarrow> broker_error \<Rightarrow> Broker \<Rightarrow> Broker" where
  "failTasks taskIds error b = fold (\<lambda>taskId. failTask taskId error) taskIds b"

definition hasActiveTasks :: "Broker \<Rightarrow> bool" where
  "hasActiveTasks b \<longleftrightarrow> length (b_tasks b) > 0"

text \<open>The runner of a task, or the error that has failed the task.\<close>

definition getRunnerOrFailTask :: "BrokerEnv \<Rightarrow> string \<Rightarrow> Broker \<Rightarrow> (broker_error + string) \<times> Broker" where
  "getRunnerOrFailTask env taskId b =
     (case jget (b_tasks b) taskId of
        None \<Rightarrow> (Inl (TaskNotFound taskId), b)
      | Some task \<Rightarrow>
          (case jget (b_knownRunners b) (tk_runnerId task) of
             None \<Rightarrow> (Inl (RunnerNotFound (tk_runnerId task)), failTask taskId (RunnerNotFound (tk_runnerId task)) b)
           | Some runner \<Rightarrow>
               if \<not> env_reachable env (tk_runnerId task)
               then (Inl (TaskRunnerUnreachable taskId (tk_runnerId task)),
                     failTask taskId (TaskRunnerUnreachable taskId (tk_runnerId task)) b)
               else (Inr (rn_id runner), b)))"

definition sendTaskSettings ::
    "BrokerConfig \<Rightarrow> BrokerEnv \<Rightarrow> string \<Rightarrow> payload \<Rightarrow> Broker \<Rightarrow> broker_error option \<times> Broker" where
  "sendTaskSettings cfg env taskId settings b =
     (if jget (b_tasks b) taskId = None then (None, b)
      else case getRunnerOrFailTask env taskId b of
          (Inl e, b') \<Rightarrow> (Some e, b')
        | (Inr runnerId, b') \<Rightarrow>
            (case jget (b_tasks b') taskId of
               None \<Rightarrow> (None, b')
             | Some task \<Rightarrow>
                 let due = env_now env + cfg_taskTimeout cfg * 1000;
                     timesOutAt = (case b_shutdownDeadline b' of None \<Rightarrow> due | Some d \<Rightarrow> min due d)
                 in (None, messageRunner runnerId (TaskSettings taskId settings)
                      (b'\<lparr>b_tasks := jset (b_tasks b') taskId
                         (task\<lparr>tk_timesOutAt := Some timesOutAt, tk_timeout := True\<rparr>)\<rparr>))))"

definition handleTaskTimeout :: "BrokerConfig \<Rightarrow> string \<Rightarrow> Broker \<Rightarrow> Broker" where
  "handleTaskTimeout cfg taskId b =
     (case jget (b_tasks b) taskId of
        None \<Rightarrow> b
      | Some task \<Rightarrow>
          let isCappedByShutdown = (b_shutdownDeadline b \<noteq> None \<and> tk_timesOutAt task = b_shutdownDeadline b);
              b1 = (if \<not> cfg_external cfg
                    then (if b_shutdownDeadline b = None
                          then b\<lparr>b_out := b_out b @ [RunnerTimedOutDuringTask (tk_runnerId task)]\<rparr> else b)
                    else messageRunner (tk_runnerId task)
                           (TaskCancel taskId (if isCappedByShutdown
                              then ''Task aborted because this n8n instance is shutting down''
                              else ''Task execution timed out'')) b)
          in taskErrorHandler taskId
               (if isCappedByShutdown then TaskRunnerShutdownTimeout else TaskRunnerExecutionTimeout) b1)"

definition capTaskTimeoutsForShutdown :: "int \<Rightarrow> Broker \<Rightarrow> Broker" where
  "capTaskTimeoutsForShutdown deadline b =
     b\<lparr>b_shutdownDeadline := Some deadline,
       b_tasks := map (\<lambda>(taskId, task).
         (taskId, if \<not> tk_timeout task then task
                  else if (case tk_timesOutAt task of Some t \<Rightarrow> t \<le> deadline | None \<Rightarrow> False) then task
                  else task\<lparr>tk_timesOutAt := Some deadline\<rparr>)) (b_tasks b)\<rparr>"

section \<open>Unresponsive runners\<close>

definition monotonicNowMs :: "BrokerEnv \<Rightarrow> int" where
  "monotonicNowMs env = env_hrtime env div 1000000"

definition resetAcceptTimeoutsOnOwnTask :: "string \<Rightarrow> string \<Rightarrow> Broker \<Rightarrow> Broker" where
  "resetAcceptTimeoutsOnOwnTask runnerId taskId b =
     (case jget (b_tasks b) taskId of
        None \<Rightarrow> b
      | Some task \<Rightarrow> if tk_runnerId task = runnerId
          then b\<lparr>b_consecutiveAcceptTimeouts := jdel (b_consecutiveAcceptTimeouts b) runnerId\<rparr> else b)"

definition reportUnresponsive :: "string \<Rightarrow> Broker \<Rightarrow> bool \<times> Broker" where
  "reportUnresponsive runnerId b =
     (if getInFlightTaskIds b runnerId \<noteq> [] then (False, b)
      else (True, b\<lparr>b_out := b_out b @ [RunnerUnresponsive runnerId]\<rparr>))"

definition flagRunnerIfUnresponsive :: "BrokerConfig \<Rightarrow> BrokerEnv \<Rightarrow> string \<Rightarrow> Broker \<Rightarrow> Broker" where
  "flagRunnerIfUnresponsive cfg env runnerId b =
     (let now = monotonicNowMs env;
          previous = jget (b_consecutiveAcceptTimeouts b) runnerId;
          acceptWindowMs = cfg_taskAcceptTimeout cfg * 1000
      in if (case previous of Some p \<Rightarrow> now - at_lastTimeoutAt p < acceptWindowMs | None \<Rightarrow> False) then b
         else
           let failures = min ((case previous of Some p \<Rightarrow> at_count p | None \<Rightarrow> 0) + 1) MAX_CONSECUTIVE_ACCEPT_TIMEOUTS;
               b1 = b\<lparr>b_consecutiveAcceptTimeouts := jset (b_consecutiveAcceptTimeouts b) runnerId
                        \<lparr>at_count = failures, at_lastTimeoutAt = now\<rparr>\<rparr>
           in if failures < MAX_CONSECUTIVE_ACCEPT_TIMEOUTS then b1
              else case reportUnresponsive runnerId b1 of
                  (True, b2) \<Rightarrow> b2\<lparr>b_consecutiveAcceptTimeouts := jdel (b_consecutiveAcceptTimeouts b2) runnerId\<rparr>
                | (False, b2) \<Rightarrow> b2)"

definition isSilent :: "Broker \<Rightarrow> string \<Rightarrow> bool" where
  "isSilent b runnerId \<longleftrightarrow>
     \<not> list_ex (\<lambda>offer. of_runnerId offer = runnerId) (b_pendingTaskOffers b) \<and>
     getInFlightTaskIds b runnerId = [] \<and>
     \<not> list_ex (\<lambda>r. r = runnerId) (jvalues (b_runnerAcceptRejects b))"

definition flagSilentRunner :: "int \<Rightarrow> string \<Rightarrow> Broker \<Rightarrow> Broker" where
  "flagSilentRunner now runnerId b =
     (if \<not> isSilent b runnerId
      then b\<lparr>b_silentRunnersSince := jdel (b_silentRunnersSince b) runnerId\<rparr>
      else case jget (b_silentRunnersSince b) runnerId of
          None \<Rightarrow> b\<lparr>b_silentRunnersSince := jset (b_silentRunnersSince b) runnerId now\<rparr>
        | Some silentSince \<Rightarrow>
            if now - silentSince \<ge> MIN_SILENCE_DURATION_MS
            then (case reportUnresponsive runnerId b of
                (True, b') \<Rightarrow> b'\<lparr>b_silentRunnersSince := jdel (b_silentRunnersSince b') runnerId\<rparr>
              | (False, b') \<Rightarrow> b')
            else b)"

definition flagSilentRunners :: "BrokerEnv \<Rightarrow> string \<Rightarrow> Broker \<Rightarrow> Broker" where
  "flagSilentRunners env taskType b =
     (let b1 = expireTasks env b
      in fold (\<lambda>runner. flagSilentRunner (monotonicNowMs env) (rn_id runner))
           (filter (\<lambda>runner. env_reachable env (rn_id runner))
             (filter (\<lambda>runner. taskType \<in> set (rn_taskTypes runner)) (jvalues (b_knownRunners b1)))) b1)"

section \<open>Requests\<close>

definition isPending :: "Broker \<Rightarrow> string \<Rightarrow> bool" where
  "isPending b requestId = list_ex (\<lambda>r. rq_requestId (request_at b r) = requestId) (b_pendingTaskRequests b)"

definition refreshRequestTimeout :: "nat \<Rightarrow> Broker \<Rightarrow> Broker" where
  "refreshRequestTimeout r b =
     (let request = request_at b r
      in if isPending b (rq_requestId request) \<and> rq_timeoutRefreshes request < MAX_REQUEST_TIMEOUT_REFRESHES
         then upd_request r (\<lambda>rq. rq\<lparr>rq_timeoutRefreshes := rq_timeoutRefreshes rq + 1, rq_timeout := True\<rparr>) b
         else b)"

text \<open>The first pending request with the id, as \<^verbatim>\<open>findIndex\<close> finds it.\<close>

definition findRequest :: "Broker \<Rightarrow> string \<Rightarrow> nat option" where
  "findRequest b requestId = List.find (\<lambda>r. rq_requestId (request_at b r) = requestId) (b_pendingTaskRequests b)"

definition handleRequestTimeout :: "BrokerEnv \<Rightarrow> string \<Rightarrow> Broker \<Rightarrow> Broker" where
  "handleRequestTimeout env requestId b =
     (case findRequest b requestId of
        None \<Rightarrow> b
      | Some r \<Rightarrow>
          let b1 = flagSilentRunners env (rq_taskType (request_at b r)) b;
              b2 = b1\<lparr>b_pendingTaskRequests := remove1 r (b_pendingTaskRequests b1),
                       b_mismatchWarned := set_del (b_mismatchWarned b1) requestId\<rparr>;
              b3 = upd_request r (\<lambda>rq. rq\<lparr>rq_timeout := False\<rparr>) b2
          in messageRequester (rq_requesterId (request_at b r))
               (RequestExpired (rq_requestId (request_at b r)) Expired_timeout) b3)"

definition warnOnTaskTypeMismatch :: "nat \<Rightarrow> Broker \<Rightarrow> Broker" where
  "warnOnTaskTypeMismatch r b =
     (if b_pendingTaskOffers b = [] then b
      else b\<lparr>b_mismatchWarned := set_add (b_mismatchWarned b) (rq_requestId (request_at b r))\<rparr>)"

text \<open>\<^verbatim>\<open>acceptOffer\<close> up to its first \<^verbatim>\<open>await\<close>.\<close>

definition acceptOffer :: "BrokerConfig \<Rightarrow> TaskOffer \<Rightarrow> nat \<Rightarrow> Broker \<Rightarrow> Broker" where
  "acceptOffer cfg offer r b =
     (let taskId = cfg_nanoid cfg (b_nextId b)
      in messageRunner (of_runnerId offer) (TaskOfferAccept (of_offerId offer) taskId)
           (b\<lparr>b_nextId := b_nextId b + 1,
             b_runnerAcceptRejects := jset (b_runnerAcceptRejects b) taskId (of_runnerId offer),
             b_acceptances := b_acceptances b @
               [\<lparr>ac_taskId = taskId, ac_offer = offer, ac_request = r, ac_phase = AwaitRunner\<rparr>]\<rparr>))"

definition settleRequest :: "BrokerConfig \<Rightarrow> nat \<Rightarrow> Broker \<Rightarrow> Broker" where
  "settleRequest cfg r b =
     (if rq_acceptInProgress (request_at b r) then b
      else case List.extract (\<lambda>o'. of_taskType o' = rq_taskType (request_at b r)) (b_pendingTaskOffers b) of
          None \<Rightarrow> warnOnTaskTypeMismatch r b
        | Some (before, offer, after) \<Rightarrow>
            acceptOffer cfg offer r
              (upd_request r (\<lambda>rq. rq\<lparr>rq_acceptInProgress := True\<rparr>)
                (b\<lparr>b_pendingTaskOffers := before @ after,
                  b_mismatchWarned := set_del (b_mismatchWarned b) (rq_requestId (request_at b r))\<rparr>)))"

definition settleTasks :: "BrokerConfig \<Rightarrow> BrokerEnv \<Rightarrow> Broker \<Rightarrow> Broker" where
  "settleTasks cfg env b =
     (let b1 = discardOffersFromUnreachableRunners env (expireTasks env b)
      in fold (settleRequest cfg) (b_pendingTaskRequests b1) b1)"

definition taskRequested :: "BrokerConfig \<Rightarrow> BrokerEnv \<Rightarrow> TaskRequest \<Rightarrow> Broker \<Rightarrow> Broker" where
  "taskRequested cfg env request b =
     (if b_isDraining b
      then messageRequester (rq_requesterId request) (RequestExpired (rq_requestId request) Expired_draining)
             (b\<lparr>b_requests := b_requests b @ [request\<lparr>rq_timeout := False\<rparr>]\<rparr>)
      else settleTasks cfg env
             (b\<lparr>b_requests := b_requests b @ [request],
               b_pendingTaskRequests := b_pendingTaskRequests b @ [length (b_requests b)]\<rparr>))"

definition taskOffered :: "BrokerConfig \<Rightarrow> BrokerEnv \<Rightarrow> TaskOffer \<Rightarrow> Broker \<Rightarrow> Broker" where
  "taskOffered cfg env offer b =
     settleTasks cfg env (b\<lparr>b_pendingTaskOffers := b_pendingTaskOffers b @ [offer]\<rparr>)"

definition startDraining :: "Broker \<Rightarrow> Broker" where
  "startDraining b = b\<lparr>b_isDraining := True\<rparr>"

section \<open>Promises\<close>

text \<open>A promise settles once: only an acceptance that still waits for it changes its phase.\<close>

definition settle_promise :: "string \<Rightarrow> accept_phase \<Rightarrow> accept_phase \<Rightarrow> Broker \<Rightarrow> Broker" where
  "settle_promise taskId awaited settled b =
     b\<lparr>b_acceptances := map (\<lambda>a. if ac_taskId a = taskId \<and> ac_phase a = awaited then a\<lparr>ac_phase := settled\<rparr> else a)
        (b_acceptances b)\<rparr>"

definition settleRunnerAccept :: "string \<Rightarrow> accept_phase \<Rightarrow> Broker \<Rightarrow> Broker" where
  "settleRunnerAccept taskId settled b =
     (case jget (b_runnerAcceptRejects b) taskId of
        None \<Rightarrow> b
      | Some runnerId \<Rightarrow>
          (settle_promise taskId AwaitRunner settled
             (b\<lparr>b_consecutiveAcceptTimeouts := jdel (b_consecutiveAcceptTimeouts b) runnerId\<rparr>))
          \<lparr>b_runnerAcceptRejects := jdel (b_runnerAcceptRejects b) taskId\<rparr>)"

definition handleRunnerAccept :: "string \<Rightarrow> Broker \<Rightarrow> Broker" where
  "handleRunnerAccept taskId = settleRunnerAccept taskId RunnerAccepted"

definition handleRunnerReject :: "string \<Rightarrow> string \<Rightarrow> Broker \<Rightarrow> Broker" where
  "handleRunnerReject taskId reason = settleRunnerAccept taskId (RunnerFailed (TaskReject reason))"

definition handleRunnerDeferred :: "string \<Rightarrow> Broker \<Rightarrow> Broker" where
  "handleRunnerDeferred taskId = settleRunnerAccept taskId (RunnerFailed TaskDeferred)"

definition settleRequesterAccept :: "string \<Rightarrow> accept_phase \<Rightarrow> Broker \<Rightarrow> Broker" where
  "settleRequesterAccept taskId settled b =
     (case jget (b_requesterAcceptRejects b) taskId of
        None \<Rightarrow> b
      | Some _ \<Rightarrow>
          (settle_promise taskId AwaitRequester settled b)
          \<lparr>b_requesterAcceptRejects := jdel (b_requesterAcceptRejects b) taskId\<rparr>)"

definition handleRequesterAccept :: "string \<Rightarrow> payload \<Rightarrow> Broker \<Rightarrow> Broker" where
  "handleRequesterAccept taskId settings = settleRequesterAccept taskId (RequesterAccepted settings)"

definition handleRequesterReject :: "string \<Rightarrow> string \<Rightarrow> Broker \<Rightarrow> Broker" where
  "handleRequesterReject taskId reason = settleRequesterAccept taskId (RequesterFailed (TaskReject reason))"

text \<open>The timers of the two promises reject them and leave the maps to the code that waits.\<close>

definition runnerAcceptTimeout :: "string \<Rightarrow> Broker \<Rightarrow> Broker" where
  "runnerAcceptTimeout taskId = settle_promise taskId AwaitRunner (RunnerFailed RunnerAcceptTimeout)"

definition requesterAcceptTimeout :: "string \<Rightarrow> Broker \<Rightarrow> Broker" where
  "requesterAcceptTimeout taskId = settle_promise taskId AwaitRequester (RequesterFailed RequesterAcceptTimeout)"

section \<open>acceptOffer after its promises\<close>

definition drop_acceptance :: "string \<Rightarrow> Broker \<Rightarrow> Broker" where
  "drop_acceptance taskId b = b\<lparr>b_acceptances := filter (\<lambda>a. ac_taskId a \<noteq> taskId) (b_acceptances b)\<rparr>"

definition acceptOffer_failed ::
    "BrokerConfig \<Rightarrow> BrokerEnv \<Rightarrow> Acceptance \<Rightarrow> accept_failure \<Rightarrow> Broker \<Rightarrow> Broker" where
  "acceptOffer_failed cfg env a e b =
     (let b0 = drop_acceptance (ac_taskId a) b;
          b1 = upd_request (ac_request a) (\<lambda>rq. rq\<lparr>rq_acceptInProgress := False\<rparr>) b0;
          runnerId = of_runnerId (ac_offer a)
      in case e of
          TaskReject reason \<Rightarrow> settleTasks cfg env b1
        | TaskDeferred \<Rightarrow> refreshRequestTimeout (ac_request a) b1
        | _ \<Rightarrow>
            let b2 = b1\<lparr>b_runnerAcceptRejects := jdel (b_runnerAcceptRejects b1) (ac_taskId a)\<rparr>;
                b3 = refreshRequestTimeout (ac_request a) b2;
                b4 = messageRunner runnerId (TaskCancel (ac_taskId a) ''Acknowledgement window elapsed'') b3;
                b5 = discardOffersFrom runnerId b4;
                b6 = flagRunnerIfUnresponsive cfg env runnerId b5
            in settleTasks cfg env b6)"

definition acceptOffer_accepted :: "Acceptance \<Rightarrow> Broker \<Rightarrow> Broker" where
  "acceptOffer_accepted a b =
     (let request = request_at b (ac_request a);
          b1 = upd_request (ac_request a) (\<lambda>rq. rq\<lparr>rq_timeout := False\<rparr>) b;
          task = \<lparr>tk_id = ac_taskId a, tk_runnerId = of_runnerId (ac_offer a),
                  tk_requesterId = rq_requesterId request, tk_taskType = of_taskType (ac_offer a),
                  tk_timeout = False, tk_timesOutAt = None\<rparr>;
          b2 = b1\<lparr>b_tasks := jset (b_tasks b1) (ac_taskId a) task\<rparr>
      in case findRequest b2 (rq_requestId request) of
          None \<Rightarrow> cancelTask (ac_taskId a) ''Task request expired'' (drop_acceptance (ac_taskId a) b2)
        | Some r \<Rightarrow>
            messageRequester (rq_requesterId request) (TaskReady (rq_requestId request) (ac_taskId a))
              (b2\<lparr>b_pendingTaskRequests := remove1 r (b_pendingTaskRequests b2),
                 b_requesterAcceptRejects := jset (b_requesterAcceptRejects b2) (ac_taskId a) (),
                 b_acceptances := map (\<lambda>x. if ac_taskId x = ac_taskId a then x\<lparr>ac_phase := AwaitRequester\<rparr> else x)
                   (b_acceptances b2)\<rparr>))"

definition acceptOffer_settings ::
    "BrokerConfig \<Rightarrow> BrokerEnv \<Rightarrow> Acceptance \<Rightarrow> payload \<Rightarrow> Broker \<Rightarrow> Broker" where
  "acceptOffer_settings cfg env a settings b =
     (let b0 = drop_acceptance (ac_taskId a) b
      in case sendTaskSettings cfg env (ac_taskId a) settings b0 of
          (None, b1) \<Rightarrow> b1
        | (Some (TaskRunnerUnreachable _ _), b1) \<Rightarrow> b1
        | (Some _, b1) \<Rightarrow> cancelTask (ac_taskId a) ''Unknown reason'' b1)"

definition acceptOffer_requesterFailed :: "Acceptance \<Rightarrow> accept_failure \<Rightarrow> Broker \<Rightarrow> Broker" where
  "acceptOffer_requesterFailed a e b =
     (let b0 = drop_acceptance (ac_taskId a) b
      in case e of
          TaskReject reason \<Rightarrow> cancelTask (ac_taskId a) reason b0
        | RequesterAcceptTimeout \<Rightarrow>
            cancelTask (ac_taskId a) ''Requester took too long to acknowledge the task''
              (b0\<lparr>b_requesterAcceptRejects := jdel (b_requesterAcceptRejects b0) (ac_taskId a)\<rparr>)
        | _ \<Rightarrow> cancelTask (ac_taskId a) ''Unknown reason'' b0)"

text \<open>One continuation of \<^verbatim>\<open>acceptOffer\<close>, chosen by how its promise was settled.\<close>

definition resumeAccept :: "BrokerConfig \<Rightarrow> BrokerEnv \<Rightarrow> Acceptance \<Rightarrow> Broker \<Rightarrow> Broker" where
  "resumeAccept cfg env a b =
     (case ac_phase a of
        AwaitRunner \<Rightarrow> b
      | RunnerAccepted \<Rightarrow> acceptOffer_accepted a b
      | RunnerFailed e \<Rightarrow> acceptOffer_failed cfg env a e b
      | AwaitRequester \<Rightarrow> b
      | RequesterAccepted settings \<Rightarrow> acceptOffer_settings cfg env a settings b
      | RequesterFailed e \<Rightarrow> acceptOffer_requesterFailed a e b)"

section \<open>Incoming messages\<close>

definition deregisterRunner :: "string \<Rightarrow> payload \<Rightarrow> Broker \<Rightarrow> Broker" where
  "deregisterRunner runnerId error b =
     (let b1 = discardOffersFrom runnerId
            (b\<lparr>b_knownRunners := jdel (b_knownRunners b) runnerId,
              b_consecutiveAcceptTimeouts := jdel (b_consecutiveAcceptTimeouts b) runnerId,
              b_silentRunnersSince := jdel (b_silentRunnersSince b) runnerId\<rparr>);
          b2 = fold (\<lambda>(taskId, acceptor) b. if acceptor = runnerId
                 then handleRunnerReject taskId (''The Task Runner ('' @ runnerId @ '') has disconnected: '' @ error) b
                 else b) (b_runnerAcceptRejects b1) b1
      in failTasks (getInFlightTaskIds b2 runnerId) (TransportError error) b2)"

datatype runner_message =
    Runner_taskaccepted string
  | Runner_taskrejected string string
  | Runner_taskdeferred string
  | Runner_taskoffer string string int
  | Runner_taskdone string payload
  | Runner_taskerror string payload
  | Runner_taskdatarequest string string payload
  | Runner_nodetypesrequest string string payload
  | Runner_rpc string string payload payload
  | Runner_info

text \<open>\<^verbatim>\<open>handleRpcRequest\<close>, \<^verbatim>\<open>handleDataRequest\<close> and \<^verbatim>\<open>handleNodeTypesRequest\<close>: a message about a task goes to
  the task's requester.\<close>

definition handleRpcRequest :: "string \<Rightarrow> string \<Rightarrow> payload \<Rightarrow> payload \<Rightarrow> Broker \<Rightarrow> Broker" where
  "handleRpcRequest taskId callId name params b =
     (case jget (b_tasks b) taskId of None \<Rightarrow> b
      | Some task \<Rightarrow> messageRequester (tk_requesterId task) (Rpc taskId callId name params) b)"

definition handleDataRequest :: "string \<Rightarrow> string \<Rightarrow> payload \<Rightarrow> Broker \<Rightarrow> Broker" where
  "handleDataRequest taskId requestId requestParams b =
     (case jget (b_tasks b) taskId of None \<Rightarrow> b
      | Some task \<Rightarrow> messageRequester (tk_requesterId task) (TaskDataRequest taskId requestId requestParams) b)"

definition handleNodeTypesRequest :: "string \<Rightarrow> string \<Rightarrow> payload \<Rightarrow> Broker \<Rightarrow> Broker" where
  "handleNodeTypesRequest taskId requestId requestParams b =
     (case jget (b_tasks b) taskId of None \<Rightarrow> b
      | Some task \<Rightarrow> messageRequester (tk_requesterId task) (NodeTypesRequest taskId requestId requestParams) b)"

definition handleResponse :: "string \<Rightarrow> string \<Rightarrow> payload \<Rightarrow> Broker \<Rightarrow> Broker" where
  "handleResponse taskId requestId data b =
     (case jget (b_tasks b) taskId of None \<Rightarrow> b
      | Some task \<Rightarrow> messageRunner (tk_requesterId task) (TaskDataResponse taskId requestId data) b)"

definition onRunnerMessage :: "BrokerConfig \<Rightarrow> BrokerEnv \<Rightarrow> string \<Rightarrow> runner_message \<Rightarrow> Broker \<Rightarrow> Broker" where
  "onRunnerMessage cfg env runnerId message b0 =
     (if jget (b_knownRunners b0) runnerId = None then b0
      else let b = b0\<lparr>b_silentRunnersSince := jdel (b_silentRunnersSince b0) runnerId\<rparr>
        in case message of
            Runner_taskaccepted taskId \<Rightarrow> handleRunnerAccept taskId b
          | Runner_taskrejected taskId reason \<Rightarrow> handleRunnerReject taskId reason b
          | Runner_taskdeferred taskId \<Rightarrow> handleRunnerDeferred taskId b
          | Runner_taskoffer offerId taskType validFor \<Rightarrow>
              taskOffered cfg env \<lparr>of_offerId = offerId, of_runnerId = runnerId, of_taskType = taskType,
                of_validFor = validFor,
                of_validUntil = (if validFor = -1 then 0 else env_hrtime env + validFor * 1000000)\<rparr> b
          | Runner_taskdone taskId data \<Rightarrow>
              taskDoneHandler taskId data (resetAcceptTimeoutsOnOwnTask runnerId taskId b)
          | Runner_taskerror taskId error \<Rightarrow>
              taskErrorHandler taskId (RunnerError error) (resetAcceptTimeoutsOnOwnTask runnerId taskId b)
          | Runner_taskdatarequest taskId requestId params \<Rightarrow> handleDataRequest taskId requestId params b
          | Runner_nodetypesrequest taskId requestId params \<Rightarrow> handleNodeTypesRequest taskId requestId params b
          | Runner_rpc taskId callId name params \<Rightarrow> handleRpcRequest taskId callId name params b
          | Runner_info \<Rightarrow> b)"

datatype requester_message =
    Requester_tasksettings string payload
  | Requester_taskcancel string string
  | Requester_taskrequest string string
  | Requester_taskdataresponse string string payload
  | Requester_nodetypesresponse string string payload
  | Requester_rpcresponse string string payload payload

text \<open>The body the three responses share: the message goes to the runner of the task. The error that
  \<^verbatim>\<open>getRunnerOrFailTask\<close> throws after failing the task leaves the handler.\<close>

definition respondToRunner :: "BrokerEnv \<Rightarrow> string \<Rightarrow> to_runner \<Rightarrow> Broker \<Rightarrow> Broker" where
  "respondToRunner env taskId message b =
     (if jget (b_tasks b) taskId = None then b
      else case getRunnerOrFailTask env taskId b of
          (Inl e, b') \<Rightarrow> b'
        | (Inr runnerId, b') \<Rightarrow> messageRunner runnerId message b')"

definition handleRequesterRpcResponse ::
    "BrokerEnv \<Rightarrow> string \<Rightarrow> string \<Rightarrow> payload \<Rightarrow> payload \<Rightarrow> Broker \<Rightarrow> Broker" where
  "handleRequesterRpcResponse env taskId callId status data =
     respondToRunner env taskId (RpcResponse taskId callId status data)"

definition handleRequesterDataResponse :: "BrokerEnv \<Rightarrow> string \<Rightarrow> string \<Rightarrow> payload \<Rightarrow> Broker \<Rightarrow> Broker" where
  "handleRequesterDataResponse env taskId requestId data =
     respondToRunner env taskId (TaskDataResponse taskId requestId data)"

definition handleRequesterNodeTypesResponse :: "BrokerEnv \<Rightarrow> string \<Rightarrow> string \<Rightarrow> payload \<Rightarrow> Broker \<Rightarrow> Broker" where
  "handleRequesterNodeTypesResponse env taskId requestId nodeTypes =
     respondToRunner env taskId (NodeTypes taskId requestId nodeTypes)"

definition onRequesterMessage :: "BrokerConfig \<Rightarrow> BrokerEnv \<Rightarrow> string \<Rightarrow> requester_message \<Rightarrow> Broker \<Rightarrow> Broker" where
  "onRequesterMessage cfg env requesterId message b =
     (case message of
        Requester_tasksettings taskId settings \<Rightarrow> handleRequesterAccept taskId settings b
      | Requester_taskcancel taskId reason \<Rightarrow> cancelTask taskId reason b
      | Requester_taskrequest requestId taskType \<Rightarrow>
          taskRequested cfg env \<lparr>rq_requestId = requestId, rq_requesterId = requesterId, rq_taskType = taskType,
            rq_timeout = True, rq_acceptInProgress = False, rq_timeoutRefreshes = 0\<rparr> b
      | Requester_taskdataresponse taskId requestId data \<Rightarrow> handleRequesterDataResponse env taskId requestId data b
      | Requester_nodetypesresponse taskId requestId nodeTypes \<Rightarrow>
          handleRequesterNodeTypesResponse env taskId requestId nodeTypes b
      | Requester_rpcresponse taskId callId status data \<Rightarrow>
          handleRequesterRpcResponse env taskId callId status data b)"

section \<open>The machine\<close>

text \<open>A timer fires only while it is armed, and a continuation runs once per settled promise. A requester
  draws a new id for each request.\<close>

inductive broker_step :: "BrokerConfig \<Rightarrow> Broker \<Rightarrow> Broker \<Rightarrow> bool" for cfg where
  registers: "broker_step cfg b (registerRunner runner b)"
| deregisters: "broker_step cfg b (deregisterRunner runnerId error b)"
| enters: "broker_step cfg b (registerRequester requesterId b)"
| leaves: "broker_step cfg b (deregisterRequester requesterId b)"
| runner_sends: "broker_step cfg b (onRunnerMessage cfg env runnerId m b)"
| requester_sends: "(\<And>i t. m = Requester_taskrequest i t \<Longrightarrow> i \<notin> rq_requestId ` set (b_requests b)) \<Longrightarrow>
    broker_step cfg b (onRequesterMessage cfg env requesterId m b)"
| requester_rejects: "broker_step cfg b (handleRequesterReject taskId reason b)"
| responds: "broker_step cfg b (handleResponse taskId requestId data b)"
| request_times_out: "r < length (b_requests b) \<Longrightarrow> rq_timeout (request_at b r) \<Longrightarrow>
    broker_step cfg b (handleRequestTimeout env (rq_requestId (request_at b r)) b)"
| runner_accept_times_out: "broker_step cfg b (runnerAcceptTimeout taskId b)"
| requester_accept_times_out: "broker_step cfg b (requesterAcceptTimeout taskId b)"
| task_times_out: "jget (b_tasks b) taskId = Some task \<Longrightarrow> tk_timeout task \<Longrightarrow>
    broker_step cfg b (handleTaskTimeout cfg taskId b)"
| resumes: "a \<in> set (b_acceptances b) \<Longrightarrow> broker_step cfg b (resumeAccept cfg env a b)"
| drains: "broker_step cfg b (startDraining b)"
| shuts_down: "broker_step cfg b (capTaskTimeoutsForShutdown deadline b)"
| expires: "broker_step cfg b (expireTasks env b)"

end
