(* ===== verification/Task_Broker.thy ===== *)
theory Task_Broker
  imports Task_Broker_Model Concurrency_Queue
begin

text \<open>
  The broker's invariant and what follows from it: a request is offered to one runner at a time and
  answered at most once, a task is settled at most once, tasks are matched by type, and the
  extensions of a request are bounded. \<open>core\<close> is the part of the state the invariant reads; most
  operations leave it alone.
\<close>

section \<open>Answers\<close>

definition answeredTasks :: "broker_output list \<Rightarrow> string list" where
  "answeredTasks out = List.map_filter (\<lambda>x. case x of
      ToRequester _ (TaskDone t _) \<Rightarrow> Some t
    | ToRequester _ (TaskFailed t _) \<Rightarrow> Some t
    | _ \<Rightarrow> None) out"

definition answeredRequests :: "broker_output list \<Rightarrow> string list" where
  "answeredRequests out = List.map_filter (\<lambda>x. case x of
      ToRequester _ (TaskReady i _) \<Rightarrow> Some i
    | ToRequester _ (RequestExpired i _) \<Rightarrow> Some i
    | _ \<Rightarrow> None) out"

lemma answered_append [simp]:
  "answeredTasks (xs @ ys) = answeredTasks xs @ answeredTasks ys"
  "answeredRequests (xs @ ys) = answeredRequests xs @ answeredRequests ys"
  by (simp_all add: answeredTasks_def answeredRequests_def List.map_filter_def)

lemma answered_simps [simp]:
  "answeredTasks [] = []" "answeredRequests [] = []"
  "answeredTasks (ToRunner r m # xs) = answeredTasks xs"
  "answeredRequests (ToRunner r m # xs) = answeredRequests xs"
  "answeredTasks (RunnerUnresponsive r # xs) = answeredTasks xs"
  "answeredRequests (RunnerUnresponsive r # xs) = answeredRequests xs"
  "answeredTasks (RunnerTimedOutDuringTask r # xs) = answeredTasks xs"
  "answeredRequests (RunnerTimedOutDuringTask r # xs) = answeredRequests xs"
  "answeredTasks (ToRequester q (TaskDone t d) # xs) = t # answeredTasks xs"
  "answeredTasks (ToRequester q (TaskFailed t e) # xs) = t # answeredTasks xs"
  "answeredTasks (ToRequester q (TaskReady i t) # xs) = answeredTasks xs"
  "answeredTasks (ToRequester q (RequestExpired i x) # xs) = answeredTasks xs"
  "answeredTasks (ToRequester q (TaskDataRequest t i p) # xs) = answeredTasks xs"
  "answeredTasks (ToRequester q (NodeTypesRequest t i p) # xs) = answeredTasks xs"
  "answeredTasks (ToRequester q (Rpc t i p p') # xs) = answeredTasks xs"
  "answeredRequests (ToRequester q (TaskDone t d) # xs) = answeredRequests xs"
  "answeredRequests (ToRequester q (TaskFailed t e) # xs) = answeredRequests xs"
  "answeredRequests (ToRequester q (TaskReady i t) # xs) = i # answeredRequests xs"
  "answeredRequests (ToRequester q (RequestExpired i x) # xs) = i # answeredRequests xs"
  "answeredRequests (ToRequester q (TaskDataRequest t i p) # xs) = answeredRequests xs"
  "answeredRequests (ToRequester q (NodeTypesRequest t i p) # xs) = answeredRequests xs"
  "answeredRequests (ToRequester q (Rpc t i p p') # xs) = answeredRequests xs"
  by (simp_all add: answeredTasks_def answeredRequests_def List.map_filter_def)

section \<open>The invariant\<close>

fun early :: "accept_phase \<Rightarrow> bool" where
  "early AwaitRunner = True"
| "early RunnerAccepted = True"
| "early (RunnerFailed _) = True"
| "early _ = False"

text \<open>Requests: one acceptance at a time per request, marked on the request; once the runner has
  accepted, the request is no longer pending; an offer is matched with a request of its type.\<close>

definition requests_ok :: "TaskRequest list \<Rightarrow> nat list \<Rightarrow> Acceptance list \<Rightarrow> bool" where
  "requests_ok R P A \<longleftrightarrow>
     distinct P \<and> (\<forall>r\<in>set P. r < length R) \<and> (\<forall>a\<in>set A. ac_request a < length R) \<and>
     distinct (map ac_request (filter (\<lambda>a. early (ac_phase a)) A)) \<and>
     (\<forall>a\<in>set A. early (ac_phase a) \<longrightarrow> rq_acceptInProgress (R ! ac_request a)) \<and>
     (\<forall>a\<in>set A. \<not> early (ac_phase a) \<longrightarrow> ac_request a \<notin> set P) \<and>
     (\<forall>a\<in>set A. of_taskType (ac_offer a) = rq_taskType (R ! ac_request a)) \<and>
     (\<forall>rq\<in>set R. rq_timeoutRefreshes rq \<le> MAX_REQUEST_TIMEOUT_REFRESHES)"

text \<open>Tasks: ids come from the generator, a task is tracked only after the runner accepted it, and an
  answered task is not tracked again.\<close>

definition tasks_ok :: "(nat \<Rightarrow> string) \<Rightarrow> nat \<Rightarrow> Acceptance list \<Rightarrow> (string, Task) jsmap \<Rightarrow> string list \<Rightarrow> bool" where
  "tasks_ok nanoid n A T out \<longleftrightarrow>
     distinct (map ac_taskId A) \<and> ac_taskId ` set A \<subseteq> nanoid ` {..<n} \<and> fst ` set T \<subseteq> nanoid ` {..<n} \<and>
     set out \<subseteq> nanoid ` {..<n} \<and> distinct out \<and> set out \<inter> fst ` set T = {} \<and>
     (\<forall>a\<in>set A. early (ac_phase a) \<longrightarrow> ac_taskId a \<notin> fst ` set T \<and> ac_taskId a \<notin> set out) \<and>
     (\<forall>(t, task)\<in>set T. tk_id task = t)"

definition answers_ok :: "TaskRequest list \<Rightarrow> nat list \<Rightarrow> string list \<Rightarrow> bool" where
  "answers_ok R P out \<longleftrightarrow>
     distinct (map rq_requestId R) \<and> distinct out \<and> set out \<subseteq> rq_requestId ` set R \<and>
     (\<forall>r\<in>set P. rq_requestId (R ! r) \<notin> set out)"

definition broker_ok :: "BrokerConfig \<Rightarrow> Broker \<Rightarrow> bool" where
  "broker_ok cfg b \<longleftrightarrow>
     requests_ok (b_requests b) (b_pendingTaskRequests b) (b_acceptances b) \<and>
     tasks_ok (cfg_nanoid cfg) (b_nextId b) (b_acceptances b) (b_tasks b) (answeredTasks (b_out b)) \<and>
     answers_ok (b_requests b) (b_pendingTaskRequests b) (answeredRequests (b_out b))"

definition core :: "Broker \<Rightarrow> TaskRequest list \<times> nat list \<times> Acceptance list \<times> nat \<times> (string, Task) jsmap \<times>
    string list \<times> string list" where
  "core b = (b_requests b, b_pendingTaskRequests b, b_acceptances b, b_nextId b, b_tasks b,
     answeredTasks (b_out b), answeredRequests (b_out b))"

lemma broker_ok_core: "core b = core b' \<Longrightarrow> broker_ok cfg b = broker_ok cfg b'"
  by (simp add: core_def broker_ok_def)

lemma core_frame [simp]:
  "core (b\<lparr>b_knownRunners := x1\<rparr>) = core b" "core (b\<lparr>b_requesters := x2\<rparr>) = core b"
  "core (b\<lparr>b_isDraining := x3\<rparr>) = core b" "core (b\<lparr>b_shutdownDeadline := x4\<rparr>) = core b"
  "core (b\<lparr>b_runnerAcceptRejects := x5\<rparr>) = core b" "core (b\<lparr>b_requesterAcceptRejects := x6\<rparr>) = core b"
  "core (b\<lparr>b_consecutiveAcceptTimeouts := x7\<rparr>) = core b" "core (b\<lparr>b_silentRunnersSince := x8\<rparr>) = core b"
  "core (b\<lparr>b_pendingTaskOffers := x9\<rparr>) = core b" "core (b\<lparr>b_mismatchWarned := x10\<rparr>) = core b"
  by (simp_all add: core_def)

lemma core_messages [simp]:
  "core (messageRunner r m b) = core b"
  "core (discardOffers f b) = core b" "core (expireTasks env b) = core b"
  "core (discardOffersFrom r b) = core b" "core (discardOffersFromUnreachableRunners env b) = core b"
  "core (warnOnTaskTypeMismatch i b) = core b"
  "core (resetAcceptTimeoutsOnOwnTask r t b) = core b"
  by (auto simp: messageRunner_def discardOffers_def expireTasks_def discardOffersFrom_def
      discardOffersFromUnreachableRunners_def warnOnTaskTypeMismatch_def resetAcceptTimeoutsOnOwnTask_def
      core_def split: option.splits)

lemma core_reportUnresponsive [simp]: "core (snd (reportUnresponsive r b)) = core b"
  by (simp add: reportUnresponsive_def core_def)

lemma core_reportE: "reportUnresponsive r b = (x, b') \<Longrightarrow> core b' = core b"
  using core_reportUnresponsive[of r b] by simp

lemma core_flag [simp]: "core (flagRunnerIfUnresponsive cfg env r b) = core b"
  by (auto simp: flagRunnerIfUnresponsive_def Let_def dest: core_reportE split: prod.splits bool.splits)

lemma core_silent [simp]: "core (flagSilentRunner now r b) = core b"
  by (auto simp: flagSilentRunner_def dest: core_reportE split: prod.splits bool.splits option.splits)

lemma core_flagSilentRunners [simp]: "core (flagSilentRunners env type b) = core b"
proof -
  have "core (fold (\<lambda>runner. flagSilentRunner now (rn_id runner)) rs b) = core b" for now b and rs :: "TaskRunner list"
    by (induction rs arbitrary: b) simp_all
  then show ?thesis by (simp add: flagSilentRunners_def Let_def)
qed

section \<open>What one change of the state keeps\<close>

lemma nth_upd: "(xs[i := f (xs ! i)]) ! j = (if i = j \<and> j < length xs then f (xs ! j) else xs ! j)"
  by (cases "i = j"; cases "j < length xs") (auto simp: list_update_beyond)

lemma ok_upd_request:
  assumes ok: "broker_ok cfg b"
    and static: "\<And>rq. rq_requestId (f rq) = rq_requestId rq" "\<And>rq. rq_taskType (f rq) = rq_taskType rq"
    and flag: "(\<forall>rq. rq_acceptInProgress rq \<longrightarrow> rq_acceptInProgress (f rq)) \<or>
      (\<forall>a\<in>set (b_acceptances b). early (ac_phase a) \<longrightarrow> ac_request a \<noteq> r)"
    and bound: "rq_timeoutRefreshes (request_at b r) \<le> MAX_REQUEST_TIMEOUT_REFRESHES \<Longrightarrow>
      rq_timeoutRefreshes (f (request_at b r)) \<le> MAX_REQUEST_TIMEOUT_REFRESHES"
  shows "broker_ok cfg (upd_request r f b)"
proof (cases "r < length (b_requests b)")
  case False
  then show ?thesis using ok by (simp add: upd_request_def list_update_beyond)
next
  case True
  let ?R = "b_requests b" and ?R' = "(b_requests b)[r := f (request_at b r)]"
  have st: "rq_requestId (?R' ! i) = rq_requestId (?R ! i)" "rq_taskType (?R' ! i) = rq_taskType (?R ! i)" for i
    by (simp_all add: nth_upd static)
  have ids: "map rq_requestId ?R' = map rq_requestId ?R"
    by (rule nth_equalityI) (simp_all add: st)
  have idset: "rq_requestId ` set ?R' = rq_requestId ` set ?R"
    using ids by (metis list.set_map)
  have "\<forall>rq\<in>set ?R'. rq_timeoutRefreshes rq \<le> MAX_REQUEST_TIMEOUT_REFRESHES"
    using ok bound True set_update_subset_insert[of ?R r "f (?R ! r)"]
    by (auto simp: broker_ok_def requests_ok_def)
  moreover have "\<forall>a\<in>set (b_acceptances b). early (ac_phase a) \<longrightarrow> rq_acceptInProgress (?R' ! ac_request a)"
    using ok flag by (auto simp: broker_ok_def requests_ok_def nth_upd)
  ultimately have "requests_ok ?R' (b_pendingTaskRequests b) (b_acceptances b)"
    using ok by (auto simp: broker_ok_def requests_ok_def st)
  moreover have "answers_ok ?R' (b_pendingTaskRequests b) (answeredRequests (b_out b))"
    using ok ids idset by (simp add: broker_ok_def answers_ok_def st)
  ultimately show ?thesis
    using ok by (simp add: broker_ok_def upd_request_def)
qed

lemma ok_refresh:
  assumes "broker_ok cfg b"
  shows "broker_ok cfg (refreshRequestTimeout r b)"
  unfolding refreshRequestTimeout_def Let_def
  by (auto intro!: ok_upd_request assms)

lemma distinct_filter_filter:
  "distinct (map f (filter P xs)) \<Longrightarrow> distinct (map f (filter P (filter Q xs)))"
  by (induction xs) auto

lemma ok_drop:
  assumes "broker_ok cfg b"
  shows "broker_ok cfg (drop_acceptance t b)"
proof -
  let ?A = "b_acceptances b" and ?A' = "filter (\<lambda>a. ac_taskId a \<noteq> t) (b_acceptances b)"
  have "distinct (map ac_request (filter (\<lambda>a. early (ac_phase a)) ?A'))"
    using assms by (intro distinct_filter_filter) (simp add: broker_ok_def requests_ok_def)
  then have "requests_ok (b_requests b) (b_pendingTaskRequests b) ?A'"
    using assms by (auto simp: broker_ok_def requests_ok_def simp del: filter_filter)
  moreover have "tasks_ok (cfg_nanoid cfg) (b_nextId b) ?A' (b_tasks b) (answeredTasks (b_out b))"
    using assms by (auto simp: broker_ok_def tasks_ok_def distinct_map_filter)
  ultimately show ?thesis using assms by (simp add: broker_ok_def drop_acceptance_def)
qed

lemma same_acceptance:
  assumes "broker_ok cfg b" and "a \<in> set (b_acceptances b)" and "x \<in> set (b_acceptances b)"
    and "ac_taskId x = ac_taskId a \<or> early (ac_phase x) \<and> early (ac_phase a) \<and> ac_request x = ac_request a"
  shows "x = a"
  using assms(4)
proof
  assume "ac_taskId x = ac_taskId a"
  then show ?thesis using assms(1-3) by (auto simp: broker_ok_def tasks_ok_def distinct_map inj_on_def)
next
  assume "early (ac_phase x) \<and> early (ac_phase a) \<and> ac_request x = ac_request a"
  then show ?thesis using assms(1-3) by (auto simp: broker_ok_def requests_ok_def distinct_map inj_on_def)
qed

lemma dropped_request_free:
  assumes "broker_ok cfg b" and "a \<in> set (b_acceptances b)" and "early (ac_phase a)"
    and "x \<in> set (b_acceptances (drop_acceptance (ac_taskId a) b))" and "early (ac_phase x)"
  shows "ac_request x \<noteq> ac_request a"
  using same_acceptance[OF assms(1,2), of x] assms(3-5) by (auto simp: drop_acceptance_def)

lemma tasks_ok_untrack:
  assumes "tasks_ok g n A T out" and "out' = out \<or> out' = out @ [t] \<and> jget T t \<noteq> None"
  shows "tasks_ok g n A (jdel T t) out'"
proof -
  obtain K where K: "K = fst ` set T" by simp
  have T: "set (jdel T t) \<subseteq> set T" by (auto simp: AList.delete_eq)
  have t: "jget T t \<noteq> None \<longleftrightarrow> t \<in> K" by (simp add: K map_of_eq_None_iff)
  show ?thesis
    using assms T unfolding tasks_ok_def jdel_keys t K[symmetric] by auto
qed

lemma ok_untrack:
  assumes "broker_ok cfg b" and "b_requests b' = b_requests b"
    and "b_pendingTaskRequests b' = b_pendingTaskRequests b" and "b_acceptances b' = b_acceptances b"
    and "b_nextId b' = b_nextId b" and "b_tasks b' = jdel (b_tasks b) t"
    and "answeredRequests (b_out b') = answeredRequests (b_out b)"
    and "answeredTasks (b_out b') = answeredTasks (b_out b) \<or>
      answeredTasks (b_out b') = answeredTasks (b_out b) @ [t] \<and> jget (b_tasks b) t \<noteq> None"
  shows "broker_ok cfg b'"
  using assms(1) tasks_ok_untrack[OF _ assms(8)] by (simp add: broker_ok_def assms(2-7))

lemmas answer_defs = untrackTask_def messageRunner_def messageRequester_def

lemma ok_cancel:
  assumes "broker_ok cfg b"
  shows "broker_ok cfg (cancelTask t reason b)"
  using assms by (auto simp: cancelTask_def answer_defs split: option.splits intro: ok_untrack[where t = t])

lemma ok_fail:
  assumes "broker_ok cfg b"
  shows "broker_ok cfg (failTask t e b)"
  using assms by (auto simp: failTask_def answer_defs split: option.splits intro: ok_untrack[where t = t])

lemma tracked_id: "broker_ok cfg b \<Longrightarrow> jget (b_tasks b) t = Some task \<Longrightarrow> tk_id task = t"
  by (auto simp: broker_ok_def tasks_ok_def dest!: map_of_SomeD)

lemma ok_done:
  assumes "broker_ok cfg b"
  shows "broker_ok cfg (taskDoneHandler t d b)"
  using assms tracked_id[OF assms]
  by (auto simp: taskDoneHandler_def answer_defs split: option.splits intro: ok_untrack[where t = t])

lemma ok_error:
  assumes "broker_ok cfg b"
  shows "broker_ok cfg (taskErrorHandler t e b)"
  using assms tracked_id[OF assms]
  by (auto simp: taskErrorHandler_def answer_defs split: option.splits intro: ok_untrack[where t = t])

section \<open>Matching\<close>

lemma tasks_ok_new:
  assumes "tasks_ok g n A T out" and "inj g"
  shows "tasks_ok g (n + 1) (A @ [\<lparr>ac_taskId = g n, ac_offer = offer, ac_request = r, ac_phase = AwaitRunner\<rparr>]) T out"
proof -
  obtain K where K: "K = fst ` set T" by simp
  have "g n \<notin> g ` {..<n}" using assms(2) by (auto dest: injD)
  moreover have "g ` {..<n + 1} = insert (g n) (g ` {..<n})" by (simp add: lessThan_Suc)
  ultimately show ?thesis
    using assms(1) unfolding tasks_ok_def K[symmetric] by auto
qed

lemma ok_acceptOffer:
  assumes ok: "broker_ok cfg b" and inj: "inj (cfg_nanoid cfg)" and r: "r \<in> set (b_pendingTaskRequests b)"
    and type: "of_taskType offer = rq_taskType (request_at b r)"
    and free: "\<forall>a\<in>set (b_acceptances b). early (ac_phase a) \<longrightarrow> ac_request a \<noteq> r"
    and flag: "rq_acceptInProgress (request_at b r)"
  shows "broker_ok cfg (acceptOffer cfg offer r b)"
proof -
  have "requests_ok (b_requests b) (b_pendingTaskRequests b)
      (b_acceptances b @ [\<lparr>ac_taskId = t, ac_offer = offer, ac_request = r, ac_phase = AwaitRunner\<rparr>])" for t
    using ok r type free flag by (auto simp: broker_ok_def requests_ok_def)
  then have "broker_ok cfg (b\<lparr>b_nextId := b_nextId b + 1,
      b_acceptances := b_acceptances b @ [\<lparr>ac_taskId = cfg_nanoid cfg (b_nextId b), ac_offer = offer,
        ac_request = r, ac_phase = AwaitRunner\<rparr>]\<rparr>)"
    using ok tasks_ok_new[OF _ inj] by (simp add: broker_ok_def)
  then show ?thesis
    by (subst broker_ok_core) (simp_all add: acceptOffer_def Let_def core_def messageRunner_def)
qed

lemma ok_settleRequest:
  assumes ok: "broker_ok cfg b" and inj: "inj (cfg_nanoid cfg)" and r: "r \<in> set (b_pendingTaskRequests b)"
  shows "broker_ok cfg (settleRequest cfg r b)"
proof (cases "rq_acceptInProgress (request_at b r)")
  case True
  with ok show ?thesis by (simp add: settleRequest_def)
next
  case False
  then have free: "\<forall>a\<in>set (b_acceptances b). early (ac_phase a) \<longrightarrow> ac_request a \<noteq> r"
    using ok by (auto simp: broker_ok_def requests_ok_def)
  show ?thesis
  proof (cases "List.extract (\<lambda>o'. of_taskType o' = rq_taskType (request_at b r)) (b_pendingTaskOffers b)")
    case None
    have "broker_ok cfg (warnOnTaskTypeMismatch r b)"
      using ok broker_ok_core[of "warnOnTaskTypeMismatch r b" b] by simp
    with False None show ?thesis by (simp add: settleRequest_def)
  next
    case (Some x)
    obtain before offer after where x: "x = (before, offer, after)" by (cases x)
    let ?b = "b\<lparr>b_pendingTaskOffers := before @ after,
      b_mismatchWarned := set_del (b_mismatchWarned b) (rq_requestId (request_at b r))\<rparr>"
    let ?b' = "upd_request r (\<lambda>rq. rq\<lparr>rq_acceptInProgress := True\<rparr>) ?b"
    have len: "r < length (b_requests b)" using ok r by (simp add: broker_ok_def requests_ok_def)
    have type: "of_taskType offer = rq_taskType (request_at b r)"
      using Some unfolding x extract_Some_iff by simp
    have "broker_ok cfg ?b" using ok broker_ok_core[of ?b b] by simp
    then have "broker_ok cfg ?b'" by (rule ok_upd_request) auto
    then have "broker_ok cfg (acceptOffer cfg offer r ?b')"
      by (rule ok_acceptOffer[OF _ inj]) (use r free type len in \<open>simp_all add: upd_request_def\<close>)
    with False Some show ?thesis by (simp add: settleRequest_def x)
  qed
qed

lemma settleRequest_pending [simp]: "b_pendingTaskRequests (settleRequest cfg r b) = b_pendingTaskRequests b"
  by (simp add: settleRequest_def warnOnTaskTypeMismatch_def acceptOffer_def Let_def messageRunner_def
      upd_request_def split: option.splits)

lemma ok_settle_loop:
  assumes "broker_ok cfg b" and "inj (cfg_nanoid cfg)" and "set rs \<subseteq> set (b_pendingTaskRequests b)"
  shows "broker_ok cfg (fold (settleRequest cfg) rs b)"
  using assms by (induction rs arbitrary: b) (simp_all add: ok_settleRequest)

lemma ok_settleTasks:
  assumes "broker_ok cfg b" and "inj (cfg_nanoid cfg)"
  shows "broker_ok cfg (settleTasks cfg env b)"
proof -
  let ?b = "discardOffersFromUnreachableRunners env (expireTasks env b)"
  have "broker_ok cfg ?b" using assms(1) broker_ok_core[of ?b b] by simp
  then show ?thesis unfolding settleTasks_def Let_def by (rule ok_settle_loop) (use assms(2) in simp_all)
qed

section \<open>Promises and continuations\<close>

lemma ok_phase:
  assumes ok: "broker_ok cfg b"
    and g: "\<And>a. ac_taskId (g a) = ac_taskId a" "\<And>a. ac_offer (g a) = ac_offer a" "\<And>a. ac_request (g a) = ac_request a"
      "\<And>a. early (ac_phase (g a)) = early (ac_phase a)"
  shows "broker_ok cfg (b\<lparr>b_acceptances := map g (b_acceptances b)\<rparr>)"
proof -
  have ids: "map ac_taskId (map g A) = map ac_taskId A" for A by (simp add: g)
  have rqs: "map ac_request (filter (\<lambda>a. early (ac_phase a)) (map g A)) =
      map ac_request (filter (\<lambda>a. early (ac_phase a)) A)" for A
    by (induction A) (simp_all add: g)
  have idset: "ac_taskId ` set (map g A) = ac_taskId ` set A" for A
    using ids[of A] by (metis list.set_map)
  show ?thesis
    using ok unfolding broker_ok_def requests_ok_def tasks_ok_def
    by (simp add: ids rqs idset del: map_map set_map) (simp add: g)
qed

lemma ok_settle_promise:
  assumes "broker_ok cfg b" and "early awaited = early settled"
  shows "broker_ok cfg (settle_promise t awaited settled b)"
  unfolding settle_promise_def by (rule ok_phase[OF assms(1)]) (use assms(2) in auto)

lemma ok_settleRunnerAccept:
  assumes "broker_ok cfg b" and "early settled"
  shows "broker_ok cfg (settleRunnerAccept t settled b)"
proof (cases "jget (b_runnerAcceptRejects b) t")
  case (Some r)
  let ?b = "b\<lparr>b_consecutiveAcceptTimeouts := jdel (b_consecutiveAcceptTimeouts b) r\<rparr>"
  have "broker_ok cfg ?b" using assms(1) broker_ok_core[of ?b b] by simp
  then have "broker_ok cfg (settle_promise t AwaitRunner settled ?b)"
    by (rule ok_settle_promise) (simp add: assms(2))
  then show ?thesis
    by (subst broker_ok_core[of _ "settle_promise t AwaitRunner settled ?b"])
      (simp_all add: settleRunnerAccept_def Some)
qed (simp add: settleRunnerAccept_def assms(1))

lemma ok_settleRequesterAccept:
  assumes "broker_ok cfg b" and "\<not> early settled"
  shows "broker_ok cfg (settleRequesterAccept t settled b)"
proof (cases "jget (b_requesterAcceptRejects b) t")
  case (Some r)
  have "broker_ok cfg (settle_promise t AwaitRequester settled b)"
    by (rule ok_settle_promise[OF assms(1)]) (simp add: assms(2))
  then show ?thesis
    by (subst broker_ok_core[of _ "settle_promise t AwaitRequester settled b"])
      (simp_all add: settleRequesterAccept_def Some)
qed (simp add: settleRequesterAccept_def assms(1))

lemma ok_frame:
  "broker_ok cfg b \<Longrightarrow> core b' = core b \<Longrightarrow> broker_ok cfg b'"
  using broker_ok_core by blast

lemma ok_acceptOffer_failed:
  assumes ok: "broker_ok cfg b" and inj: "inj (cfg_nanoid cfg)" and a: "a \<in> set (b_acceptances b)"
    and e: "ac_phase a = RunnerFailed e"
  shows "broker_ok cfg (acceptOffer_failed cfg env a e b)"
proof -
  let ?b = "upd_request (ac_request a) (\<lambda>rq. rq\<lparr>rq_acceptInProgress := False\<rparr>) (drop_acceptance (ac_taskId a) b)"
  have ok1: "broker_ok cfg ?b"
    by (rule ok_upd_request[OF ok_drop[OF ok]])
      (use dropped_request_free[OF ok a] e in auto)
  let ?b2 = "?b\<lparr>b_runnerAcceptRejects := jdel (b_runnerAcceptRejects ?b) (ac_taskId a)\<rparr>"
  have "broker_ok cfg (refreshRequestTimeout (ac_request a) ?b2)"
    by (rule ok_refresh[OF ok_frame[OF ok1]]) simp
  then have "broker_ok cfg (flagRunnerIfUnresponsive cfg env r (discardOffersFrom r
      (messageRunner r m (refreshRequestTimeout (ac_request a) ?b2))))" for r m
    by (rule ok_frame) simp
  from ok_settleTasks[OF this inj] ok_settleTasks[OF ok1 inj] ok_refresh[OF ok1] show ?thesis
    by (cases e) (simp_all add: acceptOffer_failed_def Let_def)
qed

lemma find_pending:
  assumes "broker_ok cfg b" and "i < length (b_requests b)"
    and "findRequest b (rq_requestId (request_at b i)) = Some r"
  shows "r = i" "i \<in> set (b_pendingTaskRequests b)"
proof -
  have "r \<in> set (b_pendingTaskRequests b)" "rq_requestId (request_at b r) = rq_requestId (request_at b i)"
    using assms(3) by (auto simp: findRequest_def find_Some_iff)
  moreover from this have "r < length (b_requests b)"
    using assms(1) by (simp add: broker_ok_def requests_ok_def)
  ultimately show "r = i"
    using assms(1,2) by (auto simp: broker_ok_def answers_ok_def distinct_conv_nth)
  with \<open>r \<in> _\<close> show "i \<in> set (b_pendingTaskRequests b)" by simp
qed

text \<open>A request leaves the pending list with one answer, or without one when its requester has left.\<close>

lemma ok_answer_request:
  assumes ok: "broker_ok cfg b" and i: "i \<in> set (b_pendingTaskRequests b)"
    and b': "b_requests b' = b_requests b" "b_pendingTaskRequests b' = remove1 i (b_pendingTaskRequests b)"
      "b_acceptances b' = b_acceptances b" "b_nextId b' = b_nextId b" "b_tasks b' = b_tasks b"
      "answeredTasks (b_out b') = answeredTasks (b_out b)"
      "answeredRequests (b_out b') = answeredRequests (b_out b) \<or>
       answeredRequests (b_out b') = answeredRequests (b_out b) @ [rq_requestId (request_at b i)]"
  shows "broker_ok cfg b'"
proof -
  let ?P = "b_pendingTaskRequests b"
  have P: "distinct ?P" "\<forall>r\<in>set ?P. r < length (b_requests b)"
    using ok by (simp_all add: broker_ok_def requests_ok_def)
  then have set: "set (remove1 i ?P) = set ?P - {i}" by (simp add: set_remove1_eq)
  have "rq_requestId (request_at b r) \<noteq> rq_requestId (request_at b i)" if "r \<in> set ?P - {i}" for r
    using ok P that i unfolding broker_ok_def answers_ok_def
    by (metis DiffE insertI1 length_map nth_eq_iff_index_eq nth_map)
  then have "answers_ok (b_requests b) (remove1 i ?P) (answeredRequests (b_out b'))"
    using ok b'(7) P i unfolding broker_ok_def answers_ok_def set by auto
  moreover have "requests_ok (b_requests b) (remove1 i ?P) (b_acceptances b)"
    using ok P unfolding broker_ok_def requests_ok_def set by auto
  ultimately show ?thesis using ok b' by (simp add: broker_ok_def)
qed

text \<open>The acceptance of a request that has left the pending list becomes a tracked task.\<close>

lemma ok_promote:
  assumes ok: "broker_ok cfg b" and a: "a \<in> set (b_acceptances b)" "early (ac_phase a)"
    and P: "ac_request a \<notin> set (b_pendingTaskRequests b)" and task: "tk_id task = ac_taskId a"
  shows "broker_ok cfg (b\<lparr>b_tasks := jset (b_tasks b) (ac_taskId a) task,
    b_acceptances := map (\<lambda>x. if ac_taskId x = ac_taskId a then x\<lparr>ac_phase := AwaitRequester\<rparr> else x) (b_acceptances b)\<rparr>)"
proof -
  let ?g = "\<lambda>x. if ac_taskId x = ac_taskId a then x\<lparr>ac_phase := AwaitRequester\<rparr> else x"
  let ?A = "b_acceptances b" and ?A' = "map ?g (b_acceptances b)"
  have same: "x = a" if "x \<in> set ?A" "ac_taskId x = ac_taskId a" for x
    using same_acceptance[OF ok a(1)] that by blast
  have eq: "map ac_request (filter (\<lambda>x. early (ac_phase x)) (map ?g xs)) =
      map ac_request (filter (\<lambda>x. early (ac_phase x)) (filter (\<lambda>x. ac_taskId x \<noteq> ac_taskId a) xs))" for xs
    by (induction xs) auto
  have one: "distinct (map ac_request (filter (\<lambda>x. early (ac_phase x)) ?A'))"
    unfolding eq by (rule distinct_filter_filter) (use ok in \<open>simp add: broker_ok_def requests_ok_def\<close>)
  have A': "x \<in> set ?A \<and> ac_taskId x \<noteq> ac_taskId a \<or> x = a\<lparr>ac_phase := AwaitRequester\<rparr>" if "x \<in> set ?A'" for x
    using that same by (auto split: if_splits)
  have q: "ac_request x < length (b_requests b) \<and>
      (early (ac_phase x) \<longrightarrow> rq_acceptInProgress (request_at b (ac_request x))) \<and>
      (\<not> early (ac_phase x) \<longrightarrow> ac_request x \<notin> set (b_pendingTaskRequests b)) \<and>
      of_taskType (ac_offer x) = rq_taskType (request_at b (ac_request x))" if "x \<in> set ?A'" for x
    using A'[OF that] ok a P by (auto simp: broker_ok_def requests_ok_def)
  obtain A2 where A2: "A2 = ?A'" by blast
  have "requests_ok (b_requests b) (b_pendingTaskRequests b) ?A'"
    using ok q one unfolding A2[symmetric] by (simp add: broker_ok_def requests_ok_def)
  moreover have "tasks_ok (cfg_nanoid cfg) (b_nextId b) ?A' (jset (b_tasks b) (ac_taskId a) task) (answeredTasks (b_out b))"
  proof -
    have ids: "map ac_taskId ?A' = map ac_taskId ?A" by simp
    then have idset: "ac_taskId ` set ?A' = ac_taskId ` set ?A" by (metis list.set_map)
    obtain K I where K: "K = fst ` set (b_tasks b)" and I: "I = ac_taskId ` set ?A" by blast
    have tid: "ac_taskId a \<in> I" "ac_taskId a \<notin> set (answeredTasks (b_out b))"
      using ok a by (auto simp: broker_ok_def tasks_ok_def I)
    have other: "ac_taskId x \<noteq> ac_taskId a \<and> ac_taskId x \<notin> K \<and> ac_taskId x \<notin> set (answeredTasks (b_out b))"
      if "x \<in> set ?A'" "early (ac_phase x)" for x
      using A'[OF that(1)] that(2) ok by (auto simp: broker_ok_def tasks_ok_def K)
    have key: "case y of (t, task) \<Rightarrow> tk_id task = t" if "y \<in> set (jset (b_tasks b) (ac_taskId a) task)" for y
      using that set_jset_subset[of "ac_taskId a" task "b_tasks b"] task ok
      by (auto simp: broker_ok_def tasks_ok_def)
    have old: "distinct (map ac_taskId ?A)" "I \<subseteq> cfg_nanoid cfg ` {..<b_nextId b}"
      "K \<subseteq> cfg_nanoid cfg ` {..<b_nextId b}" "set (answeredTasks (b_out b)) \<subseteq> cfg_nanoid cfg ` {..<b_nextId b}"
      "distinct (answeredTasks (b_out b))" "set (answeredTasks (b_out b)) \<inter> K = {}"
      using ok by (simp_all add: broker_ok_def tasks_ok_def K I)
    have keys: "fst ` set (jset (b_tasks b) (ac_taskId a) task) = insert (ac_taskId a) K" by (simp add: K)
    show ?thesis
      unfolding A2[symmetric] tasks_ok_def keys ids[folded A2] idset[folded A2] I[symmetric]
    proof (intro conjI)
      show "insert (ac_taskId a) K \<subseteq> cfg_nanoid cfg ` {..<b_nextId b}"
        and "set (answeredTasks (b_out b)) \<inter> insert (ac_taskId a) K = {}"
        using old tid by blast+
      show "\<forall>x\<in>set A2. early (ac_phase x) \<longrightarrow>
          ac_taskId x \<notin> insert (ac_taskId a) K \<and> ac_taskId x \<notin> set (answeredTasks (b_out b))"
        unfolding A2 using other by (intro ballI impI) blast
      show "\<forall>(t, task)\<in>set (jset (b_tasks b) (ac_taskId a) task). tk_id task = t"
        using key by blast
    qed (rule old)+
  qed
  ultimately show ?thesis using ok by (simp add: broker_ok_def)
qed

lemma ok_acceptOffer_accepted:
  assumes ok: "broker_ok cfg b" and a: "a \<in> set (b_acceptances b)" "early (ac_phase a)"
  shows "broker_ok cfg (acceptOffer_accepted a b)"
proof -
  let ?i = "ac_request a" and ?t = "ac_taskId a" and ?rq = "request_at b (ac_request a)"
  let ?task = "\<lparr>tk_id = ?t, tk_runnerId = of_runnerId (ac_offer a), tk_requesterId = rq_requesterId ?rq,
    tk_taskType = of_taskType (ac_offer a), tk_timeout = False, tk_timesOutAt = None\<rparr>"
  let ?b1 = "upd_request ?i (\<lambda>rq. rq\<lparr>rq_timeout := False\<rparr>) b"
  let ?b2 = "?b1\<lparr>b_tasks := jset (b_tasks ?b1) ?t ?task\<rparr>"
  have ok1: "broker_ok cfg ?b1" by (rule ok_upd_request[OF ok]) auto
  have i: "?i < length (b_requests ?b1)" "rq_requestId (request_at ?b1 ?i) = rq_requestId ?rq"
    using ok a by (auto simp: broker_ok_def requests_ok_def upd_request_def)
  have t: "?t \<notin> fst ` set (b_tasks b)" using ok a by (auto simp: broker_ok_def tasks_ok_def)
  have find: "findRequest ?b2 i = findRequest ?b1 i" for i by (simp add: findRequest_def)
  show ?thesis
  proof (cases "findRequest ?b2 (rq_requestId ?rq)")
    case None
    have "core (cancelTask ?t reason (drop_acceptance ?t ?b2)) = core (drop_acceptance ?t ?b1)" for reason
      using t by (simp add: cancelTask_def untrackTask_def drop_acceptance_def upd_request_def
          delete_update_same AList.delete_id)
    with None show ?thesis
      by (auto simp: acceptOffer_accepted_def Let_def intro!: ok_frame[OF ok_drop[OF ok1]])
  next
    case (Some r)
    with i find have r: "findRequest ?b1 (rq_requestId (request_at ?b1 ?i)) = Some r" by simp
    note r' = find_pending[OF ok1 i(1) r]
    let ?b3 = "messageRequester (rq_requesterId ?rq) (TaskReady (rq_requestId ?rq) ?t)
      (?b1\<lparr>b_pendingTaskRequests := remove1 ?i (b_pendingTaskRequests ?b1)\<rparr>)"
    have ok3: "broker_ok cfg ?b3"
      by (rule ok_answer_request[OF ok1 r'(2)]) (auto simp: messageRequester_def i(2))
    have a3: "a \<in> set (b_acceptances ?b3)" "?i \<notin> set (b_pendingTaskRequests ?b3)"
      using a(1) ok1 by (auto simp: messageRequester_def upd_request_def broker_ok_def requests_ok_def)
    show ?thesis
      by (rule ok_frame[OF ok_promote[OF ok3 a3(1) a(2) a3(2), of ?task]])
        (use Some r'(1) in \<open>auto simp: acceptOffer_accepted_def Let_def core_def messageRequester_def\<close>)
  qed
qed

lemma ok_retimed:
  assumes "broker_ok cfg b" and "fst ` set T = fst ` set (b_tasks b)" and "\<forall>(t, task)\<in>set T. tk_id task = t"
  shows "broker_ok cfg (b\<lparr>b_tasks := T\<rparr>)"
  using assms by (simp add: broker_ok_def tasks_ok_def)

lemma ok_getRunner:
  assumes "broker_ok cfg b" and "getRunnerOrFailTask env t b = (x, b')"
  shows "broker_ok cfg b'" and "isl x \<or> b' = b"
  using assms ok_fail[OF assms(1)]
  by (auto simp: getRunnerOrFailTask_def split: option.splits if_splits)

lemma ok_sendTaskSettings:
  assumes ok: "broker_ok cfg b" and s: "sendTaskSettings cfg env t settings b = (x, b')"
  shows "broker_ok cfg b'"
proof -
  obtain y b1 where g: "getRunnerOrFailTask env t b = (y, b1)" by (cases "getRunnerOrFailTask env t b")
  note ok1 = ok_getRunner[OF ok g]
  have ok2: "broker_ok cfg (b1\<lparr>b_tasks := jset (b_tasks b1) t (task\<lparr>tk_timesOutAt := due, tk_timeout := True\<rparr>)\<rparr>)"
    if "jget (b_tasks b1) t = Some task" for task due
  proof (rule ok_retimed[OF ok1(1)])
    show "fst ` set (jset (b_tasks b1) t (task\<lparr>tk_timesOutAt := due, tk_timeout := True\<rparr>)) = fst ` set (b_tasks b1)"
      using that by (force dest: map_of_SomeD)
    have "\<forall>(t, task)\<in>set (b_tasks b1). tk_id task = t"
      using ok1(1) by (simp add: broker_ok_def tasks_ok_def)
    then show "\<forall>(t, task)\<in>set (jset (b_tasks b1) t (task\<lparr>tk_timesOutAt := due, tk_timeout := True\<rparr>)). tk_id task = t"
      using that set_jset_subset[of t "task\<lparr>tk_timesOutAt := due, tk_timeout := True\<rparr>" "b_tasks b1"]
        tracked_id[OF ok1(1) that] by auto
  qed
  show ?thesis
    using s ok ok1 g ok2 by (auto simp: sendTaskSettings_def Let_def intro: ok_frame[OF ok2]
        split: if_splits option.splits sum.splits)
qed

lemma ok_resume:
  assumes ok: "broker_ok cfg b" and inj: "inj (cfg_nanoid cfg)" and a: "a \<in> set (b_acceptances b)"
  shows "broker_ok cfg (resumeAccept cfg env a b)"
proof (cases "ac_phase a")
  case (RequesterAccepted settings)
  obtain x b1 where s: "sendTaskSettings cfg env (ac_taskId a) settings (drop_acceptance (ac_taskId a) b) = (x, b1)"
    by (cases "sendTaskSettings cfg env (ac_taskId a) settings (drop_acceptance (ac_taskId a) b)")
  have "broker_ok cfg b1" by (rule ok_sendTaskSettings[OF ok_drop[OF ok] s])
  with s RequesterAccepted show ?thesis
    by (auto simp: resumeAccept_def acceptOffer_settings_def Let_def ok_cancel split: option.splits broker_error.splits)
next
  case (RequesterFailed e)
  let ?b = "drop_acceptance (ac_taskId a) b"
  have "broker_ok cfg (?b\<lparr>b_requesterAcceptRejects := r\<rparr>)" for r
    by (rule ok_frame[OF ok_drop[OF ok]]) simp
  with RequesterFailed ok_drop[OF ok] show ?thesis
    by (auto simp: resumeAccept_def acceptOffer_requesterFailed_def Let_def ok_cancel split: accept_failure.splits)
qed (use assms in \<open>auto simp: resumeAccept_def ok_acceptOffer_failed ok_acceptOffer_accepted\<close>)

section \<open>Messages and timers\<close>

lemma ok_message_other:
  assumes "broker_ok cfg b" and "answeredTasks [ToRequester q m] = []" and "answeredRequests [ToRequester q m] = []"
  shows "broker_ok cfg (messageRequester q m b)"
  by (rule ok_frame[OF assms(1)]) (use assms(2,3) in \<open>auto simp: messageRequester_def core_def\<close>)

lemma ok_taskRequested:
  assumes ok: "broker_ok cfg b" and inj: "inj (cfg_nanoid cfg)"
    and new: "rq_requestId rq \<notin> rq_requestId ` set (b_requests b)" "rq_timeoutRefreshes rq = 0"
  shows "broker_ok cfg (taskRequested cfg env rq b)"
proof -
  have neq: "rq_requestId (request_at b r) \<noteq> rq_requestId rq" if "r \<in> set (b_pendingTaskRequests b)" for r
  proof -
    have "r < length (b_requests b)" using that ok by (simp add: broker_ok_def requests_ok_def)
    then show ?thesis using new(1) by (metis imageI nth_mem)
  qed
  have drained: "broker_ok cfg b'" if "b_requests b' = b_requests b @ [rq\<lparr>rq_timeout := False\<rparr>]"
      "b_pendingTaskRequests b' = b_pendingTaskRequests b" "b_acceptances b' = b_acceptances b"
      "b_nextId b' = b_nextId b" "b_tasks b' = b_tasks b" "answeredTasks (b_out b') = answeredTasks (b_out b)"
      "answeredRequests (b_out b') = answeredRequests (b_out b) \<or>
       answeredRequests (b_out b') = answeredRequests (b_out b) @ [rq_requestId rq]" for b'
    using ok new that(7) unfolding broker_ok_def that(1-6) requests_ok_def answers_ok_def
    by (auto simp: nth_append dest: neq)
  have "broker_ok cfg (b\<lparr>b_requests := b_requests b @ [rq],
      b_pendingTaskRequests := b_pendingTaskRequests b @ [length (b_requests b)]\<rparr>)"
    using ok new unfolding broker_ok_def requests_ok_def answers_ok_def
    by (auto simp: nth_append)
  from ok_settleTasks[OF this inj] show ?thesis
    by (auto simp: taskRequested_def messageRequester_def intro!: drained)
qed

lemma ok_rejects_loop:
  "broker_ok cfg b \<Longrightarrow> broker_ok cfg (fold (\<lambda>(taskId, acceptor) b. if acceptor = r
     then handleRunnerReject taskId reason b else b) xs b)"
  by (induction xs arbitrary: b) (auto simp: handleRunnerReject_def ok_settleRunnerAccept)

lemma ok_failTasks: "broker_ok cfg b \<Longrightarrow> broker_ok cfg (failTasks ids e b)"
  unfolding failTasks_def by (induction ids arbitrary: b) (simp_all add: ok_fail)

lemma ok_deregisterRunner:
  assumes "broker_ok cfg b"
  shows "broker_ok cfg (deregisterRunner r e b)"
  unfolding deregisterRunner_def Let_def
  by (intro ok_failTasks ok_rejects_loop, rule ok_frame[OF assms]) simp

lemma ok_handleRequestTimeout:
  assumes ok: "broker_ok cfg b"
  shows "broker_ok cfg (handleRequestTimeout env i b)"
proof (cases "findRequest b i")
  case (Some r)
  let ?b1 = "flagSilentRunners env (rq_taskType (request_at b r)) b"
  let ?b3 = "upd_request r (\<lambda>rq. rq\<lparr>rq_timeout := False\<rparr>) ?b1"
  have r: "r \<in> set (b_pendingTaskRequests b)" using Some by (auto simp: findRequest_def find_Some_iff)
  have core: "b_requests ?b1 = b_requests b" "b_pendingTaskRequests ?b1 = b_pendingTaskRequests b"
    using core_flagSilentRunners[of env "rq_taskType (request_at b r)" b]
    unfolding core_def by simp_all
  have len: "r < length (b_requests b)" using r ok by (simp add: broker_ok_def requests_ok_def)
  have ok3: "broker_ok cfg ?b3"
    by (rule ok_upd_request[OF ok_frame[OF ok]]) auto
  have same: "rq_requestId (request_at ?b3 r) = rq_requestId (request_at b r)"
    by (simp add: upd_request_def nth_upd core)
  show ?thesis
    by (rule ok_answer_request[OF ok3, of r])
      (use Some r in \<open>auto simp: handleRequestTimeout_def Let_def messageRequester_def core same
         upd_request_def len\<close>)
qed (simp add: handleRequestTimeout_def ok)

lemma ok_handleTaskTimeout:
  assumes "broker_ok cfg b"
  shows "broker_ok cfg (handleTaskTimeout cfg t b)"
proof -
  have "broker_ok cfg (b\<lparr>b_out := b_out b @ [RunnerTimedOutDuringTask r]\<rparr>)" for r
    by (rule ok_frame[OF assms]) (simp add: core_def)
  moreover have "broker_ok cfg (messageRunner r m b)" for r m
    by (rule ok_frame[OF assms]) simp
  ultimately show ?thesis
    using assms by (auto simp: handleTaskTimeout_def Let_def intro!: ok_error split: option.splits)
qed

lemma ok_onRunnerMessage:
  assumes ok: "broker_ok cfg b" and inj: "inj (cfg_nanoid cfg)"
  shows "broker_ok cfg (onRunnerMessage cfg env r m b)"
proof -
  let ?b = "b\<lparr>b_silentRunnersSince := jdel (b_silentRunnersSince b) r\<rparr>"
  have ok1: "broker_ok cfg ?b" by (rule ok_frame[OF ok]) simp
  have offer: "broker_ok cfg (taskOffered cfg env offer ?b)" for offer
    unfolding taskOffered_def by (rule ok_settleTasks[OF ok_frame[OF ok1] inj]) simp
  have reset: "broker_ok cfg (resetAcceptTimeoutsOnOwnTask r t ?b)" for t
    by (rule ok_frame[OF ok1]) simp
  show ?thesis
    using ok ok1
    by (cases m) (auto simp: onRunnerMessage_def Let_def handleRunnerAccept_def handleRunnerReject_def
        handleRunnerDeferred_def handleDataRequest_def handleNodeTypesRequest_def handleRpcRequest_def
        intro!: ok_settleRunnerAccept offer ok_done[OF reset] ok_error[OF reset] ok_message_other
        split: option.splits)
qed

lemma ok_respond:
  assumes "broker_ok cfg b"
  shows "broker_ok cfg (respondToRunner env t m b)"
proof -
  obtain x b1 where g: "getRunnerOrFailTask env t b = (x, b1)" by (cases "getRunnerOrFailTask env t b")
  note ok1 = ok_getRunner(1)[OF assms g]
  then have "broker_ok cfg (messageRunner r m b1)" for r by (rule ok_frame) simp
  with assms ok1 g show ?thesis by (auto simp: respondToRunner_def split: sum.splits)
qed

lemma ok_onRequesterMessage:
  assumes ok: "broker_ok cfg b" and inj: "inj (cfg_nanoid cfg)"
    and new: "\<And>i t. m = Requester_taskrequest i t \<Longrightarrow> i \<notin> rq_requestId ` set (b_requests b)"
  shows "broker_ok cfg (onRequesterMessage cfg env q m b)"
  by (cases m)
    (use new in \<open>auto simp: onRequesterMessage_def handleRequesterAccept_def handleRequesterDataResponse_def
      handleRequesterNodeTypesResponse_def handleRequesterRpcResponse_def
      intro!: ok_settleRequesterAccept ok_cancel ok_taskRequested ok_respond ok inj\<close>)

lemma ok_cap:
  assumes "broker_ok cfg b"
  shows "broker_ok cfg (capTaskTimeoutsForShutdown d b)"
proof -
  let ?b = "b\<lparr>b_shutdownDeadline := Some d\<rparr>"
  have ok: "broker_ok cfg ?b" by (rule ok_frame[OF assms]) simp
  have "broker_ok cfg (?b\<lparr>b_tasks := b_tasks (capTaskTimeoutsForShutdown d b)\<rparr>)"
    by (rule ok_retimed[OF ok])
      (use assms in \<open>auto simp: capTaskTimeoutsForShutdown_def broker_ok_def tasks_ok_def image_image case_prod_beta\<close>)
  then show ?thesis by (simp add: capTaskTimeoutsForShutdown_def)
qed

section \<open>Reachable states\<close>

lemma broker_ok_new: "broker_ok cfg new_broker"
  by (simp add: broker_ok_def requests_ok_def tasks_ok_def answers_ok_def new_broker_def)

lemma broker_ok_step:
  assumes ok: "broker_ok cfg b" and inj: "inj (cfg_nanoid cfg)" and step: "broker_step cfg b b'"
  shows "broker_ok cfg b'"
  using step
proof (cases rule: broker_step.cases)
  case (registers runner)
  show ?thesis unfolding registers by (rule ok_frame[OF ok]) (simp add: registerRunner_def)
next
  case (responds t i d)
  show ?thesis unfolding responds by (rule ok_frame[OF ok]) (simp add: handleResponse_def split: option.split)
next
  case (enters q)
  show ?thesis unfolding enters by (rule ok_frame[OF ok]) (simp add: registerRequester_def)
next
  case (leaves q)
  show ?thesis unfolding leaves by (rule ok_frame[OF ok]) (simp add: deregisterRequester_def)
next
  case (drains)
  show ?thesis unfolding drains by (rule ok_frame[OF ok]) (simp add: startDraining_def)
next
  case (expires env)
  show ?thesis unfolding expires by (rule ok_frame[OF ok]) simp
next
  case (requester_sends m env q)
  then show ?thesis using ok_onRequesterMessage[OF ok inj] by blast
qed (simp_all add: ok inj ok_deregisterRunner ok_onRunnerMessage ok_settleRequesterAccept
    ok_handleRequestTimeout ok_settle_promise ok_handleTaskTimeout ok_resume ok_cap
    runnerAcceptTimeout_def requesterAcceptTimeout_def handleRequesterReject_def)

interpretation broker: step_system new_broker "broker_step cfg" "\<lambda>b. inj (cfg_nanoid cfg) \<longrightarrow> broker_ok cfg b" for cfg
  by unfold_locales (simp add: broker_ok_new, blast intro: broker_ok_step)

lemma broker_ok_reachable:
  assumes "inj (cfg_nanoid cfg)" and "(broker_step cfg)\<^sup>*\<^sup>* new_broker b"
  shows "broker_ok cfg b"
  using broker.inv_reachable[OF assms(2)] assms(1) by blast

section \<open>Properties\<close>

text \<open>C8: However runners and requesters come, go and time out, a task request is answered at most once,
  by the task that is ready or by its expiry, and then it is no longer pending; and a task is reported
  done or failed at most once, and then it is no longer tracked.\<close>

theorem broker_answers_once:
  assumes "inj (cfg_nanoid cfg)" and "(broker_step cfg)\<^sup>*\<^sup>* new_broker b"
  shows "distinct (answeredRequests (b_out b)) \<and> distinct (answeredTasks (b_out b)) \<and>
    (\<forall>r\<in>set (b_pendingTaskRequests b). rq_requestId (request_at b r) \<notin> set (answeredRequests (b_out b))) \<and>
    (\<forall>t\<in>set (answeredTasks (b_out b)). jget (b_tasks b) t = None)"
  using broker_ok_reachable[OF assms]
  by (auto simp: broker_ok_def answers_ok_def tasks_ok_def map_of_eq_None_iff)

definition demo_cfg :: BrokerConfig where
  "demo_cfg = \<lparr>cfg_taskTimeout = 60, cfg_taskAcceptTimeout = 1, cfg_external = True,
     cfg_nanoid = (\<lambda>n. replicate n (CHR ''i''))\<rparr>"

definition demo_env :: BrokerEnv where
  "demo_env = \<lparr>env_hrtime = 0, env_now = 0, env_reachable = (\<lambda>_. True)\<rparr>"

lemma demo_inj: "inj (cfg_nanoid demo_cfg)"
  by (rule injI) (simp add: demo_cfg_def replicate_eq_replicate)

definition demo_matched :: Broker where
  "demo_matched =
     onRunnerMessage demo_cfg demo_env ''runner'' (Runner_taskoffer ''offer'' ''js'' (-1))
       (onRequesterMessage demo_cfg demo_env ''main'' (Requester_taskrequest ''r1'' ''js'')
         (registerRequester ''main'' (registerRunner \<lparr>rn_id = ''runner'', rn_taskTypes = [''js'']\<rparr> new_broker)))"

definition demo_offer :: TaskOffer where
  "demo_offer = \<lparr>of_offerId = ''offer'', of_runnerId = ''runner'', of_taskType = ''js'', of_validFor = -1,
     of_validUntil = 0\<rparr>"

definition demo_acceptance :: "accept_phase \<Rightarrow> Acceptance" where
  "demo_acceptance ph = \<lparr>ac_taskId = [], ac_offer = demo_offer, ac_request = 0, ac_phase = ph\<rparr>"

definition demo_ready :: Broker where
  "demo_ready = resumeAccept demo_cfg demo_env (demo_acceptance RunnerAccepted)
     (onRunnerMessage demo_cfg demo_env ''runner'' (Runner_taskaccepted []) demo_matched)"

lemma demo_matched_reachable: "(broker_step demo_cfg)\<^sup>*\<^sup>* new_broker demo_matched"
proof -
  let ?b1 = "registerRunner \<lparr>rn_id = ''runner'', rn_taskTypes = [''js'']\<rparr> new_broker"
  let ?b2 = "registerRequester ''main'' ?b1"
  let ?b3 = "onRequesterMessage demo_cfg demo_env ''main'' (Requester_taskrequest ''r1'' ''js'') ?b2"
  have "(broker_step demo_cfg)\<^sup>*\<^sup>* new_broker ?b1" by (rule r_into_rtranclp) (rule registers)
  then have 2: "(broker_step demo_cfg)\<^sup>*\<^sup>* new_broker ?b2" by (rule rtranclp.rtrancl_into_rtrancl) (rule enters)
  have "broker_step demo_cfg ?b2 ?b3"
    by (rule requester_sends) (simp add: registerRequester_def registerRunner_def messageRunner_def new_broker_def)
  with 2 have "(broker_step demo_cfg)\<^sup>*\<^sup>* new_broker ?b3" by (rule rtranclp.rtrancl_into_rtrancl)
  then show ?thesis unfolding demo_matched_def by (rule rtranclp.rtrancl_into_rtrancl) (rule runner_sends)
qed

lemma demo_acceptances:
  "b_acceptances (onRunnerMessage demo_cfg demo_env ''runner'' (Runner_taskaccepted []) demo_matched) =
     [demo_acceptance RunnerAccepted]"
  by code_simp

lemma demo_ready_reachable: "(broker_step demo_cfg)\<^sup>*\<^sup>* new_broker demo_ready"
proof -
  let ?b = "onRunnerMessage demo_cfg demo_env ''runner'' (Runner_taskaccepted []) demo_matched"
  have "(broker_step demo_cfg)\<^sup>*\<^sup>* new_broker ?b"
    by (rule rtranclp.rtrancl_into_rtrancl[OF demo_matched_reachable]) (rule runner_sends)
  moreover have "broker_step demo_cfg ?b demo_ready"
    unfolding demo_ready_def by (rule resumes) (simp add: demo_acceptances)
  ultimately show ?thesis by (rule rtranclp.rtrancl_into_rtrancl)
qed

lemma broker_answers_once_witness:
  "distinct (answeredRequests (b_out demo_ready)) \<and> answeredRequests (b_out demo_ready) = [''r1'']"
proof -
  have "answeredRequests (b_out demo_ready) = [''r1'']" by code_simp
  with broker_answers_once[OF demo_inj demo_ready_reachable] show ?thesis by simp
qed

text \<open>C20: A task request is offered to at most one runner at a time, the offer it is matched with has its
  task type, and once a runner has accepted it, no other runner is asked.\<close>

theorem broker_one_runner_per_request:
  assumes "inj (cfg_nanoid cfg)" and "(broker_step cfg)\<^sup>*\<^sup>* new_broker b"
    and "a \<in> set (b_acceptances b)"
  shows "of_taskType (ac_offer a) = rq_taskType (request_at b (ac_request a)) \<and>
    (early (ac_phase a) \<longrightarrow> rq_acceptInProgress (request_at b (ac_request a)) \<and>
      (\<forall>x\<in>set (b_acceptances b). early (ac_phase x) \<and> ac_request x = ac_request a \<longrightarrow> x = a)) \<and>
    (\<not> early (ac_phase a) \<longrightarrow> ac_request a \<notin> set (b_pendingTaskRequests b))"
  using broker_ok_reachable[OF assms(1,2)] assms(3) same_acceptance[OF broker_ok_reachable[OF assms(1,2)] assms(3)]
  by (auto simp: broker_ok_def requests_ok_def)

lemma demo_matched_acceptance: "demo_acceptance AwaitRunner \<in> set (b_acceptances demo_matched)"
  by code_simp

lemma broker_one_runner_per_request_witness:
  "rq_acceptInProgress (request_at demo_matched 0) \<and> rq_taskType (request_at demo_matched 0) = ''js''"
  using broker_one_runner_per_request[OF demo_inj demo_matched_reachable demo_matched_acceptance]
  by (simp add: demo_acceptance_def demo_offer_def)



section \<open>Matching is complete\<close>

text \<open>What settling may change: offers only leave, types stay, marks stay set, and new acceptances use
  offers of the pool.\<close>

definition settle_rel :: "Broker \<Rightarrow> Broker \<Rightarrow> bool" where
  "settle_rel b b' \<longleftrightarrow>
     set (b_pendingTaskOffers b') \<subseteq> set (b_pendingTaskOffers b) \<and>
     length (b_requests b') = length (b_requests b) \<and>
     (\<forall>r. rq_taskType (request_at b' r) = rq_taskType (request_at b r)) \<and>
     (\<forall>r. rq_acceptInProgress (request_at b r) \<longrightarrow> rq_acceptInProgress (request_at b' r)) \<and>
     (\<forall>a\<in>set (b_acceptances b'). a \<in> set (b_acceptances b) \<or> ac_offer a \<in> set (b_pendingTaskOffers b))"

lemma settle_rel_trans: "settle_rel b c \<Longrightarrow> settle_rel c d \<Longrightarrow> settle_rel b d"
proof -
  assume bc: "settle_rel b c" and cd: "settle_rel c d"
  have "a \<in> set (b_acceptances b) \<or> ac_offer a \<in> set (b_pendingTaskOffers b)" if "a \<in> set (b_acceptances d)" for a
    using that bc cd unfolding settle_rel_def by (metis subsetD)
  moreover have "set (b_pendingTaskOffers d) \<subseteq> set (b_pendingTaskOffers b)"
    using bc cd unfolding settle_rel_def by (metis subset_trans)
  ultimately show ?thesis using bc cd unfolding settle_rel_def by simp
qed

definition unmatchable :: "Broker \<Rightarrow> nat \<Rightarrow> bool" where
  "unmatchable b r \<longleftrightarrow> rq_acceptInProgress (request_at b r) \<or>
     (\<forall>offer\<in>set (b_pendingTaskOffers b). of_taskType offer \<noteq> rq_taskType (request_at b r))"

lemma unmatchable_mono: "settle_rel b c \<Longrightarrow> unmatchable b r \<Longrightarrow> unmatchable c r"
  unfolding settle_rel_def unmatchable_def by (metis subsetD)

lemma settleRequest_rel:
  assumes "r < length (b_requests b)"
  shows "settle_rel b (settleRequest cfg r b)" and "unmatchable (settleRequest cfg r b) r"
proof -
  have "settle_rel b (settleRequest cfg r b) \<and> unmatchable (settleRequest cfg r b) r"
  proof (cases "rq_acceptInProgress (request_at b r)")
    case True
    then show ?thesis by (simp add: settleRequest_def settle_rel_def unmatchable_def)
  next
    case False
    show ?thesis
    proof (cases "List.extract (\<lambda>o'. of_taskType o' = rq_taskType (request_at b r)) (b_pendingTaskOffers b)")
      case None
      then have "\<forall>offer\<in>set (b_pendingTaskOffers b). of_taskType offer \<noteq> rq_taskType (request_at b r)"
        by (simp add: extract_None_iff)
      with False None show ?thesis
        by (simp add: settleRequest_def warnOnTaskTypeMismatch_def settle_rel_def unmatchable_def)
    next
      case (Some x)
      obtain before offer after where x: "x = (before, offer, after)" by (cases x)
      have o: "b_pendingTaskOffers b = before @ offer # after" using Some unfolding x extract_Some_iff by simp
      show ?thesis
        using False Some assms
        by (auto simp: settleRequest_def x o acceptOffer_def Let_def messageRunner_def upd_request_def
            settle_rel_def unmatchable_def nth_list_update)
    qed
  qed
  then show "settle_rel b (settleRequest cfg r b)" and "unmatchable (settleRequest cfg r b) r" by auto
qed

lemma settle_loop:
  assumes "\<forall>r\<in>set rs. r < length (b_requests b)"
  shows "settle_rel b (fold (settleRequest cfg) rs b) \<and> (\<forall>r\<in>set rs. unmatchable (fold (settleRequest cfg) rs b) r)"
  using assms
proof (induction rs arbitrary: b)
  case Nil
  then show ?case by (simp add: settle_rel_def)
next
  case (Cons r rs)
  let ?c = "settleRequest cfg r b"
  have c: "settle_rel b ?c" "unmatchable ?c r" using settleRequest_rel Cons.prems by auto
  then have "\<forall>r\<in>set rs. r < length (b_requests ?c)" using Cons.prems by (simp add: settle_rel_def)
  from Cons.IH[OF this] c show ?case by (auto intro: settle_rel_trans unmatchable_mono)
qed

lemma settle_loop_pending:
  "b_pendingTaskRequests (fold (settleRequest cfg) rs b) = b_pendingTaskRequests b"
  by (induction rs arbitrary: b) simp_all



end
