(* ===== verification/Node_Scheduling.thy ===== *)
theory Node_Scheduling
  imports Partial_Execution
begin

text \<open>
  How \<^verbatim>\<open>WorkflowExecute\<close> (\<^verbatim>\<open>packages/core/src/execution-engine/workflow-execute.ts\<close>) decides what runs
  next: \<^verbatim>\<open>addNodeToBeExecuted\<close> with its helpers. The part of \<^verbatim>\<open>runExecutionData\<close> it reads and writes is the
  record \<open>Scheduling\<close>; an entry of the stack may hold an undefined node, and reading a property of
  \<^verbatim>\<open>undefined\<close> or \<^verbatim>\<open>null\<close> is a \<open>TypeError\<close>. Object keys that are array indices are enumerated in
  ascending order.
\<close>

section \<open>State\<close>

record RunnableWorkflow = Workflow +
  wf_executionOrder :: "string option"

record StackItem =
  si_node :: "INode option"
  si_data :: ITaskDataConnections
  si_source :: "ITaskDataConnectionsSource option"
  si_runIndex :: "nat option"
  si_metadata :: "ITaskMetadata option"

record Scheduling =
  sc_stack :: "StackItem list"
  sc_waiting :: IWaitingForExecution
  sc_waitingSource :: "IWaitingForExecutionSource option"
  sc_runData :: IRunData

definition bind_res :: "'a result \<Rightarrow> ('a \<Rightarrow> 'b result) \<Rightarrow> 'b result" where
  "bind_res m f = (case m of Inl e \<Rightarrow> Inl e | Inr x \<Rightarrow> f x)"

text \<open>A value whose property is read next.\<close>

definition defined :: "'a option \<Rightarrow> 'a result" where
  "defined x = (case x of None \<Rightarrow> Inl TypeError | Some v \<Rightarrow> Inr v)"

definition isLegacyExecutionOrder :: "RunnableWorkflow \<Rightarrow> bool" where
  "isLegacyExecutionOrder w \<longleftrightarrow> wf_executionOrder w \<noteq> Some ''v1''"

definition enqueueItem :: "RunnableWorkflow \<Rightarrow> StackItem \<Rightarrow> Scheduling \<Rightarrow> Scheduling" where
  "enqueueItem w item st =
     st\<lparr>sc_stack := (if wf_executionOrder w = Some ''v1'' then item # sc_stack st else sc_stack st @ [item])\<rparr>"

section \<open>Reading run data\<close>

definition outputAt :: "IRunData \<Rightarrow> string \<Rightarrow> nat \<Rightarrow> nat \<Rightarrow> INodeExecutionData list slot" where
  "outputAt runData node runIndex index =
     (case jget runData node of
        None \<Rightarrow> Undefined
      | Some runs \<Rightarrow>
          if \<not> runIndex < length runs then Undefined
          else case td_data (runs ! runIndex) of
              None \<Rightarrow> Undefined
            | Some data \<Rightarrow> (case jget data main_type of None \<Rightarrow> Undefined | Some outputs \<Rightarrow> slot_get outputs index))"

fun incomingConnectionIsEmpty :: "IRunData \<Rightarrow> IConnection list \<Rightarrow> nat \<Rightarrow> bool result" where
  "incomingConnectionIsEmpty runData [] runIndex = Inr True"
| "incomingConnectionIsEmpty runData (c # cs) runIndex =
     (case outputAt runData (con_node c) runIndex (con_index c) of
        Undefined \<Rightarrow> incomingConnectionIsEmpty runData cs runIndex
      | Null \<Rightarrow> Inl TypeError
      | Value items \<Rightarrow> if length items \<noteq> 0 then Inr False else incomingConnectionIsEmpty runData cs runIndex)"

section \<open>Waiting entries\<close>

definition prepareWaitingToExecution :: "string \<Rightarrow> nat \<Rightarrow> nat \<Rightarrow> Scheduling \<Rightarrow> Scheduling" where
  "prepareWaitingToExecution nodeName numberOfConnections runIndex st =
     (let sources = (case sc_waitingSource st of None \<Rightarrow> [] | Some s \<Rightarrow> s);
          nodeWaiting = (case jget (sc_waiting st) nodeName of None \<Rightarrow> [] | Some m \<Rightarrow> m);
          nodeWaitingSource = (case jget sources nodeName of None \<Rightarrow> [] | Some m \<Rightarrow> m)
      in st\<lparr>sc_waiting := jset (sc_waiting st) nodeName
              (jset nodeWaiting runIndex [(main_type, replicate numberOfConnections Null)]),
            sc_waitingSource := Some (jset sources nodeName
              (jset nodeWaitingSource runIndex [(main_type, replicate numberOfConnections Null)]))\<rparr>)"

type_synonym 'a waiting = "(string, (nat, (connection_type, 'a slot list) jsmap) jsmap) jsmap"

text \<open>\<open>w[node][index].main\<close> and an assignment to one of its elements.\<close>

definition waitingRow :: "'a waiting \<Rightarrow> string \<Rightarrow> nat \<Rightarrow> 'a slot list result" where
  "waitingRow w node index =
     bind_res (defined (jget w node)) (\<lambda>obj. bind_res (defined (jget obj index)) (\<lambda>entry.
       defined (jget entry main_type)))"

definition setWaiting :: "'a waiting \<Rightarrow> string \<Rightarrow> nat \<Rightarrow> nat \<Rightarrow> 'a slot \<Rightarrow> 'a waiting result" where
  "setWaiting w node index i v =
     bind_res (defined (jget w node)) (\<lambda>obj. bind_res (defined (jget obj index)) (\<lambda>entry.
       bind_res (defined (jget entry main_type)) (\<lambda>row.
         Inr (jset w node (jset obj index (jset entry main_type (slot_set row i v)))))))"

text \<open>The first of the entries, by ascending index, that has nothing for the input.\<close>

fun firstMissing :: "(nat, (connection_type, 'a slot list) jsmap) jsmap \<Rightarrow> nat list \<Rightarrow> nat \<Rightarrow> nat option result" where
  "firstMissing obj [] i = Inr None"
| "firstMissing obj (k # ks) i =
     bind_res (defined (Option.bind (jget obj k) (\<lambda>entry. jget entry main_type))) (\<lambda>row.
       case slot_get row i of Value _ \<Rightarrow> firstMissing obj ks i | _ \<Rightarrow> Inr (Some k))"

definition mainInputs :: "RunnableWorkflow \<Rightarrow> string \<Rightarrow> NodeInputConnections option" where
  "mainInputs w node = Option.bind (jget (connectionsByDestinationNode w) node) (\<lambda>types. jget types main_type)"

definition numberOfInputs :: "RunnableWorkflow \<Rightarrow> string \<Rightarrow> nat" where
  "numberOfInputs w node = (case mainInputs w node of None \<Rightarrow> 0 | Some rows \<Rightarrow> length rows)"

text \<open>The entry the data goes to, its index, and whether the node was waiting before.\<close>

definition waitingEntry :: "RunnableWorkflow \<Rightarrow> IConnection \<Rightarrow> Scheduling \<Rightarrow> (Scheduling \<times> nat \<times> bool) result" where
  "waitingEntry w c st0 =
     (let st1 = (if sc_waitingSource st0 = None then st0\<lparr>sc_waitingSource := Some []\<rparr> else st0);
          nodeWasWaiting = (jget (sc_waiting st1) (con_node c) \<noteq> None);
          st = (if nodeWasWaiting then st1
                else st1\<lparr>sc_waiting := jset (sc_waiting st1) (con_node c) [],
                         sc_waitingSource := map_option (\<lambda>s. jset s (con_node c) []) (sc_waitingSource st1)\<rparr>);
          obj = (case jget (sc_waiting st) (con_node c) of None \<Rightarrow> [] | Some m \<Rightarrow> m)
      in bind_res (firstMissing obj (sort (jkeys obj)) (con_index c)) (\<lambda>found.
           case found of
             Some index \<Rightarrow> Inr (st, index, nodeWasWaiting)
           | None \<Rightarrow> Inr (prepareWaitingToExecution (con_node c) (numberOfInputs w (con_node c)) (length obj) st,
                          length obj, nodeWasWaiting)))"

section \<open>Nodes whose data is still missing\<close>

definition stackNodeNames :: "Scheduling \<Rightarrow> string list result" where
  "stackNodeNames st =
     (if list_all (\<lambda>item. si_node item \<noteq> None) (sc_stack st)
      then Inr (map (\<lambda>item. node_name (the (si_node item))) (sc_stack st)) else Inl TypeError)"

text \<open>The names the parent's outputs lead to.\<close>

definition checkOutputNodes :: "RunnableWorkflow \<Rightarrow> string \<Rightarrow> string list result" where
  "checkOutputNodes w parentNodeName =
     bind_res (defined (jget (connectionsBySourceNode w) parentNodeName)) (\<lambda>types.
       Inr (case jget types main_type of
              None \<Rightarrow> []
            | Some outputs \<Rightarrow> concat (map (\<lambda>conns. map con_node (slot_or conns [])) outputs)))"

text \<open>\<open>connectionsByDestinationNode[node].main[0] ?? []\<close>.\<close>

definition firstMainInputs :: "RunnableWorkflow \<Rightarrow> string \<Rightarrow> IConnection list result" where
  "firstMainInputs w node =
     bind_res (defined (jget (connectionsByDestinationNode w) node)) (\<lambda>types.
       bind_res (defined (jget types main_type)) (\<lambda>rows. Inr (slot_or (slot_get rows 0) [])))"

fun nodeToAddLoop ::
    "string \<Rightarrow> string list \<Rightarrow> string list \<Rightarrow> IRunData \<Rightarrow> string list \<Rightarrow> string option \<Rightarrow> string option" where
  "nodeToAddLoop inputNode outs stack runData [] nodeToAdd = nodeToAdd"
| "nodeToAddLoop inputNode outs stack runData (parentNode # ps) nodeToAdd =
     (if inputNode \<noteq> parentNode \<and> parentNode \<in> set outs then None
      else if parentNode \<in> set stack then None
      else if jget runData parentNode \<noteq> None then nodeToAdd
      else nodeToAddLoop inputNode outs stack runData ps (Some parentNode))"

definition source_from :: "string \<Rightarrow> nat \<Rightarrow> nat \<Rightarrow> ISourceData slot" where
  "source_from parentNodeName outputIndex runIndex =
     Value \<lparr>previousNode = parentNodeName, previousNodeOutput = Some outputIndex, previousNodeRun = Some runIndex\<rparr>"

definition addEmptyItem :: "RunnableWorkflow \<Rightarrow> string \<Rightarrow> nat \<Rightarrow> nat \<Rightarrow> string \<Rightarrow> Scheduling \<Rightarrow> Scheduling result" where
  "addEmptyItem w parentNodeName outputIndex runIndex nodeToAdd st =
     bind_res (if jget (connectionsByDestinationNode w) nodeToAdd = None then Inr True
               else bind_res (firstMainInputs w nodeToAdd) (\<lambda>conns.
                 incomingConnectionIsEmpty (sc_runData st) conns runIndex)) (\<lambda>add.
       Inr (if add
            then enqueueItem w \<lparr>si_node = jget (wf_nodes w) nodeToAdd, si_data = [(main_type, [Value [empty_item]])],
                si_source = Some [(main_type, [source_from parentNodeName outputIndex runIndex])],
                si_runIndex = None, si_metadata = None\<rparr> st
            else st))"

text \<open>The legacy search for a node that has to run first: upwards from the input's node.\<close>

definition legacyNodeToAdd :: "RunnableWorkflow \<Rightarrow> string \<Rightarrow> nat \<Rightarrow> INodeExecutionData list slot list option \<Rightarrow>
    string list \<Rightarrow> string list \<Rightarrow> IRunData \<Rightarrow> string \<Rightarrow> string option result" where
  "legacyNodeToAdd w parentNodeName outputIndex nodeSuccessData outs stack runData inputNode =
     (let parentNodes = rev (getParentNodes (connectionsByDestinationNode w) inputNode main_type (-1) @ [inputNode]);
          nodeToAdd = nodeToAddLoop inputNode outs stack runData parentNodes (Some inputNode);
          parentNodesNodeToAdd = (case nodeToAdd of None \<Rightarrow> []
            | Some n \<Rightarrow> getParentNodes (connectionsByDestinationNode w) n main_type (-1))
      in if parentNodeName \<notin> set parentNodesNodeToAdd then Inr nodeToAdd
         else case nodeSuccessData of
             None \<Rightarrow> Inl TypeError
           | Some data \<Rightarrow>
               (case slot_get data outputIndex of
                  Value items \<Rightarrow> Inr (if length items = 0 then None else nodeToAdd)
                | _ \<Rightarrow> Inl TypeError))"

text \<open>The body of the loop over the connections into the waiting node.\<close>

definition siblingStep :: "RunnableWorkflow \<Rightarrow> string \<Rightarrow> nat \<Rightarrow> INodeExecutionData list slot list option \<Rightarrow> nat \<Rightarrow>
    string list \<Rightarrow> IConnection \<Rightarrow> Scheduling \<Rightarrow> Scheduling result" where
  "siblingStep w parentNodeName outputIndex nodeSuccessData runIndex outs inputData st =
     (if con_node inputData = parentNodeName then Inr st
      else bind_res (stackNodeNames st) (\<lambda>stack.
        bind_res (if con_node inputData \<in> set outs
                  then bind_res (firstMainInputs w (con_node inputData)) (\<lambda>conns.
                    bind_res (incomingConnectionIsEmpty (sc_runData st) conns runIndex) (\<lambda>empty. Inr (\<not> empty)))
                  else Inr False) (\<lambda>comesAnyway.
          if comesAnyway then Inr st
          else if con_node inputData \<in> set stack then Inr st
          else if jget (sc_runData st) (con_node inputData) \<noteq> None then Inr st
          else if \<not> isLegacyExecutionOrder w then Inr st
          else bind_res (legacyNodeToAdd w parentNodeName outputIndex nodeSuccessData outs stack (sc_runData st)
                  (con_node inputData)) (\<lambda>nodeToAdd.
            case nodeToAdd of
              None \<Rightarrow> Inr st
            | Some n \<Rightarrow> addEmptyItem w parentNodeName outputIndex runIndex n st))))"

definition addSiblings :: "RunnableWorkflow \<Rightarrow> string \<Rightarrow> string \<Rightarrow> nat \<Rightarrow> INodeExecutionData list slot list option \<Rightarrow>
    nat \<Rightarrow> Scheduling \<Rightarrow> Scheduling result" where
  "addSiblings w node parentNodeName outputIndex nodeSuccessData runIndex st =
     bind_res (checkOutputNodes w parentNodeName) (\<lambda>outs.
       bind_res (defined (mainInputs w node)) (\<lambda>rows.
         fold_res (siblingStep w parentNodeName outputIndex nodeSuccessData runIndex outs)
           (concat (map (\<lambda>conns. slot_or conns []) rows)) st))"

section \<open>addNodeToBeExecuted\<close>

text \<open>The data and its source put on one input of a waiting entry.\<close>

definition fillWaiting :: "IConnection \<Rightarrow> nat \<Rightarrow> nat \<Rightarrow> string \<Rightarrow> INodeExecutionData list slot list option \<Rightarrow> nat \<Rightarrow>
    Scheduling \<Rightarrow> Scheduling result" where
  "fillWaiting c index outputIndex parentNodeName nodeSuccessData runIndex st =
     (let (d, src) = (case nodeSuccessData of
            None \<Rightarrow> (Null, Null)
          | Some data \<Rightarrow> (slot_get data outputIndex, source_from parentNodeName outputIndex runIndex))
      in bind_res (setWaiting (sc_waiting st) (con_node c) index (con_index c) d) (\<lambda>waiting.
           bind_res (defined (sc_waitingSource st)) (\<lambda>sources0.
             bind_res (setWaiting sources0 (con_node c) index (con_index c) src) (\<lambda>sources.
               Inr (st\<lparr>sc_waiting := waiting, sc_waitingSource := Some sources\<rparr>)))))"

text \<open>A complete entry moves to the stack.\<close>

definition releaseWaiting :: "RunnableWorkflow \<Rightarrow> string \<Rightarrow> nat \<Rightarrow> Scheduling \<Rightarrow> Scheduling result" where
  "releaseWaiting w node index st =
     bind_res (defined (jget (sc_waiting st) node)) (\<lambda>obj. bind_res (defined (jget obj index)) (\<lambda>entry.
       bind_res (defined (sc_waitingSource st)) (\<lambda>sources.
         bind_res (defined (jget sources node)) (\<lambda>sourceObj.
           let st1 = enqueueItem w \<lparr>si_node = jget (wf_nodes w) node, si_data = entry,
                 si_source = jget sourceObj index, si_runIndex = None, si_metadata = None\<rparr> st;
               obj' = jdel obj index
           in Inr (if obj' = []
                   then st1\<lparr>sc_waiting := jdel (sc_waiting st) node, sc_waitingSource := Some (jdel sources node)\<rparr>
                   else st1\<lparr>sc_waiting := jset (sc_waiting st) node obj',
                            sc_waitingSource := Some (jset sources node (jdel sourceObj index))\<rparr>)))))"

text \<open>The end of the function for an entry that still waits: the entry is prepared again and gets its
  array and its sources back.\<close>

definition keepWaiting :: "RunnableWorkflow \<Rightarrow> IConnection \<Rightarrow> nat \<Rightarrow> nat \<Rightarrow> INodeExecutionData list slot list option \<Rightarrow>
    Scheduling \<Rightarrow> Scheduling result" where
  "keepWaiting w c index outputIndex nodeSuccessData st =
     bind_res (waitingRow (sc_waiting st) (con_node c) index) (\<lambda>row.
       let connectionDataArray = slot_set row (con_index c)
             (case nodeSuccessData of None \<Rightarrow> Null | Some data \<Rightarrow> slot_get data outputIndex)
       in bind_res (defined (sc_waitingSource st)) (\<lambda>sources.
         bind_res (waitingRow sources (con_node c) index) (\<lambda>sourceRow.
           let st1 = prepareWaitingToExecution (con_node c) (numberOfInputs w (con_node c)) index st
           in bind_res (defined (jget (sc_waiting st1) (con_node c))) (\<lambda>obj.
             bind_res (defined (sc_waitingSource st1)) (\<lambda>sources1.
               bind_res (defined (jget sources1 (con_node c))) (\<lambda>sourceObj.
                 Inr (st1\<lparr>sc_waiting := jset (sc_waiting st1) (con_node c)
                            (jset obj index [(main_type, connectionDataArray)]),
                          sc_waitingSource := Some (jset sources1 (con_node c)
                            (jset sourceObj index [(main_type, sourceRow)]))\<rparr>))))))) "

definition directItem :: "RunnableWorkflow \<Rightarrow> IConnection \<Rightarrow> nat \<Rightarrow> string \<Rightarrow> INodeExecutionData list slot list option \<Rightarrow>
    nat \<Rightarrow> nat option \<Rightarrow> ITaskMetadata option \<Rightarrow> StackItem" where
  "directItem w c outputIndex parentNodeName nodeSuccessData runIndex newRunIndex metadata =
     \<lparr>si_node = jget (wf_nodes w) (con_node c),
      si_data = [(main_type, slot_set (replicate (con_index c + 1) Null) (con_index c)
        (case nodeSuccessData of None \<Rightarrow> Null | Some data \<Rightarrow> slot_get data outputIndex))],
      si_source = Some [(main_type, [source_from parentNodeName outputIndex runIndex])],
      si_runIndex = newRunIndex, si_metadata = metadata\<rparr>"

fun is_null :: "'a slot \<Rightarrow> bool" where
  "is_null Null = True"
| "is_null _ = False"

definition addNodeToBeExecuted :: "RunnableWorkflow \<Rightarrow> IConnection \<Rightarrow> nat \<Rightarrow> string \<Rightarrow>
    INodeExecutionData list slot list option \<Rightarrow> nat \<Rightarrow> nat option \<Rightarrow> ITaskMetadata option \<Rightarrow> Scheduling \<Rightarrow> Scheduling result" where
  "addNodeToBeExecuted w c outputIndex parentNodeName nodeSuccessData runIndex newRunIndex metadata st0 =
     (if numberOfInputs w (con_node c) > 1
      then bind_res (waitingEntry w c st0) (\<lambda>(st1, index, nodeWasWaiting).
        bind_res (fillWaiting c index outputIndex parentNodeName nodeSuccessData runIndex st1) (\<lambda>st2.
          bind_res (waitingRow (sc_waiting st2) (con_node c) index) (\<lambda>row.
            if \<not> list_ex is_null row then releaseWaiting w (con_node c) index st2
            else bind_res (if nodeWasWaiting then Inr st2
                           else addSiblings w (con_node c) parentNodeName outputIndex nodeSuccessData runIndex st2)
              (keepWaiting w c index outputIndex nodeSuccessData))))
      else Inr (if jget (wf_nodes w) (con_node c) = None then st0
                else enqueueItem w (directItem w c outputIndex parentNodeName nodeSuccessData runIndex
                  newRunIndex metadata) st0))"

section \<open>Where nodes start too early or data is lost\<close>

text \<open>A node with three inputs that wait for different nodes.\<close>

definition join_node :: INode where
  "join_node = \<lparr>node_ref = 9, node_id = ''9'', node_name = ''m'', node_typeVersion = ''1'', node_type = ''merge'',
     node_disabled = None, node_parameters = [], node_rewireOutputLogTo = None,
     node_position = (0, 0), node_settings = no_settings\<rparr>"

definition input_of :: "string \<Rightarrow> nat \<Rightarrow> IConnection" where
  "input_of n i = \<lparr>con_node = n, con_type = main_type, con_index = i\<rparr>"

definition join_workflow :: "nat \<Rightarrow> RunnableWorkflow" where
  "join_workflow k =
     \<lparr>wf_nodes = [(''m'', join_node)],
      connectionsBySourceNode = map (\<lambda>i. ([CHR ''a'', char_of (i + 48)], [(main_type, [Value [input_of ''m'' i]])])) [0..<k],
      connectionsByDestinationNode = [(''m'', [(main_type, map (\<lambda>i. Value [input_of [CHR ''a'', char_of (i + 48)] 0]) [0..<k])])],
      wf_pinData = None, wf_executionOrder = Some ''v1''\<rparr>"

definition one_item :: "int \<Rightarrow> INodeExecutionData list slot list option" where
  "one_item i = Some [Value [plain_item [(''v'', JNum i)]]]"

definition no_work :: Scheduling where
  "no_work = \<lparr>sc_stack = [], sc_waiting = [], sc_waitingSource = None, sc_runData = []\<rparr>"

text \<open>Data arriving in sequence: (input, run of the sender, value).\<close>

definition arrivals :: "RunnableWorkflow \<Rightarrow> (nat \<times> nat \<times> int) list \<Rightarrow> Scheduling \<Rightarrow> Scheduling result" where
  "arrivals w xs st = fold_res (\<lambda>(i, run, v). addNodeToBeExecuted w (input_of ''m'' i) 0
     [CHR ''a'', char_of (i + 48)] (one_item v) run None None) xs st"

text \<open>Data can be lost: a new waiting entry gets as its index the number of entries, so after the
  entry 0 has been released while the entry 1 still waits, the next one overwrites the entry 1. The first
  node below sends 10, 20 and 30, the second 5; then 20 is neither on the stack nor waiting.\<close>

lemma waiting_data_overwritten:
  "\<exists>st item. arrivals (join_workflow 2) [(0, 0, 10), (0, 1, 20), (1, 0, 5), (0, 2, 30)] no_work = Inr st \<and>
     sc_stack st = [item] \<and>
     si_data item = [(main_type, [Value [plain_item [(''v'', JNum 10)]], Value [plain_item [(''v'', JNum 5)]]])] \<and>
     sc_waiting st = [(''m'', [(1, [(main_type, [Value [plain_item [(''v'', JNum 30)]], Null])])])]"
proof -
  have "(case arrivals (join_workflow 2) [(0, 0, 10), (0, 1, 20), (1, 0, 5), (0, 2, 30)] no_work of
      Inl _ \<Rightarrow> None | Inr st \<Rightarrow> Some (map si_data (sc_stack st), sc_waiting st)) =
    Some ([[(main_type, [Value [plain_item [(''v'', JNum 10)]], Value [plain_item [(''v'', JNum 5)]]])]],
      [(''m'', [(1, [(main_type, [Value [plain_item [(''v'', JNum 30)]], Null])])])])"
    by code_simp
  then show ?thesis by (auto split: sum.splits)
qed

definition join_source :: "nat \<Rightarrow> INode" where
  "join_source i = join_node\<lparr>node_ref := i, node_name := [CHR ''a'', char_of (i + 48)]\<rparr>"

definition join_graph :: DirectedGraph where
  "join_graph = foldl setConnection (addNodes new_graph (join_node # map join_source [0, 1, 2]))
     (map (\<lambda>i. \<lparr>gc_from = join_source i, gc_to = join_node, gc_type = main_type, gc_outputIndex = 0,
       gc_inputIndex = i\<rparr>) [0, 1, 2])"

definition first_input_run :: IRunData where
  "first_input_run = [(''a0'', [\<lparr>td_executionIndex = Some 0, td_source = [],
     td_data = Some [(main_type, [Value [plain_item [(''v'', JNum 10)]]])], td_error = None,
     td_executionStatus = None, td_inputOverride = None, td_metadata = None\<rparr>])]"

text \<open>A partial execution can run a node before all its inputs have data: the waiting entry it
  recreates for a node of three inputs, of which the first has data, is an array of length one, so the
  node is put on the stack as soon as the second input arrives, without the third.\<close>

lemma partial_run_starts_too_early:
  "\<exists>r st item. recreateNodeExecutionStack (\<lambda>_ _. 0) join_graph [join_node] first_input_run [] = Inr r \<and>
     arrivals (join_workflow 3) [(1, 0, 20)]
       \<lparr>sc_stack = [], sc_waiting = waitingExecution r, sc_waitingSource = Some (waitingExecutionSource r),
        sc_runData = first_input_run\<rparr> = Inr st \<and>
     sc_stack st = [item] \<and> si_node item = Some join_node \<and>
     si_data item = [(main_type, [Value [plain_item [(''v'', JNum 10)]], Value [plain_item [(''v'', JNum 20)]]])] \<and>
     sc_waiting st = []"
proof -
  have "(case recreateNodeExecutionStack (\<lambda>_ _. 0) join_graph [join_node] first_input_run [] of
      Inl _ \<Rightarrow> None
    | Inr r \<Rightarrow>
        (case arrivals (join_workflow 3) [(1, 0, 20)]
            \<lparr>sc_stack = [], sc_waiting = waitingExecution r, sc_waitingSource = Some (waitingExecutionSource r),
             sc_runData = first_input_run\<rparr> of
           Inl _ \<Rightarrow> None
         | Inr st \<Rightarrow> Some (map (\<lambda>x. (si_node x, si_data x)) (sc_stack st), sc_waiting st))) =
    Some ([(Some join_node, [(main_type, [Value [plain_item [(''v'', JNum 10)]], Value [plain_item [(''v'', JNum 20)]]])])], [])"
    by code_simp
  then show ?thesis by (auto split: sum.splits)
qed

text \<open>The check of the incoming data fails when the output it looks at is \<^verbatim>\<open>null\<close>, which the type of run
  data allows: it asks for the length of \<^verbatim>\<open>null\<close>.\<close>

lemma incomingConnectionIsEmpty_null:
  "incomingConnectionIsEmpty
     [(''a0'', [\<lparr>td_executionIndex = Some 0, td_source = [], td_data = Some [(main_type, [Null])], td_error = None,
     td_executionStatus = None, td_inputOverride = None, td_metadata = None\<rparr>])]
     [input_of ''a0'' 0] 0 = Inl TypeError"
  by code_simp

section \<open>The shape of the waiting list\<close>

text \<open>Every waiting entry has one slot per input of its node, at least one of them \<^verbatim>\<open>null\<close>, and a source
  entry beside it.\<close>

definition entries_ok :: "nat \<Rightarrow> (nat, ITaskDataConnections) jsmap \<Rightarrow> (nat, ITaskDataConnectionsSource) jsmap \<Rightarrow> bool" where
  "entries_ok N obj sobj \<longleftrightarrow> jok obj \<and>
     (\<forall>k e. jget obj k = Some e \<longrightarrow> (\<exists>se row srow. jget sobj k = Some se \<and> jget e main_type = Some row \<and>
        length row = N \<and> list_ex is_null row \<and> jget se main_type = Some srow))"

definition sources_of :: "Scheduling \<Rightarrow> IWaitingForExecutionSource" where
  "sources_of st = (case sc_waitingSource st of None \<Rightarrow> [] | Some s \<Rightarrow> s)"

definition waiting_shape :: "RunnableWorkflow \<Rightarrow> Scheduling \<Rightarrow> bool" where
  "waiting_shape w st \<longleftrightarrow>
     (\<forall>n obj. jget (sc_waiting st) n = Some obj \<longrightarrow> obj \<noteq> [] \<and>
        (\<exists>sobj. jget (sources_of st) n = Some sobj \<and> entries_ok (numberOfInputs w n) obj sobj)) \<and>
     list_all (\<lambda>item. si_node item \<noteq> None) (sc_stack st)"

lemma bind_res_Inr [simp]: "bind_res (Inr x) f = f x"
  by (simp add: bind_res_def)

lemma defined_Some [simp]: "defined (Some x) = Inr x"
  by (simp add: defined_def)

lemma waiting_shape_update:
  assumes "waiting_shape w st" and "entries_ok (numberOfInputs w n) obj sobj" and "obj \<noteq> []"
    and "sc_waiting st' = jset (sc_waiting st) n obj" and "sc_waitingSource st' = Some (jset (sources_of st) n sobj)"
    and "list_all (\<lambda>item. si_node item \<noteq> None) (sc_stack st')"
  shows "waiting_shape w st'"
  using assms by (auto simp: waiting_shape_def sources_of_def)

lemma waiting_shape_delete:
  assumes "waiting_shape w st"
    and "sc_waiting st' = jdel (sc_waiting st) n" and "sc_waitingSource st' = Some (jdel (sources_of st) n)"
    and "list_all (\<lambda>item. si_node item \<noteq> None) (sc_stack st')"
  shows "waiting_shape w st'"
  using assms by (auto simp: waiting_shape_def sources_of_def)

lemma firstMissing_total:
  assumes "\<forall>k\<in>set ks. \<exists>e row. jget obj k = Some e \<and> jget e main_type = Some row"
  shows "\<exists>found. firstMissing obj ks i = Inr found \<and> (\<forall>k. found = Some k \<longrightarrow> k \<in> set ks)"
  using assms
proof (induction ks)
  case (Cons k ks)
  then obtain e row where "jget obj k = Some e" "jget e main_type = Some row" by auto
  moreover from Cons obtain found where "firstMissing obj ks i = Inr found" "\<forall>k. found = Some k \<longrightarrow> k \<in> set ks" by auto
  ultimately show ?case by (auto split: slot.splits)
qed simp

text \<open>The entry the data goes to, with the entries of the node before and after.\<close>

lemma waitingEntry_ok:
  assumes ok: "waiting_shape w st" and N: "numberOfInputs w (con_node c) > 1"
  shows "\<exists>st1 index was obj sobj. waitingEntry w c st = Inr (st1, index, was) \<and>
    sc_waiting st1 = jset (sc_waiting st) (con_node c) obj \<and>
    sc_waitingSource st1 = Some (jset (sources_of st) (con_node c) sobj) \<and>
    sc_stack st1 = sc_stack st \<and> sc_runData st1 = sc_runData st \<and>
    entries_ok (numberOfInputs w (con_node c)) obj sobj \<and> index \<in> fst ` set obj"
proof -
  let ?n = "con_node c" and ?N = "numberOfInputs w (con_node c)"
  let ?new = "[(main_type, replicate ?N Null)]" and ?snew = "[(main_type, replicate ?N Null)]"
  obtain m where m: "?N = Suc m" using N by (cases ?N) auto
  have fresh: "entries_ok ?N (jset obj k ?new) (jset sobj k [(main_type, replicate ?N Null)])"
    if "entries_ok ?N obj sobj" for obj sobj k
    using that by (auto simp: entries_ok_def m jok_jset)
  have nil: "entries_ok ?N [] sobj" for sobj by (simp add: entries_ok_def)
  show ?thesis
  proof (cases "jget (sc_waiting st) ?n")
    case None
    then show ?thesis
      using fresh[OF nil, of 0 "[]"]
      by (intro exI[of _ "prepareWaitingToExecution ?n ?N 0 (st\<lparr>sc_waiting := jset (sc_waiting st) ?n [],
            sc_waitingSource := Some (jset (sources_of st) ?n [])\<rparr>)"] exI[of _ "0::nat"] exI[of _ False]
          exI[of _ "jset [] 0 ?new"] exI[of _ "jset [] 0 ?snew"])
        (auto simp: waitingEntry_def Let_def sources_of_def prepareWaitingToExecution_def split: option.splits)
  next
    case (Some obj)
    then obtain sobj where sobj: "jget (sources_of st) ?n = Some sobj" "entries_ok ?N obj sobj"
      using ok by (auto simp: waiting_shape_def)
    have st1: "(if sc_waitingSource st = None then st\<lparr>sc_waitingSource := Some []\<rparr> else st) = st"
      using sobj(1) by (auto simp: sources_of_def split: option.splits)
    have "\<forall>k\<in>set (sort (jkeys obj)). \<exists>e row. jget obj k = Some e \<and> jget e main_type = Some row"
    proof
      fix k assume "k \<in> set (sort (jkeys obj))"
      then obtain e where "jget obj k = Some e" using map_of_eq_None_iff[of obj k] by auto
      with sobj(2) show "\<exists>e row. jget obj k = Some e \<and> jget e main_type = Some row"
        unfolding entries_ok_def by blast
    qed
    from firstMissing_total[OF this, of "con_index c"]
    obtain found where found: "firstMissing obj (sort (jkeys obj)) (con_index c) = Inr found"
      "\<forall>k. found = Some k \<longrightarrow> k \<in> fst ` set obj" by auto
    have same: "jset (sc_waiting st) ?n obj = sc_waiting st" "Some (jset (sources_of st) ?n sobj) = sc_waitingSource st"
      using Some sobj(1) by (auto simp: update_triv sources_of_def split: option.splits)
    show ?thesis
    proof (cases found)
      case (Some k)
      then show ?thesis
        using found \<open>jget (sc_waiting st) ?n = Some obj\<close> st1 same sobj
        by (intro exI[of _ st] exI[of _ k] exI[of _ True] exI[of _ obj] exI[of _ sobj])
          (simp add: waitingEntry_def Let_def)
    next
      case None
      then show ?thesis
        using found \<open>jget (sc_waiting st) ?n = Some obj\<close> st1 sobj fresh[OF sobj(2), of "length obj"]
        by (intro exI[of _ "prepareWaitingToExecution ?n ?N (length obj) st"] exI[of _ "length obj"] exI[of _ True]
            exI[of _ "jset obj (length obj) ?new"] exI[of _ "jset sobj (length obj) ?snew"])
          (simp add: waitingEntry_def Let_def prepareWaitingToExecution_def sources_of_def[symmetric])
    qed
  qed
qed

definition slot_at :: "INodeExecutionData list slot list option \<Rightarrow> nat \<Rightarrow> INodeExecutionData list slot" where
  "slot_at d outputIndex = (case d of None \<Rightarrow> Null | Some data \<Rightarrow> slot_get data outputIndex)"

lemma fillWaiting_ok:
  assumes "jget (sc_waiting st) (con_node c) = Some obj" and "sc_waitingSource st = Some sources"
    and "jget sources (con_node c) = Some sobj" and "entries_ok N obj sobj" and "index \<in> fst ` set obj"
    and "con_index c < N"
  obtains e row se srow where "fillWaiting c index outputIndex parent d runIndex st = Inr (st\<lparr>
      sc_waiting := jset (sc_waiting st) (con_node c) (jset obj index e),
      sc_waitingSource := Some (jset sources (con_node c) (jset sobj index se))\<rparr>)"
    and "jget e main_type = Some (slot_set row (con_index c) (slot_at d outputIndex))" and "length row = N"
    and "jget se main_type = Some srow"
proof -
  obtain e0 where e0: "jget obj index = Some e0" using assms(5) map_of_eq_None_iff[of obj index] by auto
  then obtain se0 row0 srow0 where r: "jget sobj index = Some se0" "jget e0 main_type = Some row0" "length row0 = N"
    "jget se0 main_type = Some srow0"
    using assms(4) unfolding entries_ok_def by blast
  let ?s = "case d of None \<Rightarrow> Null | Some data \<Rightarrow> source_from parent outputIndex runIndex"
  have "fillWaiting c index outputIndex parent d runIndex st = Inr (st\<lparr>
      sc_waiting := jset (sc_waiting st) (con_node c)
        (jset obj index (jset e0 main_type (slot_set row0 (con_index c) (slot_at d outputIndex)))),
      sc_waitingSource := Some (jset sources (con_node c)
        (jset sobj index (jset se0 main_type (slot_set srow0 (con_index c) ?s))))\<rparr>)"
    using assms(1-3) e0 r by (cases d) (simp_all add: fillWaiting_def setWaiting_def slot_at_def)
  from that[OF this _ r(3)] show thesis by simp
qed

lemma releaseWaiting_ok:
  assumes shape: "waiting_shape w st0"
    and st: "sc_waiting st = jset (sc_waiting st0) n obj" "sc_waitingSource st = Some (jset (sources_of st0) n sobj)"
      "sc_stack st = sc_stack st0"
    and ok: "entries_ok (numberOfInputs w n) (jdel obj k) (jdel sobj k)" and e: "jget obj k = Some e"
    and v1: "wf_executionOrder w = Some ''v1''" and node: "jget (wf_nodes w) n = Some node"
  shows "\<exists>st' item. releaseWaiting w n k st = Inr st' \<and> waiting_shape w st' \<and> sc_runData st' = sc_runData st \<and>
    sc_stack st' = item # sc_stack st0 \<and> si_node item = Some node \<and> si_data item = e"
proof -
  let ?item = "\<lparr>si_node = Some node, si_data = e, si_source = jget sobj k, si_runIndex = None, si_metadata = None\<rparr>"
  let ?st1 = "st\<lparr>sc_stack := ?item # sc_stack st0\<rparr>"
  let ?st' = "if jdel obj k = []
    then ?st1\<lparr>sc_waiting := jdel (sc_waiting st) n, sc_waitingSource := Some (jdel (jset (sources_of st0) n sobj) n)\<rparr>
    else ?st1\<lparr>sc_waiting := jset (sc_waiting st) n (jdel obj k),
      sc_waitingSource := Some (jset (jset (sources_of st0) n sobj) n (jdel sobj k))\<rparr>"
  have r: "releaseWaiting w n k st = Inr ?st'"
    using st e v1 node by (simp add: releaseWaiting_def enqueueItem_def Let_def)
  have stack: "list_all (\<lambda>item. si_node item \<noteq> None) (?item # sc_stack st0)"
    using shape by (simp add: waiting_shape_def)
  have "waiting_shape w ?st'"
  proof (cases "jdel obj k = []")
    case True
    then show ?thesis using st stack
      by (auto intro!: waiting_shape_delete[OF shape, where n = n] simp: delete_update_same)
  next
    case False
    then show ?thesis using st stack ok
      by (auto intro!: waiting_shape_update[OF shape, where n = n])
  qed
  with r show ?thesis by (intro exI[of _ ?st'] exI[of _ ?item]) simp
qed

lemma incomingConnectionIsEmpty_total:
  assumes "\<forall>n r i. outputAt runData n r i \<noteq> Null"
  shows "\<exists>b. incomingConnectionIsEmpty runData cs r = Inr b"
  using assms by (induction cs) (auto split: slot.splits)

text \<open>In the order \<open>v1\<close> the loop over the other inputs adds nothing.\<close>

lemma addSiblings_v1:
  assumes v1: "wf_executionOrder w = Some ''v1''" and inputs: "mainInputs w n = Some rows"
    and outs: "checkOutputNodes w parent = Inr outs" "\<forall>m\<in>set outs. \<exists>conns. firstMainInputs w m = Inr conns"
    and nonull: "\<forall>m r i. outputAt (sc_runData st) m r i \<noteq> Null"
    and stack: "list_all (\<lambda>item. si_node item \<noteq> None) (sc_stack st)"
  shows "addSiblings w n parent outputIndex d runIndex st = Inr st"
proof -
  have step: "siblingStep w parent outputIndex d runIndex outs i st = Inr st" for i
  proof (cases "con_node i \<in> set outs")
    case True
    with outs(2) obtain conns where "firstMainInputs w (con_node i) = Inr conns" by blast
    moreover obtain b where "incomingConnectionIsEmpty (sc_runData st) conns runIndex = Inr b"
      using incomingConnectionIsEmpty_total[OF nonull] by blast
    ultimately show ?thesis
      using stack v1 by (simp add: siblingStep_def stackNodeNames_def isLegacyExecutionOrder_def)
  next
    case False
    then show ?thesis using stack v1 by (simp add: siblingStep_def stackNodeNames_def isLegacyExecutionOrder_def)
  qed
  have "fold_res (siblingStep w parent outputIndex d runIndex outs) xs st = Inr st" for xs
    by (induction xs) (simp_all add: step)
  then show ?thesis by (simp add: addSiblings_def outs(1) inputs)
qed

lemma keepWaiting_ok:
  assumes shape: "waiting_shape w st0"
    and st: "sc_waiting st = jset (sc_waiting st0) n obj" "sc_waitingSource st = Some (jset (sources_of st0) n sobj)"
      "sc_stack st = sc_stack st0"
    and n: "n = con_node c"
    and e: "jget obj k = Some e" "jget e main_type = Some row" "length row = numberOfInputs w n"
    and se: "jget sobj k = Some se" "jget se main_type = Some srow"
    and row: "slot_set row (con_index c) (slot_at d outputIndex) = row"
      "list_ex is_null row"
    and ok: "entries_ok (numberOfInputs w n) (jdel obj k) (jdel sobj k)" "jok obj"
  shows "\<exists>st'. keepWaiting w c k outputIndex d st = Inr st' \<and> waiting_shape w st' \<and>
    sc_runData st' = sc_runData st \<and> sc_stack st' = sc_stack st0"
proof -
  let ?N = "numberOfInputs w n"
  let ?obj = "jset (jset obj k [(main_type, replicate ?N Null)]) k [(main_type, row)]"
  let ?sobj = "jset (jset sobj k [(main_type, replicate ?N Null)]) k [(main_type, srow)]"
  let ?st' = "st\<lparr>sc_waiting := jset (jset (sc_waiting st) n (jset obj k [(main_type, replicate ?N Null)])) n ?obj,
    sc_waitingSource := Some (jset (jset (jset (sources_of st0) n sobj) n (jset sobj k [(main_type, replicate ?N Null)])) n ?sobj)\<rparr>"
  have r: "keepWaiting w c k outputIndex d st = Inr ?st'"
    using st e se row(1) unfolding slot_at_def n
    by (simp add: keepWaiting_def waitingRow_def prepareWaitingToExecution_def Let_def)
  have "entries_ok ?N ?obj ?sobj"
  proof -
    have "\<exists>se row srow. jget sobj k' = Some se \<and> jget e' main_type = Some row \<and> length row = ?N \<and>
        list_ex is_null row \<and> jget se main_type = Some srow" if "jget obj k' = Some e'" "k' \<noteq> k" for k' e'
      using ok(1) that unfolding entries_ok_def by (metis jdel_get)
    then show ?thesis using e(3) row(2) ok(2) by (auto simp: entries_ok_def jok_jset)
  qed
  moreover have "?obj \<noteq> []" using e(1) by (metis jset_get map_of.simps(1) option.distinct(1))
  moreover have "list_all (\<lambda>item. si_node item \<noteq> None) (sc_stack st)"
    using shape st(3) by (simp add: waiting_shape_def)
  ultimately have "waiting_shape w ?st'"
    by (intro waiting_shape_update[OF shape, of n ?obj ?sobj]) (simp_all add: st)
  with r st(3) show ?thesis by (intro exI[of _ ?st']) simp
qed

text \<open>What the function relies on in the order \<open>v1\<close>: the target exists and has the input, the outputs of
  the parent lead to main inputs, and no output in the run data is \<^verbatim>\<open>null\<close>.\<close>

definition deliverable :: "RunnableWorkflow \<Rightarrow> IConnection \<Rightarrow> string \<Rightarrow> IRunData \<Rightarrow> bool" where
  "deliverable w c parentNodeName runData \<longleftrightarrow>
     wf_executionOrder w = Some ''v1'' \<and> jget (wf_nodes w) (con_node c) \<noteq> None \<and>
     (numberOfInputs w (con_node c) > 1 \<longrightarrow> con_index c < numberOfInputs w (con_node c)) \<and>
     (\<exists>outs. checkOutputNodes w parentNodeName = Inr outs \<and>
        (\<forall>m\<in>set outs. \<exists>conns. firstMainInputs w m = Inr conns)) \<and>
     (\<forall>m r i. outputAt runData m r i \<noteq> Null)"

lemma addNode_waiting_ok:
  assumes shape: "waiting_shape w st" and del: "deliverable w c parent (sc_runData st)"
    and N: "numberOfInputs w (con_node c) > 1" and node: "jget (wf_nodes w) (con_node c) = Some node"
  shows "\<exists>st'. addNodeToBeExecuted w c outputIndex parent d runIndex newRunIndex metadata st = Inr st' \<and>
    waiting_shape w st' \<and> sc_runData st' = sc_runData st \<and>
    (sc_stack st' = sc_stack st \<or> (\<exists>item row. sc_stack st' = item # sc_stack st \<and> si_node item = Some node \<and>
       jget (si_data item) main_type = Some row \<and> length row = numberOfInputs w (con_node c) \<and> \<not> list_ex is_null row))"
proof -
  let ?n = "con_node c" and ?N = "numberOfInputs w (con_node c)"
  obtain st1 index was obj sobj where w1: "waitingEntry w c st = Inr (st1, index, was)"
    "sc_waiting st1 = jset (sc_waiting st) ?n obj" "sc_waitingSource st1 = Some (jset (sources_of st) ?n sobj)"
    "sc_stack st1 = sc_stack st" "sc_runData st1 = sc_runData st" "entries_ok ?N obj sobj" "index \<in> fst ` set obj"
    using waitingEntry_ok[OF shape N] by (elim exE conjE)
  have i: "con_index c < ?N" using del N by (simp add: deliverable_def)
  have g: "jget (sc_waiting st1) ?n = Some obj" "jget (jset (sources_of st) ?n sobj) ?n = Some sobj"
    using w1(2) by simp_all
  obtain e row se srow where f: "fillWaiting c index outputIndex parent d runIndex st1 = Inr (st1\<lparr>
      sc_waiting := jset (sc_waiting st1) ?n (jset obj index e),
      sc_waitingSource := Some (jset (jset (sources_of st) ?n sobj) ?n (jset sobj index se))\<rparr>)"
    "jget e main_type = Some (slot_set row (con_index c) (slot_at d outputIndex))" "length row = ?N"
    "jget se main_type = Some srow"
    by (rule fillWaiting_ok[OF g(1) w1(3) g(2) w1(6,7) i, of outputIndex parent d runIndex]) blast
  let ?row = "slot_set row (con_index c) (slot_at d outputIndex)"
  let ?st2 = "st1\<lparr>sc_waiting := jset (sc_waiting st1) ?n (jset obj index e),
      sc_waitingSource := Some (jset (jset (sources_of st) ?n sobj) ?n (jset sobj index se))\<rparr>"
  have st2: "sc_waiting ?st2 = jset (sc_waiting st) ?n (jset obj index e)"
    "sc_waitingSource ?st2 = Some (jset (sources_of st) ?n (jset sobj index se))" "sc_stack ?st2 = sc_stack st"
    "sc_runData ?st2 = sc_runData st"
    using w1 by simp_all
  have len: "length ?row = ?N" using f(3) i by simp
  have rest: "entries_ok ?N (jdel (jset obj index e) index) (jdel (jset sobj index se) index)"
    using w1(6) unfolding entries_ok_def delete_update_same by (auto simp: jok_jdel)
  have wrow: "waitingRow (sc_waiting ?st2) ?n index = Inr ?row"
    using st2(1) f(2) by (simp add: waitingRow_def)
  have A: "addNodeToBeExecuted w c outputIndex parent d runIndex newRunIndex metadata st =
    (if \<not> list_ex is_null ?row then releaseWaiting w ?n index ?st2
     else bind_res (if was then Inr ?st2 else addSiblings w ?n parent outputIndex d runIndex ?st2)
       (keepWaiting w c index outputIndex d))"
    using N w1(1) f(1) wrow by (simp add: addNodeToBeExecuted_def)
  show ?thesis
  proof (cases "list_ex is_null ?row")
    case False
    obtain st' item where "releaseWaiting w ?n index ?st2 = Inr st'" "waiting_shape w st'"
      "sc_runData st' = sc_runData ?st2" "sc_stack st' = item # sc_stack st" "si_node item = Some node" "si_data item = e"
      using releaseWaiting_ok[OF shape st2(1-3) rest _ _ node] del by (auto simp: deliverable_def)
    with False A f(2) len st2(4) show ?thesis by (intro exI[of _ st'] conjI disjI2 exI[of _ item] exI[of _ ?row]) simp_all
  next
    case True
    have "(if was then Inr ?st2 else addSiblings w ?n parent outputIndex d runIndex ?st2) = Inr ?st2"
    proof -
      obtain rows where "mainInputs w ?n = Some rows" using N by (auto simp: numberOfInputs_def split: option.splits)
      moreover obtain outs where "checkOutputNodes w parent = Inr outs" "\<forall>m\<in>set outs. \<exists>conns. firstMainInputs w m = Inr conns"
        using del unfolding deliverable_def by (elim conjE exE)
      moreover have "\<forall>m r i. outputAt (sc_runData ?st2) m r i \<noteq> Null"
        using del st2(4) unfolding deliverable_def by metis
      moreover have "list_all (\<lambda>item. si_node item \<noteq> None) (sc_stack ?st2)"
        using shape st2(3) unfolding waiting_shape_def by metis
      ultimately show ?thesis
        using addSiblings_v1[of w ?n rows parent outs ?st2] del unfolding deliverable_def by simp
    qed
    moreover have same: "slot_set ?row (con_index c) (slot_at d outputIndex) = ?row"
      using f(3) i by (simp add: slot_set_def)
    moreover obtain st' where "keepWaiting w c index outputIndex d ?st2 = Inr st'" "waiting_shape w st'"
      "sc_runData st' = sc_runData ?st2" "sc_stack st' = sc_stack st"
      using keepWaiting_ok[OF shape st2(1-3) refl _ f(2) len _ f(4) same True rest] w1(6)
      by (auto simp: entries_ok_def jok_jset)
    ultimately show ?thesis using A True st2(4) by (intro exI[of _ st']) simp
  qed
qed



end
