(* ===== verification/Workflow_Search.thy ===== *)
theory Workflow_Search
  imports Partial_Execution
begin

text \<open>
  Searches over a workflow's connections in the class \<^verbatim>\<open>Workflow\<close> (\<^verbatim>\<open>packages/workflow/src/workflow.ts\<close>):
  \<^verbatim>\<open>searchNodesBFS\<close> and \<^verbatim>\<open>getParentNodesByDepth\<close>, and \<^verbatim>\<open>getNodeConnectionIndexes\<close>. The names of nodes are assumed not to be properties of
  \<^verbatim>\<open>Object.prototype\<close>, which the code's lookups \<open>visited[name]\<close> and \<open>name in nodes\<close> would find.
\<close>

section \<open>Connections of one type\<close>

definition connectionsFrom :: "IConnections \<Rightarrow> connection_type \<Rightarrow> string \<Rightarrow> IConnection list" where
  "connectionsFrom C type node = concat (map (\<lambda>conns. slot_or conns []) (rowsOf C node type))"

definition typeEdges :: "IConnections \<Rightarrow> connection_type \<Rightarrow> (string \<times> string) set" where
  "typeEdges C type = {(a, b). \<exists>c \<in> set (connectionsFrom C type a). con_node c = b}"

lemma connectionsFrom_key: "jget C n = None \<Longrightarrow> connectionsFrom C type n = []"
  by (simp add: connectionsFrom_def rowsOf_def)

lemma unseen_decreases:
  assumes "jget C n \<noteq> None" and "n \<notin> seen" and "insert n seen \<subseteq> seen'"
  shows "card (set (jkeys C) - seen') < card (set (jkeys C) - seen)"
proof -
  have "n \<in> set (jkeys C)" using assms(1) by (metis list.set_map map_of_eq_None_iff)
  with assms(2,3) show ?thesis by (intro psubset_card_mono) auto
qed

section \<open>Breadth-first search\<close>

record IConnectedNode =
  cn_name :: string
  cn_indicies :: "nat list"
  cn_depth :: nat

definition dedupe :: "'a list \<Rightarrow> 'a list" where
  "dedupe arr = set_add_all [] arr"

text \<open>The body of the loop over \<open>toAdd\<close>. The objects in \<open>returnConns\<close> are those of \<open>visited\<close>, so the list
  holds their names and later changes of their indices show in the result.\<close>

type_synonym bfs_state = "(string, IConnectedNode) jsmap \<times> string list \<times> IConnectedNode list"

definition bfsVisit :: "IConnections \<Rightarrow> string \<Rightarrow> nat \<Rightarrow> IConnectedNode \<Rightarrow> bfs_state \<Rightarrow> bfs_state" where
  "bfsVisit connections sourceNode depth current = (\<lambda>(visited, returnConns, queue).
     case jget visited (cn_name current) of
       Some v \<Rightarrow>
         (jset visited (cn_name current) (v\<lparr>cn_indicies := dedupe (cn_indicies v @ cn_indicies current)\<rparr>), returnConns, queue)
     | None \<Rightarrow>
         (jset visited (cn_name current) current,
          if cn_name current \<noteq> sourceNode then returnConns @ [cn_name current] else returnConns,
          queue @ map (\<lambda>c. \<lparr>cn_name = con_node c, cn_indicies = [con_index c], cn_depth = depth\<rparr>)
            (connectionsFrom connections main_type (cn_name current))))"

abbreviation bfsRound :: "IConnections \<Rightarrow> string \<Rightarrow> nat \<Rightarrow> IConnectedNode list \<Rightarrow> bfs_state \<Rightarrow> bfs_state" where
  "bfsRound C s depth \<equiv> fold (bfsVisit C s depth)"

lemma bfsVisit_keys: "set (jkeys (fst (bfsVisit C s d q st))) = insert (cn_name q) (set (jkeys (fst st)))"
  by (cases st) (auto simp: bfsVisit_def split: option.splits)

lemma bfsRound_keys:
  "set (jkeys (fst (bfsRound C s d qs st))) = cn_name ` set qs \<union> set (jkeys (fst st))"
  by (induction qs arbitrary: st) (simp_all add: bfsVisit_keys del: set_map)

text \<open>Whatever a round queues comes from a node with connections that it visited first.\<close>

lemma bfsRound_queue_empty:
  assumes "\<forall>q \<in> set qs. jget (fst st) (cn_name q) \<noteq> None \<or> jget C (cn_name q) = None" and "snd (snd st) = []"
  shows "snd (snd (bfsRound C s d qs st)) = []"
  using assms
proof (induction qs arbitrary: st)
  case (Cons q qs)
  obtain V R Q where st: "st = (V, R, Q)" by (cases st)
  have "snd (snd (bfsVisit C s d q st)) = []"
    using Cons.prems by (auto simp: st bfsVisit_def connectionsFrom_key split: option.splits)
  moreover have "jget (fst (bfsVisit C s d q st)) n \<noteq> None" if "jget (fst st) n \<noteq> None" for n
    using that by (auto simp: st bfsVisit_def split: option.splits)
  ultimately have "snd (snd (bfsRound C s d qs (bfsVisit C s d q st))) = []"
    using Cons.prems(1) by (intro Cons.IH) (metis list.set_intros(2))+
  then show ?case by simp
qed simp

function bfsLoop :: "IConnections \<Rightarrow> string \<Rightarrow> int \<Rightarrow> nat \<Rightarrow> IConnectedNode list \<Rightarrow> (string, IConnectedNode) jsmap \<Rightarrow>
    string list \<Rightarrow> (string, IConnectedNode) jsmap \<times> string list" where
  "bfsLoop C sourceNode maxDepth depth queue visited returnConns =
     (if queue = [] \<or> (maxDepth \<noteq> -1 \<and> int depth > maxDepth) then (visited, returnConns)
      else case bfsRound C sourceNode (depth + 1) queue (visited, returnConns, []) of
        (visited', returnConns', queue') \<Rightarrow>
          bfsLoop C sourceNode maxDepth (depth + 1) queue' visited' returnConns')"
  by pat_completeness auto

termination bfsLoop
proof (relation "inv_image (less_than <*lex*> less_than)
    (\<lambda>(C, s, m, d, q, V, R). (card (set (jkeys C) - set (jkeys V)), length q))", goal_cases)
  case (2 C s m d q V R V' y R' Q')
  then have r: "bfsRound C s (d + 1) q (V, R, []) = (V', R', Q')" by simp
  have keys: "set (jkeys V') = cn_name ` set q \<union> set (jkeys V)"
    using bfsRound_keys[of C s "d + 1" q "(V, R, [])"] r by simp
  show ?case
  proof (cases "\<forall>x \<in> set q. jget V (cn_name x) \<noteq> None \<or> jget C (cn_name x) = None")
    case True
    then have "Q' = []" using bfsRound_queue_empty[of q "(V, R, [])" C s "d + 1"] r by simp
    moreover have "card (set (jkeys C) - set (jkeys V')) \<le> card (set (jkeys C) - set (jkeys V))"
      using keys by (intro card_mono) auto
    ultimately show ?thesis using 2 by auto
  next
    case False
    then obtain x where x: "x \<in> set q" "jget V (cn_name x) = None" "jget C (cn_name x) \<noteq> None" by blast
    then have "cn_name x \<notin> set (jkeys V)" by (metis list.set_map map_of_eq_None_iff)
    then have "card (set (jkeys C) - set (jkeys V')) < card (set (jkeys C) - set (jkeys V))"
      using x keys by (intro unseen_decreases) auto
    then show ?thesis by simp
  qed
qed auto

definition searchNodesBFS :: "IConnections \<Rightarrow> string \<Rightarrow> int \<Rightarrow> IConnectedNode list" where
  "searchNodesBFS connections sourceNode maxDepth =
     (case bfsLoop connections sourceNode maxDepth 0 [\<lparr>cn_name = sourceNode, cn_indicies = [], cn_depth = 0\<rparr>] [] [] of
        (visited, returnConns) \<Rightarrow> List.map_filter (jget visited) returnConns)"

definition getParentNodesByDepth :: "Workflow \<Rightarrow> string \<Rightarrow> int \<Rightarrow> IConnectedNode list" where
  "getParentNodesByDepth w nodeName maxDepth =
     searchNodesBFS (connectionsByDestinationNode w) nodeName maxDepth"

declare bfsLoop.simps [simp del]

text \<open>The nodes at a distance, and those nearer than it.\<close>

definition atDistance :: "('a \<times> 'a) set \<Rightarrow> 'a \<Rightarrow> nat \<Rightarrow> 'a set" where
  "atDistance E s k = {n. (s, n) \<in> E ^^ k \<and> (\<forall>j < k. (s, n) \<notin> E ^^ j)}"

definition nearerThan :: "('a \<times> 'a) set \<Rightarrow> 'a \<Rightarrow> nat \<Rightarrow> 'a set" where
  "nearerThan E s k = (\<Union>j < k. atDistance E s j)"

lemma nearerThan_iff: "n \<in> nearerThan E s k \<longleftrightarrow> (\<exists>j < k. (s, n) \<in> E ^^ j)"
proof
  assume "\<exists>j < k. (s, n) \<in> E ^^ j"
  then obtain j where j: "j < k" "(s, n) \<in> E ^^ j" by blast
  let ?l = "LEAST l. (s, n) \<in> E ^^ l"
  have "(s, n) \<in> E ^^ ?l" using j(2) by (rule LeastI)
  moreover have "(s, n) \<notin> E ^^ i" if "i < ?l" for i using not_less_Least[OF that] .
  ultimately have "n \<in> atDistance E s ?l" by (simp add: atDistance_def)
  moreover have "?l < k" using Least_le[of "\<lambda>l. (s, n) \<in> E ^^ l", OF j(2)] j(1) by simp
  ultimately show "n \<in> nearerThan E s k" by (auto simp: nearerThan_def)
qed (auto simp: nearerThan_def atDistance_def)

lemma atDistance_0 [simp]: "atDistance E s 0 = {s}"
  by (auto simp: atDistance_def)

lemma nearerThan_0 [simp]: "nearerThan E s 0 = {}"
  by (simp add: nearerThan_def)

lemma nearerThan_Suc: "nearerThan E s (Suc k) = nearerThan E s k \<union> atDistance E s k"
  by (auto simp: nearerThan_def less_Suc_eq)

lemma atDistance_disjoint: "n \<in> atDistance E s k \<Longrightarrow> n \<notin> nearerThan E s k"
  by (auto simp: nearerThan_iff atDistance_def)

lemma atDistance_unique: "n \<in> atDistance E s j \<Longrightarrow> n \<in> atDistance E s k \<Longrightarrow> j = k"
  by (auto simp: atDistance_def) (meson linorder_neqE_nat)

lemma atDistance_Suc: "atDistance E s (Suc k) = E `` atDistance E s k - nearerThan E s (Suc k)"
proof (intro equalityI subsetI)
  fix n assume n: "n \<in> atDistance E s (Suc k)"
  then obtain m where m: "(s, m) \<in> E ^^ k" "(m, n) \<in> E" by (auto simp: atDistance_def)
  have "(s, m) \<notin> E ^^ j" if "j < k" for j
  proof
    assume "(s, m) \<in> E ^^ j"
    with m(2) have "(s, n) \<in> E ^^ Suc j" by auto
    with n that show False unfolding atDistance_def by blast
  qed
  with m(1) have "m \<in> atDistance E s k" by (simp add: atDistance_def)
  with m(2) n show "n \<in> E `` atDistance E s k - nearerThan E s (Suc k)" by (auto dest: atDistance_disjoint)
next
  fix n assume "n \<in> E `` atDistance E s k - nearerThan E s (Suc k)"
  then show "n \<in> atDistance E s (Suc k)" by (auto simp: nearerThan_iff atDistance_def)
qed

lemma atDistance_empty: "atDistance E s k = {} \<Longrightarrow> k \<le> j \<Longrightarrow> atDistance E s j = {}"
proof (induction j)
  case (Suc j)
  then show ?case by (cases "k = Suc j") (auto simp: atDistance_Suc)
qed simp

lemma nearerThan_edge: "u \<in> nearerThan E s k \<Longrightarrow> (u, n) \<in> E \<Longrightarrow> n \<in> nearerThan E s (Suc k)"
  unfolding nearerThan_iff by (meson Suc_mono relpow_Suc_I)

text \<open>One round: the queue of names not yet visited is added with its depth, every index is kept.\<close>

definition indicesFor :: "IConnectedNode list \<Rightarrow> string \<Rightarrow> nat set" where
  "indicesFor qs n = (\<Union>q \<in> {q \<in> set qs. cn_name q = n}. set (cn_indicies q))"

lemma indicesFor_snoc:
  "indicesFor (qs @ [q]) n = indicesFor qs n \<union> (if cn_name q = n then set (cn_indicies q) else {})"
  by (auto simp: indicesFor_def)

definition queued :: "IConnections \<Rightarrow> nat \<Rightarrow> string set \<Rightarrow> IConnectedNode set" where
  "queued C d U = (\<lambda>c. \<lparr>cn_name = con_node c, cn_indicies = [con_index c], cn_depth = d\<rparr>) `
     (\<Union>u \<in> U. set (connectionsFrom C main_type u))"

definition round_ok :: "IConnections \<Rightarrow> string \<Rightarrow> nat \<Rightarrow> (string, IConnectedNode) jsmap \<Rightarrow> string list \<Rightarrow>
    IConnectedNode list \<Rightarrow> bfs_state \<Rightarrow> bool" where
  "round_ok C s d V R qs st \<longleftrightarrow> (case st of (V', R', Q') \<Rightarrow>
     (\<forall>n. jget V' n = None \<longleftrightarrow> jget V n = None \<and> n \<notin> cn_name ` set qs) \<and>
     (\<forall>n r. jget V' n = Some r \<longrightarrow> cn_name r = n \<and>
        cn_depth r = (case jget V n of Some v \<Rightarrow> cn_depth v | None \<Rightarrow> d) \<and>
        set (cn_indicies r) = (case jget V n of Some v \<Rightarrow> set (cn_indicies v) | None \<Rightarrow> {}) \<union> indicesFor qs n) \<and>
     (\<exists>new. R' = R @ new \<and> distinct new \<and> set new = {n \<in> cn_name ` set qs. jget V n = None \<and> n \<noteq> s}) \<and>
     set Q' = queued C (Suc d) {n \<in> cn_name ` set qs. jget V n = None})"

lemma round_okD:
  assumes "round_ok C s d V R qs (V', R', Q')"
  shows "jget V' n = None \<longleftrightarrow> jget V n = None \<and> n \<notin> cn_name ` set qs"
    and "jget V' n = Some r \<Longrightarrow> cn_name r = n"
    and "jget V' n = Some r \<Longrightarrow> cn_depth r = (case jget V n of Some v \<Rightarrow> cn_depth v | None \<Rightarrow> d)"
    and "jget V' n = Some r \<Longrightarrow>
      set (cn_indicies r) = (case jget V n of Some v \<Rightarrow> set (cn_indicies v) | None \<Rightarrow> {}) \<union> indicesFor qs n"
    and "\<exists>new. R' = R @ new \<and> distinct new \<and> set new = {n \<in> cn_name ` set qs. jget V n = None \<and> n \<noteq> s}"
    and "set Q' = queued C (Suc d) {n \<in> cn_name ` set qs. jget V n = None}"
  using assms unfolding round_ok_def prod.case by blast+

lemma set_dedupe [simp]: "set (dedupe xs) = set xs"
  by (simp add: dedupe_def)

lemma round_ok_visited:
  assumes ok: "round_ok C s d V R qs (V', R', Q')" and v: "jget V' (cn_name q) = Some v"
  shows "round_ok C s d V R (qs @ [q]) (bfsVisit C s (Suc d) q (V', R', Q'))"
proof -
  have names: "{n \<in> cn_name ` set (qs @ [q]). jget V n = None \<and> P n} = {n \<in> cn_name ` set qs. jget V n = None \<and> P n}" for P
    using round_okD(1)[OF ok, of "cn_name q"] v by auto
  let ?v = "v\<lparr>cn_indicies := dedupe (cn_indicies v @ cn_indicies q)\<rparr>"
  have st: "bfsVisit C s (Suc d) q (V', R', Q') = (jset V' (cn_name q) ?v, R', Q')"
    using v by (simp add: bfsVisit_def)
  show ?thesis
    unfolding round_ok_def st prod.case
  proof (intro conjI allI impI)
    fix n
    show "jget (jset V' (cn_name q) ?v) n = None \<longleftrightarrow> jget V n = None \<and> n \<notin> cn_name ` set (qs @ [q])"
      using round_okD(1)[OF ok, of n] v by auto
  next
    fix n r assume "jget (jset V' (cn_name q) ?v) n = Some r"
    then have r: "if n = cn_name q then r = ?v else jget V' n = Some r" by (auto split: if_splits)
    show "cn_name r = n" using r round_okD(2)[OF ok] v by (auto split: if_splits)
    show "cn_depth r = (case jget V n of Some v \<Rightarrow> cn_depth v | None \<Rightarrow> d)"
      using r round_okD(3)[OF ok] v by (auto split: if_splits)
    show "set (cn_indicies r) =
        (case jget V n of Some v \<Rightarrow> set (cn_indicies v) | None \<Rightarrow> {}) \<union> indicesFor (qs @ [q]) n"
      using r round_okD(4)[OF ok] v unfolding indicesFor_snoc by (auto split: if_splits)
  next
    show "\<exists>new. R' = R @ new \<and> distinct new \<and> set new = {n \<in> cn_name ` set (qs @ [q]). jget V n = None \<and> n \<noteq> s}"
      unfolding names by (rule round_okD(5)[OF ok])
    show "set Q' = queued C (Suc d) {n \<in> cn_name ` set (qs @ [q]). jget V n = None}"
      using names[of "\<lambda>_. True"] round_okD(6)[OF ok] by simp
  qed
qed

lemma round_ok_new:
  assumes ok: "round_ok C s d V R qs (V', R', Q')" and v: "jget V' (cn_name q) = None" and q: "cn_depth q = d"
  shows "round_ok C s d V R (qs @ [q]) (bfsVisit C s (Suc d) q (V', R', Q'))"
proof -
  have new: "jget V (cn_name q) = None" "cn_name q \<notin> cn_name ` set qs" using round_okD(1)[OF ok] v by auto
  let ?R = "if cn_name q \<noteq> s then R' @ [cn_name q] else R'"
  let ?Q = "Q' @ map (\<lambda>c. \<lparr>cn_name = con_node c, cn_indicies = [con_index c], cn_depth = Suc d\<rparr>)
            (connectionsFrom C main_type (cn_name q))"
  have st: "bfsVisit C s (Suc d) q (V', R', Q') = (jset V' (cn_name q) q, ?R, ?Q)"
    using v by (simp add: bfsVisit_def)
  show ?thesis
    unfolding round_ok_def st prod.case
  proof (intro conjI allI impI)
    fix n
    show "jget (jset V' (cn_name q) q) n = None \<longleftrightarrow> jget V n = None \<and> n \<notin> cn_name ` set (qs @ [q])"
      using round_okD(1)[OF ok, of n] by auto
  next
    fix n r assume "jget (jset V' (cn_name q) q) n = Some r"
    then have r: "if n = cn_name q then r = q else jget V' n = Some r" by (auto split: if_splits)
    show "cn_name r = n" using r round_okD(2)[OF ok] by (auto split: if_splits)
    show "cn_depth r = (case jget V n of Some v \<Rightarrow> cn_depth v | None \<Rightarrow> d)"
      using r round_okD(3)[OF ok] q new by (auto split: if_splits)
    have "indicesFor qs (cn_name q) = {}" using new(2) unfolding indicesFor_def image_iff by auto
    then show "set (cn_indicies r) =
        (case jget V n of Some v \<Rightarrow> set (cn_indicies v) | None \<Rightarrow> {}) \<union> indicesFor (qs @ [q]) n"
      using r round_okD(4)[OF ok] new unfolding indicesFor_snoc by (auto split: if_splits)
  next
    obtain nw where nw: "R' = R @ nw" "distinct nw" "set nw = {n \<in> cn_name ` set qs. jget V n = None \<and> n \<noteq> s}"
      using round_okD(5)[OF ok] by blast
    show "\<exists>new. ?R = R @ new \<and> distinct new \<and> set new = {n \<in> cn_name ` set (qs @ [q]). jget V n = None \<and> n \<noteq> s}"
      by (rule exI[of _ "if cn_name q \<noteq> s then nw @ [cn_name q] else nw"]) (use nw new in auto)
    show "set ?Q = queued C (Suc d) {n \<in> cn_name ` set (qs @ [q]). jget V n = None}"
      using round_okD(6)[OF ok] new by (auto simp: queued_def)
  qed
qed

lemma bfsRound_ok:
  assumes "\<forall>q \<in> set qs. cn_depth q = d" and "\<forall>n v. jget V n = Some v \<longrightarrow> cn_name v = n"
  shows "round_ok C s d V R qs (bfsRound C s (Suc d) qs (V, R, []))"
  using assms(1)
proof (induction qs rule: rev_induct)
  case Nil
  with assms(2) show ?case by (auto simp: round_ok_def indicesFor_def queued_def split: option.splits)
next
  case (snoc q qs)
  obtain V' R' Q' where st: "bfsRound C s (Suc d) qs (V, R, []) = (V', R', Q')" by (cases "bfsRound C s (Suc d) qs (V, R, [])")
  have ok: "round_ok C s d V R qs (V', R', Q')" using snoc unfolding st by simp
  show ?case
    using round_ok_visited[OF ok] round_ok_new[OF ok] snoc.prems
    by (cases "jget V' (cn_name q)") (simp_all add: st)
qed

text \<open>The state at the head of the outer loop: the nearer nodes are visited, with their distance and the
  indices of the connections from all but the last level; the queue holds that level's connections.\<close>

definition indicesInto :: "IConnections \<Rightarrow> string set \<Rightarrow> string \<Rightarrow> nat set" where
  "indicesInto C U n = {con_index c | c. con_node c = n \<and> (\<exists>u \<in> U. c \<in> set (connectionsFrom C main_type u))}"

definition bfs_inv :: "IConnections \<Rightarrow> string \<Rightarrow> nat \<Rightarrow> IConnectedNode list \<Rightarrow> (string, IConnectedNode) jsmap \<Rightarrow>
    string list \<Rightarrow> bool" where
  "bfs_inv C s d Q V R \<longleftrightarrow> (let E = typeEdges C main_type in
     (\<forall>n. jget V n \<noteq> None \<longleftrightarrow> n \<in> nearerThan E s d) \<and>
     (\<forall>n r. jget V n = Some r \<longrightarrow> cn_name r = n \<and> n \<in> atDistance E s (cn_depth r) \<and>
        set (cn_indicies r) = indicesInto C (nearerThan E s (d - 1)) n) \<and>
     distinct R \<and> set R = nearerThan E s d - {s} \<and>
     sorted_wrt (\<lambda>a b. \<forall>i j. a \<in> atDistance E s i \<longrightarrow> b \<in> atDistance E s j \<longrightarrow> i \<le> j) R \<and>
     set Q = (if d = 0 then {\<lparr>cn_name = s, cn_indicies = [], cn_depth = 0\<rparr>}
              else queued C d (atDistance E s (d - 1))))"

lemma bfs_invD:
  assumes "bfs_inv C s d Q V R"
  shows "jget V n \<noteq> None \<longleftrightarrow> n \<in> nearerThan (typeEdges C main_type) s d"
    and "jget V n = Some r \<Longrightarrow> cn_name r = n \<and> n \<in> atDistance (typeEdges C main_type) s (cn_depth r)"
    and "jget V n = Some r \<Longrightarrow> set (cn_indicies r) = indicesInto C (nearerThan (typeEdges C main_type) s (d - 1)) n"
    and "distinct R" and "set R = nearerThan (typeEdges C main_type) s d - {s}"
    and "sorted_wrt (\<lambda>a b. \<forall>i j. a \<in> atDistance (typeEdges C main_type) s i \<longrightarrow>
      b \<in> atDistance (typeEdges C main_type) s j \<longrightarrow> i \<le> j) R"
    and "set Q = (if d = 0 then {\<lparr>cn_name = s, cn_indicies = [], cn_depth = 0\<rparr>}
      else queued C d (atDistance (typeEdges C main_type) s (d - 1)))"
  using assms unfolding bfs_inv_def Let_def by blast+

lemma queued_names: "cn_name ` queued C d U = typeEdges C main_type `` U"
  by (force simp: queued_def typeEdges_def image_iff)

lemma queued_indices: "set qs = queued C d U \<Longrightarrow> indicesFor qs n = indicesInto C U n"
  by (auto simp: indicesFor_def indicesInto_def queued_def) blast

lemma indicesInto_Un: "indicesInto C (A \<union> B) n = indicesInto C A n \<union> indicesInto C B n"
  by (auto simp: indicesInto_def)

lemma indicesInto_none: "n \<notin> typeEdges C main_type `` U \<Longrightarrow> indicesInto C U n = {}"
  by (auto simp: indicesInto_def typeEdges_def)

lemma bfs_inv_names:
  assumes "bfs_inv C s d Q V R"
  shows "{n \<in> cn_name ` set Q. jget V n = None} = atDistance (typeEdges C main_type) s d"
proof -
  let ?E = "typeEdges C main_type"
  have dom: "jget V n = None \<longleftrightarrow> n \<notin> nearerThan ?E s d" for n
    using assms unfolding bfs_inv_def Let_def by blast
  have Q: "set Q = (if d = 0 then {\<lparr>cn_name = s, cn_indicies = [], cn_depth = 0\<rparr>} else queued C d (atDistance ?E s (d - 1)))"
    using assms unfolding bfs_inv_def Let_def by blast
  show ?thesis
  proof (cases d)
    case 0
    then show ?thesis using dom Q by auto
  next
    case (Suc k)
    then have "cn_name ` set Q = ?E `` atDistance ?E s k" using Q by (simp add: queued_names)
    then show ?thesis unfolding Suc atDistance_Suc using dom Suc by auto
  qed
qed

lemma bfs_inv_start: "bfs_inv C s 0 [\<lparr>cn_name = s, cn_indicies = [], cn_depth = 0\<rparr>] [] []"
  by (simp add: bfs_inv_def)

lemma bfs_inv_indices:
  assumes inv: "bfs_inv C s d Q V R"
    and n: "n \<in> nearerThan (typeEdges C main_type) s (Suc d)"
  shows "(case jget V n of Some v \<Rightarrow> set (cn_indicies v) | None \<Rightarrow> {}) \<union> indicesFor Q n =
    indicesInto C (nearerThan (typeEdges C main_type) s d) n"
proof (cases d)
  case 0
  then have "set Q = {\<lparr>cn_name = s, cn_indicies = [], cn_depth = 0\<rparr>}" "jget V n = None"
    using inv by (auto simp: bfs_inv_def Let_def)
  with 0 show ?thesis by (simp add: indicesFor_def indicesInto_def)
next
  case (Suc k)
  let ?E = "typeEdges C main_type"
  have Q: "indicesFor Q n = indicesInto C (atDistance ?E s k) n"
    using bfs_invD(7)[OF inv] Suc by (intro queued_indices[where d = d]) simp
  have "(case jget V n of Some v \<Rightarrow> set (cn_indicies v) | None \<Rightarrow> {}) = indicesInto C (nearerThan ?E s k) n"
  proof (cases "jget V n")
    case None
    then have "n \<notin> nearerThan ?E s (Suc k)" using bfs_invD(1)[OF inv, of n] Suc by simp
    then have "n \<notin> ?E `` nearerThan ?E s k" using nearerThan_edge[of _ ?E s k n] by (metis ImageE)
    with None show ?thesis by (simp add: indicesInto_none)
  next
    case (Some v)
    then show ?thesis using bfs_invD(3)[OF inv] Suc by simp
  qed
  with Q Suc show ?thesis by (simp add: nearerThan_Suc indicesInto_Un)
qed

lemma bfs_inv_round:
  assumes inv: "bfs_inv C s d Q V R" and r: "bfsRound C s (Suc d) Q (V, R, []) = (V', R', Q')"
  shows "bfs_inv C s (Suc d) Q' V' R'"
proof -
  let ?E = "typeEdges C main_type"
  note inv' = bfs_invD(1,2,4-7)[OF inv]
  have depth: "\<forall>q \<in> set Q. cn_depth q = d" using inv'(6) by (auto simp: queued_def)
  have ok: "round_ok C s d V R Q (V', R', Q')"
    using bfsRound_ok[OF depth, of V C s R] inv'(2) r by simp
  note names = bfs_inv_names[OF inv]
  have dom: "jget V' n \<noteq> None \<longleftrightarrow> n \<in> nearerThan ?E s (Suc d)" for n
  proof -
    have "jget V' n \<noteq> None \<longleftrightarrow> jget V n \<noteq> None \<or> n \<in> {n \<in> cn_name ` set Q. jget V n = None}"
      unfolding mem_Collect_eq using round_okD(1)[OF ok, of n] by argo
    then show ?thesis unfolding names nearerThan_Suc using inv'(1)[of n] by blast
  qed
  have entry: "cn_name v = n \<and> n \<in> atDistance ?E s (cn_depth v) \<and>
      set (cn_indicies v) = indicesInto C (nearerThan ?E s d) n" if v: "jget V' n = Some v" for n v
  proof (intro conjI)
    have n: "n \<in> nearerThan ?E s (Suc d)" using dom v by blast
    show "cn_name v = n" using round_okD(2)[OF ok v] .
    show "set (cn_indicies v) = indicesInto C (nearerThan ?E s d) n"
      using round_okD(4)[OF ok v] bfs_inv_indices[OF inv n] by simp
    show "n \<in> atDistance ?E s (cn_depth v)"
    proof (cases "jget V n")
      case None
      then have "n \<in> atDistance ?E s d" using n inv'(1)[of n] unfolding nearerThan_Suc by blast
      with None round_okD(3)[OF ok v] show ?thesis by simp
    next
      case (Some u)
      then show ?thesis using inv'(2) round_okD(3)[OF ok v] by simp
    qed
  qed
  obtain nw where nw: "R' = R @ nw" "distinct nw" "set nw = {n \<in> cn_name ` set Q. jget V n = None \<and> n \<noteq> s}"
    using round_okD(5)[OF ok] by blast
  have nw': "set nw = atDistance ?E s d - {s}" using nw(3) names by blast
  have R: "distinct R'" "set R' = nearerThan ?E s (Suc d) - {s}"
    using nw(1,2) nw' inv'(3,4) atDistance_disjoint[of _ ?E s d] by (auto simp: nearerThan_Suc)
  have near: "i < d" if "a \<in> nearerThan ?E s d" "a \<in> atDistance ?E s i" for a i
    using that atDistance_unique unfolding nearerThan_def by fastforce
  have sorted: "sorted_wrt (\<lambda>a b. \<forall>i j. a \<in> atDistance ?E s i \<longrightarrow> b \<in> atDistance ?E s j \<longrightarrow> i \<le> j) R'"
  proof -
    have "sorted_wrt (\<lambda>a b. \<forall>i j. a \<in> atDistance ?E s i \<longrightarrow> b \<in> atDistance ?E s j \<longrightarrow> i \<le> j) nw"
    proof (rule sorted_wrt_mono_rel[of nw "\<lambda>_ _. True"])
      show "sorted_wrt (\<lambda>_ _. True) nw" by (induction nw) auto
    next
      fix a b assume "a \<in> set nw" "b \<in> set nw"
      then have ab: "a \<in> atDistance ?E s d" "b \<in> atDistance ?E s d" using nw' by simp_all
      show "\<forall>i j. a \<in> atDistance ?E s i \<longrightarrow> b \<in> atDistance ?E s j \<longrightarrow> i \<le> j"
        using atDistance_unique[OF ab(1)] atDistance_unique[OF ab(2)] by auto
    qed
    moreover have "i \<le> j" if "a \<in> set R" "b \<in> set nw" "a \<in> atDistance ?E s i" "b \<in> atDistance ?E s j" for a b i j
    proof -
      have "a \<in> nearerThan ?E s d" using that(1) inv'(4) by simp
      then have "i < d" using that(3) by (rule near)
      moreover have "b \<in> atDistance ?E s d" using that(2) nw' by simp
      then have "j = d" using atDistance_unique[OF that(4)] by simp
      ultimately show ?thesis by simp
    qed
    ultimately show ?thesis using inv'(5) unfolding nw(1) sorted_wrt_append by blast
  qed
  have Q: "set Q' = queued C (Suc d) (atDistance ?E s d)" using round_okD(6)[OF ok] unfolding names .
  show ?thesis unfolding bfs_inv_def Let_def using dom entry R sorted Q by simp
qed

lemma bfsLoop_inv:
  assumes "bfs_inv C s d Q V R" and "m = -1 \<or> int d \<le> m + 1 \<or> d = 0" and "bfsLoop C s m d Q V R = (V', R')"
  shows "\<exists>d' Q'. bfs_inv C s d' Q' V' R' \<and> (m = -1 \<or> int d' \<le> m + 1 \<or> d' = 0) \<and>
    (Q' = [] \<or> m \<noteq> -1 \<and> int d' > m)"
  using assms
proof (induction C s m d Q V R rule: bfsLoop.induct)
  case (1 C s m d Q V R)
  show ?case
  proof (cases "Q = [] \<or> (m \<noteq> -1 \<and> int d > m)")
    case True
    then have "V' = V" "R' = R" using 1(4) by (simp_all add: bfsLoop.simps[of C s m d Q V R])
    with 1(2,3) True show ?thesis by blast
  next
    case False
    obtain V1 R1 Q1 where r: "bfsRound C s (d + 1) Q (V, R, []) = (V1, R1, Q1)"
      by (cases "bfsRound C s (d + 1) Q (V, R, [])")
    have loop: "bfsLoop C s m (d + 1) Q1 V1 R1 = (V', R')"
      using 1(4) False r by (simp add: bfsLoop.simps[of C s m d Q V R])
    have inv: "bfs_inv C s (d + 1) Q1 V1 R1" using bfs_inv_round[OF 1(2)] r by simp
    have m: "m = -1 \<or> int (d + 1) \<le> m + 1 \<or> d + 1 = 0" using False by auto
    show ?thesis by (rule 1(1)[OF False r[symmetric] refl inv m loop])
  qed
qed

lemma bfs_end:
  assumes inv: "bfs_inv C s d Q V R" and m: "m = -1 \<or> int d \<le> m + 1 \<or> d = 0"
    and stop: "Q = [] \<or> m \<noteq> -1 \<and> int d > m"
  shows "n \<in> nearerThan (typeEdges C main_type) s d \<longleftrightarrow>
      (\<exists>k. n \<in> atDistance (typeEdges C main_type) s k \<and> (m = -1 \<or> int k \<le> m))"
    and "n \<in> nearerThan (typeEdges C main_type) s d \<Longrightarrow> indicesInto C (nearerThan (typeEdges C main_type) s (d - 1)) n =
      indicesInto C {u. \<exists>k. u \<in> atDistance (typeEdges C main_type) s k \<and> (m = -1 \<or> int k < m)} n"
proof -
  let ?E = "typeEdges C main_type"
  have empty: "d \<noteq> 0 \<and> (\<forall>u \<in> atDistance ?E s (d - 1). connectionsFrom C main_type u = [])" if "Q = []"
    using bfs_invD(7)[OF inv] that by (auto simp: queued_def split: if_splits)
  have none: "atDistance ?E s k = {}" if q: "Q = []" and k: "d \<le> k" for k
  proof (rule atDistance_empty[OF _ k])
    obtain j where j: "d = Suc j" using empty[OF q] not0_implies_Suc by blast
    then have "\<forall>u \<in> atDistance ?E s j. connectionsFrom C main_type u = []" using empty[OF q] by simp
    then have "?E `` atDistance ?E s j = {}" unfolding typeEdges_def[of C main_type] Image_def by fastforce
    then show "atDistance ?E s d = {}" unfolding j atDistance_Suc by blast
  qed
  have far: "k < d" if "n \<in> atDistance ?E s k" "m = -1 \<or> int k \<le> m" for n k
    using none[of k] stop that by (cases "k < d") auto
  show "n \<in> nearerThan ?E s d \<longleftrightarrow> (\<exists>k. n \<in> atDistance ?E s k \<and> (m = -1 \<or> int k \<le> m))"
  proof
    assume "n \<in> nearerThan ?E s d"
    then obtain k where "k < d" "n \<in> atDistance ?E s k" by (auto simp: nearerThan_def)
    with m show "\<exists>k. n \<in> atDistance ?E s k \<and> (m = -1 \<or> int k \<le> m)" by (intro exI[of _ k]) auto
  qed (use far in \<open>auto simp: nearerThan_def\<close>)
  assume n: "n \<in> nearerThan ?E s d"
  then have d: "d \<noteq> 0" by (cases d) auto
  let ?U = "{u. \<exists>k. u \<in> atDistance ?E s k \<and> (m = -1 \<or> int k < m)}"
  have sub: "nearerThan ?E s (d - 1) \<subseteq> ?U"
    using m d by (fastforce simp: nearerThan_def)
  have sup: "u \<in> nearerThan ?E s (d - 1) \<or> connectionsFrom C main_type u = []" if "u \<in> ?U" for u
  proof -
    obtain k where k: "u \<in> atDistance ?E s k" "m = -1 \<or> int k < m" using \<open>u \<in> ?U\<close> by blast
    then have "k < d" using far by force
    show ?thesis
    proof (cases "k < d - 1")
      case True
      with k(1) show ?thesis by (auto simp: nearerThan_def)
    next
      case False
      with \<open>k < d\<close> have "k = d - 1" by simp
      with k stop m have "Q = []" by auto
      with empty k(1) \<open>k = d - 1\<close> show ?thesis by blast
    qed
  qed
  show "indicesInto C (nearerThan ?E s (d - 1)) n = indicesInto C ?U n"
  proof (intro equalityI subsetI)
    fix i assume "i \<in> indicesInto C (nearerThan ?E s (d - 1)) n"
    with sub show "i \<in> indicesInto C ?U n" unfolding indicesInto_def by blast
  next
    fix i assume "i \<in> indicesInto C ?U n"
    then obtain c u where c: "i = con_index c" "con_node c = n" "u \<in> ?U" "c \<in> set (connectionsFrom C main_type u)"
      unfolding indicesInto_def by blast
    from sup[OF c(3)] c(4) have "u \<in> nearerThan ?E s (d - 1)" by auto
    with c(1,2,4) show "i \<in> indicesInto C (nearerThan ?E s (d - 1)) n" unfolding indicesInto_def by blast
  qed
qed

lemma searchNodesBFS_end:
  "\<exists>d Q V R. bfs_inv C s d Q V R \<and> (m = -1 \<or> int d \<le> m + 1 \<or> d = 0) \<and> (Q = [] \<or> m \<noteq> -1 \<and> int d > m) \<and>
     searchNodesBFS C s m = map (\<lambda>n. the (jget V n)) R"
proof -
  let ?Q = "[\<lparr>cn_name = s, cn_indicies = [], cn_depth = 0\<rparr>]"
  obtain V R where r: "bfsLoop C s m 0 ?Q [] [] = (V, R)" by (cases "bfsLoop C s m 0 ?Q [] []")
  obtain d Q where e: "bfs_inv C s d Q V R" "m = -1 \<or> int d \<le> m + 1 \<or> d = 0" "Q = [] \<or> m \<noteq> -1 \<and> int d > m"
    using bfsLoop_inv[OF bfs_inv_start _ r] by auto
  have "\<forall>n \<in> set R. jget V n \<noteq> None" using bfs_invD(1,5)[OF e(1)] by simp
  then have "List.map_filter (jget V) R = map (\<lambda>n. the (jget V n)) R"
    by (induction R) (auto simp: map_filter_simps)
  with r e show ?thesis by (intro exI[of _ d] exI[of _ Q] exI[of _ V] exI[of _ R]) (simp add: searchNodesBFS_def)
qed

text \<open>C40: \<^verbatim>\<open>searchNodesBFS\<close> returns every node other than the source that a path of at most \<^verbatim>\<open>maxDepth\<close> main
  connections reaches (of any length for -1), each once and the nearer ones first, with the length of the
  shortest path as its depth and with the indices of exactly the connections that enter it from the nodes
  nearer than \<^verbatim>\<open>maxDepth\<close>, the source included.\<close>

theorem searchNodesBFS_exact:
  "cn_name ` set (searchNodesBFS C s m) =
     {n. n \<noteq> s \<and> (\<exists>k. n \<in> atDistance (typeEdges C main_type) s k \<and> (m = -1 \<or> int k \<le> m))} \<and>
   distinct (map cn_name (searchNodesBFS C s m)) \<and> sorted (map cn_depth (searchNodesBFS C s m)) \<and>
   (\<forall>r \<in> set (searchNodesBFS C s m). cn_name r \<in> atDistance (typeEdges C main_type) s (cn_depth r) \<and>
      set (cn_indicies r) = indicesInto C
        {u. \<exists>k. u \<in> atDistance (typeEdges C main_type) s k \<and> (m = -1 \<or> int k < m)} (cn_name r))"
proof -
  let ?E = "typeEdges C main_type" and ?S = "searchNodesBFS C s m"
  obtain d Q V R where inv: "bfs_inv C s d Q V R" and e: "m = -1 \<or> int d \<le> m + 1 \<or> d = 0"
    "Q = [] \<or> m \<noteq> -1 \<and> int d > m" and S: "?S = map (\<lambda>n. the (jget V n)) R"
    using searchNodesBFS_end[of C s m] by (elim exE conjE)
  note reached = bfs_end[OF inv e]
  have V: "cn_name (the (jget V n)) = n" "n \<in> atDistance ?E s (cn_depth (the (jget V n)))"
    "n \<in> nearerThan ?E s d"
    "set (cn_indicies (the (jget V n))) = indicesInto C (nearerThan ?E s (d - 1)) n" if "n \<in> set R" for n
  proof -
    show n: "n \<in> nearerThan ?E s d" using that bfs_invD(5)[OF inv] by simp
    then obtain v where v: "jget V n = Some v" using bfs_invD(1)[OF inv, of n] by auto
    show "cn_name (the (jget V n)) = n" "n \<in> atDistance ?E s (cn_depth (the (jget V n)))"
      "set (cn_indicies (the (jget V n))) = indicesInto C (nearerThan ?E s (d - 1)) n"
      using bfs_invD(2,3)[OF inv v] v by simp_all
  qed
  have names: "map cn_name ?S = R" unfolding S using V(1) by (simp add: map_idI)
  have "cn_name ` set ?S = set R" using names by (metis list.set_map)
  also have "\<dots> = {n. n \<noteq> s \<and> (\<exists>k. n \<in> atDistance ?E s k \<and> (m = -1 \<or> int k \<le> m))}"
    using bfs_invD(5)[OF inv] reached(1) by blast
  finally have A: "cn_name ` set ?S = \<dots>" .
  have "sorted (map cn_depth ?S)"
  proof -
    have "sorted_wrt (\<lambda>a b. cn_depth (the (jget V a)) \<le> cn_depth (the (jget V b))) R"
      using V(2) by (intro sorted_wrt_mono_rel[OF _ bfs_invD(6)[OF inv]]) blast
    then show ?thesis by (simp add: S sorted_wrt_map)
  qed
  moreover have "distinct (map cn_name ?S)" using names bfs_invD(4)[OF inv] by simp
  moreover have "\<forall>r \<in> set ?S. cn_name r \<in> atDistance ?E s (cn_depth r) \<and> set (cn_indicies r) =
      indicesInto C {u. \<exists>k. u \<in> atDistance ?E s k \<and> (m = -1 \<or> int k < m)} (cn_name r)"
    using V reached(2) unfolding S by auto
  ultimately show ?thesis using A by blast
qed

definition diamond_connections :: IConnections where
  "diamond_connections = sample_connections [(''a'', ''b''), (''a'', ''c''), (''b'', ''d''), (''c'', ''d''), (''d'', ''a'')]"

lemma searchNodesBFS_exact_witness:
  "map (\<lambda>r. (cn_name r, cn_depth r, cn_indicies r)) (searchNodesBFS diamond_connections ''a'' 2) =
     [(''b'', 1, [0]), (''c'', 1, [0]), (''d'', 2, [0])] \<and>
   distinct (map cn_name (searchNodesBFS diamond_connections ''a'' 2))"
proof
  show "map (\<lambda>r. (cn_name r, cn_depth r, cn_indicies r)) (searchNodesBFS diamond_connections ''a'' 2) =
     [(''b'', 1, [0]), (''c'', 1, [0]), (''d'', 2, [0])]"
    by code_simp
  show "distinct (map cn_name (searchNodesBFS diamond_connections ''a'' 2))"
    using searchNodesBFS_exact by blast
qed

section \<open>How a node is connected to a parent\<close>

record INodeConnection =
  sourceIndex :: nat
  destinationIndex :: nat

text \<open>The two loops over one node's connections: the first that comes from the parent ends the search,
  the other sources are queued.\<close>

fun scanRow :: "string \<Rightarrow> string list \<Rightarrow> nat \<Rightarrow> IConnection list \<Rightarrow> string list \<Rightarrow> INodeConnection + string list" where
  "scanRow parentNodeName visitedNodes destIndex [] queue = Inr queue"
| "scanRow parentNodeName visitedNodes destIndex (connection # cs) queue =
     (if parentNodeName = con_node connection
      then Inl \<lparr>sourceIndex = con_index connection, destinationIndex = destIndex\<rparr>
      else scanRow parentNodeName visitedNodes (Suc destIndex) cs
        (if con_node connection \<in> set visitedNodes then queue else queue @ [con_node connection]))"

definition scanRows :: "string \<Rightarrow> string list \<Rightarrow> NodeInputConnections \<Rightarrow> string list \<Rightarrow> INodeConnection + string list" where
  "scanRows parentNodeName visitedNodes rows queue =
     fold_res (\<lambda>conns. scanRow parentNodeName visitedNodes 0 (slot_or conns [])) rows queue"

text \<open>The sources a scan queues come after the queue.\<close>

definition unvisited :: "string list \<Rightarrow> IConnection list \<Rightarrow> string list" where
  "unvisited visitedNodes cs = filter (\<lambda>n. n \<notin> set visitedNodes) (map con_node cs)"

lemma scanRow_cases:
  "scanRow p vis d cs q = Inr q' \<Longrightarrow> q' = q @ unvisited vis cs \<and> p \<notin> con_node ` set cs"
  "scanRow p vis d cs q = Inl r \<Longrightarrow>
     \<exists>j < length cs. con_node (cs ! j) = p \<and> sourceIndex r = con_index (cs ! j) \<and> destinationIndex r = d + j"
proof (induction cs arbitrary: d q)
  case (Cons c cs)
  { case 1
    then have "p \<noteq> con_node c" "scanRow p vis (Suc d) cs
        (if con_node c \<in> set vis then q else q @ [con_node c]) = Inr q'" by (auto split: if_splits)
    with Cons.IH(1)[OF this(2)] show ?case by (auto simp: unvisited_def) }
  { case 2
    show ?case
    proof (cases "p = con_node c")
      case True
      with 2 show ?thesis by (intro exI[of _ 0]) auto
    next
      case False
      with 2 obtain j where "j < length cs" "con_node (cs ! j) = p" "sourceIndex r = con_index (cs ! j)"
        "destinationIndex r = Suc d + j"
        using Cons.IH(2)[of "Suc d"] by auto
      then show ?thesis by (intro exI[of _ "Suc j"]) auto
    qed }
qed (auto simp: unvisited_def)

lemma scanRows_Inr:
  "scanRows p vis rows q = Inr q' \<Longrightarrow>
     q' = q @ unvisited vis (concat (map (\<lambda>s. slot_or s []) rows)) \<and>
     p \<notin> con_node ` set (concat (map (\<lambda>s. slot_or s []) rows))"
proof (induction rows arbitrary: q)
  case Nil
  then show ?case by (simp add: scanRows_def unvisited_def)
next
  case (Cons row rows)
  then obtain q1 where q1: "scanRow p vis 0 (slot_or row []) q = Inr q1" "scanRows p vis rows q1 = Inr q'"
    by (auto simp: scanRows_def split: sum.splits)
  with Cons.IH[OF q1(2)] scanRow_cases(1)[OF q1(1)] show ?case by (auto simp: unvisited_def)
qed

lemma scanRows_Inl:
  "scanRows p vis rows q = Inl r \<Longrightarrow> \<exists>i < length rows. \<exists>cs j. rows ! i = Value cs \<and> j < length cs \<and>
     con_node (cs ! j) = p \<and> sourceIndex r = con_index (cs ! j) \<and> destinationIndex r = j"
proof (induction rows arbitrary: q)
  case (Cons row rows)
  show ?case
  proof (cases "scanRow p vis 0 (slot_or row []) q")
    case (Inl r')
    with Cons.prems have "scanRow p vis 0 (slot_or row []) q = Inl r" by (simp add: scanRows_def)
    from scanRow_cases(2)[OF this] show ?thesis by (intro exI[of _ 0]) (cases row; auto)
  next
    case (Inr q1)
    with Cons.prems have "scanRows p vis rows q1 = Inl r" by (simp add: scanRows_def)
    from Cons.IH[OF this] obtain i cs j where "i < length rows" "rows ! i = Value cs" "j < length cs"
      "con_node (cs ! j) = p" "sourceIndex r = con_index (cs ! j)" "destinationIndex r = j" by blast
    then show ?thesis by (intro exI[of _ "Suc i"] conjI exI[of _ cs] exI[of _ j]) auto
  qed
qed (simp add: scanRows_def)

function connectionIndexLoop :: "IConnections \<Rightarrow> connection_type \<Rightarrow> string \<Rightarrow> string list \<Rightarrow> string list \<Rightarrow>
    INodeConnection option" where
  "connectionIndexLoop C type parentNodeName visitedNodes [] = None"
| "connectionIndexLoop C type parentNodeName visitedNodes (currentNodeName # queue) =
     (if currentNodeName \<in> set visitedNodes then connectionIndexLoop C type parentNodeName visitedNodes queue
      else case scanRows parentNodeName (visitedNodes @ [currentNodeName]) (rowsOf C currentNodeName type) queue of
          Inl found \<Rightarrow> Some found
        | Inr queue' \<Rightarrow>
            connectionIndexLoop C type parentNodeName (visitedNodes @ [currentNodeName]) queue')"
  by pat_completeness auto

termination connectionIndexLoop
proof (relation "inv_image (less_than <*lex*> less_than)
    (\<lambda>(C, t, p, V, q). (card (set (jkeys C) - set V), length q))", goal_cases)
  case (3 C t p V n q q')
  show ?case
  proof (cases "jget C n")
    case None
    then have "q' = q" using 3(2) by (simp add: rowsOf_def scanRows_def)
    moreover have "card (set (jkeys C) - set (V @ [n])) \<le> card (set (jkeys C) - set V)"
      by (intro card_mono) auto
    ultimately show ?thesis by auto
  next
    case (Some types)
    with 3(1) have "card (set (jkeys C) - set (V @ [n])) < card (set (jkeys C) - set V)"
      by (intro unseen_decreases[of _ n]) auto
    then show ?thesis by simp
  qed
qed auto

definition getNodeConnectionIndexes :: "Workflow \<Rightarrow> string \<Rightarrow> string \<Rightarrow> connection_type \<Rightarrow> INodeConnection option" where
  "getNodeConnectionIndexes w nodeName parentNodeName type =
     (if getNode w parentNodeName = None then None
      else connectionIndexLoop (connectionsByDestinationNode w) type parentNodeName [] [nodeName])"

lemma edge_rows: "(n, m) \<in> typeEdges C type \<longleftrightarrow>
    m \<in> con_node ` set (concat (map (\<lambda>s. slot_or s []) (rowsOf C n type)))"
  by (auto simp: typeEdges_def connectionsFrom_def)

lemma connectionIndexLoop_sound:
  assumes "connectionIndexLoop C type p V q = Some r"
  shows "\<exists>n \<in> set q. \<exists>u. (n, u) \<in> (typeEdges C type)\<^sup>* \<and>
    (\<exists>i < length (rowsOf C u type). \<exists>cs j. rowsOf C u type ! i = Value cs \<and> j < length cs \<and>
       con_node (cs ! j) = p \<and> sourceIndex r = con_index (cs ! j) \<and> destinationIndex r = j)"
  using assms
proof (induction C type p V q rule: connectionIndexLoop.induct)
  case (2 C type p V n q)
  show ?case
  proof (cases "n \<in> set V")
    case True
    with 2 show ?thesis by auto
  next
    case new: False
    show ?thesis
    proof (cases "scanRows p (V @ [n]) (rowsOf C n type) q")
      case (Inl f)
      with 2(3) new have "scanRows p (V @ [n]) (rowsOf C n type) q = Inl r" by simp
      from scanRows_Inl[OF this] show ?thesis by (intro bexI[of _ n] exI[of _ n]) auto
    next
      case (Inr q')
      with 2(3) new have "connectionIndexLoop C type p (V @ [n]) q' = Some r" by simp
      from 2(2)[OF new Inr this] obtain m u where m: "m \<in> set q'" "(m, u) \<in> (typeEdges C type)\<^sup>*"
        and u: "\<exists>i < length (rowsOf C u type). \<exists>cs j. rowsOf C u type ! i = Value cs \<and> j < length cs \<and>
          con_node (cs ! j) = p \<and> sourceIndex r = con_index (cs ! j) \<and> destinationIndex r = j" by blast
      show ?thesis
      proof (cases "m \<in> set q")
        case True
        with m(2) u show ?thesis by (intro bexI[of _ m] exI[of _ u] conjI) auto
      next
        case False
        with m(1) scanRows_Inr[OF Inr] have "(n, m) \<in> typeEdges C type"
          by (auto simp: unvisited_def edge_rows simp del: set_concat)
        from this m(2) have "(n, u) \<in> (typeEdges C type)\<^sup>*" by (rule converse_rtrancl_into_rtrancl)
        with u show ?thesis by (intro bexI[of _ n] exI[of _ u] conjI) auto
      qed
    qed
  qed
qed simp

lemma connectionIndexLoop_complete:
  assumes "connectionIndexLoop C type p V q = None"
    and "typeEdges C type `` set V \<subseteq> set V \<union> set q" and "p \<notin> typeEdges C type `` set V"
    and "x \<in> set V \<union> set q" and "(x, u) \<in> (typeEdges C type)\<^sup>*"
  shows "(u, p) \<notin> typeEdges C type"
  using assms
proof (induction C type p V q rule: connectionIndexLoop.induct)
  case (1 C type p V)
  have "u \<in> set V" using 1(5,2,4) by (induction rule: rtrancl_induct) auto
  with 1(3) show ?case by blast
next
  case (2 C type p V n q)
  show ?case
  proof (cases "n \<in> set V")
    case True
    with 2(3-7) show ?thesis by (intro 2(1)) auto
  next
    case new: False
    then obtain q' where q': "scanRows p (V @ [n]) (rowsOf C n type) q = Inr q'"
      "connectionIndexLoop C type p (V @ [n]) q' = None"
      using 2(3) by (auto split: sum.splits)
    have p: "(n, p) \<notin> typeEdges C type" using scanRows_Inr[OF q'(1)] unfolding edge_rows by blast
    have out: "m \<in> set (V @ [n]) \<union> set q'" if "(n, m) \<in> typeEdges C type" for m
      using scanRows_Inr[OF q'(1)] that unfolding edge_rows unvisited_def by (auto simp del: set_concat)
    have q: "set q \<subseteq> set q'" using scanRows_Inr[OF q'(1)] by auto
    show ?thesis
    proof (rule 2(2)[OF new q'(1) q'(2) _ _ _ 2(7)])
      show "typeEdges C type `` set (V @ [n]) \<subseteq> set (V @ [n]) \<union> set q'" using 2(4) out q by auto
      show "p \<notin> typeEdges C type `` set (V @ [n])" using 2(5) p by auto
      show "x \<in> set (V @ [n]) \<union> set q'" using 2(6) q by auto
    qed
  qed
qed

text \<open>\<^verbatim>\<open>getNodeConnectionIndexes\<close> finds a connection exactly when the parent is a node of the workflow and
  a path of one or more connections of the type leads from it to the node. What it returns describes a
  connection from the parent into a node on such a path: the parent's output, and the position among the
  connections of one input of that node.\<close>

lemma getNodeConnectionIndexes_exact:
  "(getNodeConnectionIndexes w node parent type \<noteq> None \<longleftrightarrow>
      getNode w parent \<noteq> None \<and> (node, parent) \<in> (typeEdges (connectionsByDestinationNode w) type)\<^sup>+) \<and>
   (\<forall>r. getNodeConnectionIndexes w node parent type = Some r \<longrightarrow>
     (\<exists>u i cs. (node, u) \<in> (typeEdges (connectionsByDestinationNode w) type)\<^sup>* \<and>
        slot_get (rowsOf (connectionsByDestinationNode w) u type) i = Value cs \<and> destinationIndex r < length cs \<and>
        con_node (cs ! destinationIndex r) = parent \<and> con_index (cs ! destinationIndex r) = sourceIndex r))"
proof -
  let ?C = "connectionsByDestinationNode w" and ?r = "getNodeConnectionIndexes w node parent type"
  have sound: "\<exists>u i cs. (node, u) \<in> (typeEdges ?C type)\<^sup>* \<and> slot_get (rowsOf ?C u type) i = Value cs \<and>
      destinationIndex r < length cs \<and> con_node (cs ! destinationIndex r) = parent \<and>
      con_index (cs ! destinationIndex r) = sourceIndex r" if r: "?r = Some r" for r
  proof -
    have "connectionIndexLoop ?C type parent [] [node] = Some r"
      using r by (simp add: getNodeConnectionIndexes_def split: if_splits)
    from connectionIndexLoop_sound[OF this] obtain u i cs where "(node, u) \<in> (typeEdges ?C type)\<^sup>*"
      "i < length (rowsOf ?C u type)" "rowsOf ?C u type ! i = Value cs" "destinationIndex r < length cs"
      "con_node (cs ! destinationIndex r) = parent" "sourceIndex r = con_index (cs ! destinationIndex r)" by auto
    then show ?thesis by (intro exI[of _ u] exI[of _ i] exI[of _ cs]) (simp add: slot_get_def)
  qed
  have "(node, parent) \<in> (typeEdges ?C type)\<^sup>+" if r: "?r = Some r" for r
  proof -
    obtain u i cs where u: "(node, u) \<in> (typeEdges ?C type)\<^sup>*" "slot_get (rowsOf ?C u type) i = Value cs"
      "destinationIndex r < length cs" "con_node (cs ! destinationIndex r) = parent"
      using sound[OF r] by blast
    then have "i < length (rowsOf ?C u type)" "rowsOf ?C u type ! i = Value cs" by (auto simp: slot_get_def split: if_splits)
    then have "Value cs \<in> set (rowsOf ?C u type)" by (metis nth_mem)
    moreover have "cs ! destinationIndex r \<in> set cs" using u(3) by simp
    ultimately have "(u, parent) \<in> typeEdges ?C type" using u(4)
      by (auto simp: typeEdges_def connectionsFrom_def intro!: bexI[of _ "cs ! destinationIndex r"] bexI[of _ "Value cs"])
    with u(1) show ?thesis by (rule rtrancl_into_trancl1)
  qed
  moreover have "?r \<noteq> None" if "getNode w parent \<noteq> None" "(node, parent) \<in> (typeEdges ?C type)\<^sup>+"
    using that connectionIndexLoop_complete[of ?C type parent "[]" "[node]" node]
    by (auto simp: getNodeConnectionIndexes_def dest!: tranclD2)
  moreover have "getNode w parent \<noteq> None" if "?r \<noteq> None"
    using that by (auto simp: getNodeConnectionIndexes_def split: if_splits)
  ultimately show ?thesis using sound by blast
qed

text \<open>The node below has its connection from \<^verbatim>\<open>b\<close> on its second input: \<^verbatim>\<open>destinationIndex\<close> is not the input.\<close>

definition plain_node :: "nat \<Rightarrow> string \<Rightarrow> string \<Rightarrow> bool option \<Rightarrow> INode" where
  "plain_node r n type disabled = \<lparr>node_ref = r, node_id = n, node_name = n, node_typeVersion = ''1'', node_type = type,
     node_disabled = disabled, node_parameters = [], node_rewireOutputLogTo = None,
     node_position = (0, 0), node_settings = no_settings\<rparr>"

definition second_input :: Workflow where
  "second_input = \<lparr>wf_nodes = [(''b'', plain_node 1 ''b'' ''t'' None), (''m'', plain_node 2 ''m'' ''t'' None)],
     connectionsBySourceNode =
       [(''b'', [(main_type, [Value [\<lparr>con_node = ''m'', con_type = main_type, con_index = 1\<rparr>]])])],
     connectionsByDestinationNode =
       [(''m'', [(main_type, [Value [], Value [\<lparr>con_node = ''b'', con_type = main_type, con_index = 0\<rparr>]])])],
     wf_pinData = None\<rparr>"

end
