(* ===== verification/Start_Node.thy ===== *)
theory Start_Node
  imports Workflow_Search
begin

text \<open>
  Where an execution starts, in the class \<^verbatim>\<open>Workflow\<close> (\<^verbatim>\<open>packages/workflow/src/workflow.ts\<close>):
  \<^verbatim>\<open>getHighestNode\<close> climbs from a node to its highest parents, \<^verbatim>\<open>__getStartNode\<close> and \<^verbatim>\<open>getStartNode\<close> choose
  a trigger among them, \<^verbatim>\<open>getConnectionsBetweenNodes\<close> lists the connections between two sets of nodes. The
  node types are a parameter.
\<close>

section \<open>The highest parents\<close>

definition mainRows :: "Workflow \<Rightarrow> string \<Rightarrow> NodeInputConnections option" where
  "mainRows w n = Option.bind (jget (connectionsByDestinationNode w) n) (\<lambda>types. jget types main_type)"

text \<open>What a node without incoming connections counts as: itself only when \<^verbatim>\<open>disabled\<close> is set to \<^verbatim>\<open>false\<close>.\<close>

definition currentHighest :: "Workflow \<Rightarrow> string \<Rightarrow> string list" where
  "currentHighest w nodeName =
     (case jget (wf_nodes w) nodeName of
        None \<Rightarrow> []
      | Some node \<Rightarrow> if node_disabled node = Some False then [nodeName] else [])"

definition notDisabled :: "Workflow \<Rightarrow> string \<Rightarrow> bool" where
  "notDisabled w n \<longleftrightarrow> (case jget (wf_nodes w) n of None \<Rightarrow> False | Some node \<Rightarrow> node_disabled node \<noteq> Some True)"

text \<open>The loop over the connections of one node, with the recursive call on each source unfolded; the list
  \<^verbatim>\<open>checkedNodes\<close> is shared by all calls.\<close>

function highestLoop :: "Workflow \<Rightarrow> IConnection list \<Rightarrow> string list \<Rightarrow> string list \<Rightarrow> string list \<times> string list" where
  "highestLoop w [] returnNodes checkedNodes = (returnNodes, checkedNodes)"
| "highestLoop w (connection # cs) returnNodes checkedNodes =
     (if con_node connection \<in> set checkedNodes \<or> jget (wf_nodes w) (con_node connection) = None
      then highestLoop w cs returnNodes checkedNodes
      else case (case mainRows w (con_node connection) of
                   None \<Rightarrow> (currentHighest w (con_node connection), checkedNodes)
                 | Some rows \<Rightarrow>
                     highestLoop w (concat (map (\<lambda>conns. slot_or conns []) rows)) []
                       (checkedNodes @ [con_node connection]))
           of (added, checkedNodes') \<Rightarrow>
             highestLoop w cs
               (set_add_all returnNodes
                 (if added = [] \<and> notDisabled w (con_node connection) then [con_node connection] else added))
               checkedNodes')"
  by pat_completeness auto

lemma highestLoop_grows:
  assumes "highestLoop_dom (w, cs, ret, checked)"
  shows "set checked \<subseteq> set (snd (highestLoop w cs ret checked))"
  using assms
proof (induction rule: highestLoop.pinduct)
  case (2 w c cs ret checked)
  show ?case
  proof (cases "con_node c \<in> set checked \<or> jget (wf_nodes w) (con_node c) = None")
    case True
    with 2 show ?thesis by (simp add: highestLoop.psimps)
  next
    case new: False
    show ?thesis
    proof (cases "mainRows w (con_node c)")
      case None
      then have "set checked \<subseteq> set (snd (highestLoop w cs (set_add_all ret
          (if currentHighest w (con_node c) = [] \<and> notDisabled w (con_node c) then [con_node c]
           else currentHighest w (con_node c))) checked))"
        by (intro 2(4)[OF new]) simp
      with None 2(1) new show ?thesis by (auto simp: highestLoop.psimps)
    next
      case (Some rows)
      obtain a ch where r: "highestLoop w (concat (map (\<lambda>conns. slot_or conns []) rows)) []
          (checked @ [con_node c]) = (a, ch)" by fastforce
      have "set checked \<subseteq> set ch" using 2(3)[OF new Some] r by simp
      moreover have "set ch \<subseteq> set (snd (highestLoop w cs (set_add_all ret
          (if a = [] \<and> notDisabled w (con_node c) then [con_node c] else a)) ch))"
        using 2(4)[OF new, of a ch] r Some by simp
      ultimately show ?thesis using 2(1) new Some r by (auto simp: highestLoop.psimps)
    qed
  qed
qed (simp add: highestLoop.psimps)

termination highestLoop
proof (relation "inv_image (less_than <*lex*> less_than)
    (\<lambda>(w, cs, ret, ch). (card (set (jkeys (wf_nodes w)) - set ch), length cs))", goal_cases)
  case (3 w c cs ret ch rows)
  then have "con_node c \<in> set (jkeys (wf_nodes w))" by (metis list.set_map map_of_eq_None_iff)
  with 3 have "set (jkeys (wf_nodes w)) - set (ch @ [con_node c]) \<subset> set (jkeys (wf_nodes w)) - set ch" by auto
  then have "card (set (jkeys (wf_nodes w)) - set (ch @ [con_node c])) < card (set (jkeys (wf_nodes w)) - set ch)"
    by (intro psubset_card_mono) auto
  then show ?case by simp
next
  case (4 w c cs ret ch a ch')
  have "set ch \<subseteq> set ch'"
  proof (cases "mainRows w (con_node c)")
    case None
    with 4 show ?thesis by simp
  next
    case (Some rows)
    then have "(a, ch') = highestLoop w (concat (map (\<lambda>conns. slot_or conns []) rows)) [] (ch @ [con_node c])"
      using 4(2) by simp
    moreover have "highestLoop_dom (w, concat (map (\<lambda>conns. slot_or conns []) rows), [], ch @ [con_node c])"
      using 4(3) Some by simp
    ultimately have "set (ch @ [con_node c]) \<subseteq> set ch'" using highestLoop_grows by (metis snd_conv)
    then show ?thesis by simp
  qed
  then have "card (set (jkeys (wf_nodes w)) - set ch') \<le> card (set (jkeys (wf_nodes w)) - set ch)"
    by (intro card_mono) auto
  then show ?case by auto
qed auto

definition selectedRows :: "nat option \<Rightarrow> NodeInputConnections \<Rightarrow> NodeInputConnections" where
  "selectedRows nodeConnectionIndex rows =
     (case nodeConnectionIndex of None \<Rightarrow> rows | Some i \<Rightarrow> if i < length rows then [rows ! i] else [])"

definition getHighestNode :: "Workflow \<Rightarrow> string \<Rightarrow> nat option \<Rightarrow> string list" where
  "getHighestNode w nodeName nodeConnectionIndex =
     (if jget (wf_nodes w) nodeName = None then []
      else case mainRows w nodeName of
          None \<Rightarrow> currentHighest w nodeName
        | Some rows \<Rightarrow> fst (highestLoop w
            (concat (map (\<lambda>conns. slot_or conns []) (selectedRows nodeConnectionIndex rows))) [] [nodeName]))"

section \<open>What getHighestNode finds\<close>

text \<open>From a node to its parents in the workflow.\<close>

definition parentEdges :: "Workflow \<Rightarrow> (string \<times> string) set" where
  "parentEdges w = {(a, b) \<in> typeEdges (connectionsByDestinationNode w) main_type. jget (wf_nodes w) b \<noteq> None}"

definition parentless :: "Workflow \<Rightarrow> string \<Rightarrow> bool" where
  "parentless w n \<longleftrightarrow> (\<forall>m. (n, m) \<notin> parentEdges w)"

definition collected :: "Workflow \<Rightarrow> string list \<Rightarrow> string \<Rightarrow> bool" where
  "collected w R n \<longleftrightarrow> mainRows w n = None \<and> (notDisabled w n \<longrightarrow> n \<in> set R)"

definition closed_at :: "Workflow \<Rightarrow> string list \<Rightarrow> string list \<Rightarrow> string \<Rightarrow> bool" where
  "closed_at w R ch u \<longleftrightarrow> (\<forall>m. (u, m) \<in> parentEdges w \<longrightarrow> m \<in> set ch \<or> collected w R m) \<and>
     (parentless w u \<and> notDisabled w u \<longrightarrow> u \<in> set R)"

definition loop_spec :: "Workflow \<Rightarrow> string set \<Rightarrow> string list \<Rightarrow> string list \<Rightarrow> string list \<Rightarrow> string list \<Rightarrow> bool" where
  "loop_spec w N ret ch R ch' \<longleftrightarrow> set ret \<subseteq> set R \<and> set ch \<subseteq> set ch' \<and> (distinct ret \<longrightarrow> distinct R) \<and>
     set R \<subseteq> set ret \<union> {x. \<exists>n \<in> N. (n, x) \<in> (parentEdges w)\<^sup>* \<and> notDisabled w x} \<and>
     (\<forall>n \<in> N. n \<in> set ch' \<or> collected w R n) \<and> (\<forall>u \<in> set ch' - set ch. closed_at w R ch' u)"

text \<open>The existing nodes among the sources of some connections.\<close>

definition sourcesOf :: "Workflow \<Rightarrow> IConnection list \<Rightarrow> string set" where
  "sourcesOf w cs = {n \<in> con_node ` set cs. jget (wf_nodes w) n \<noteq> None}"

lemma collected_mono: "collected w R n \<Longrightarrow> set R \<subseteq> set R' \<Longrightarrow> collected w R' n"
  unfolding collected_def by blast

lemma closed_at_mono:
  assumes "closed_at w R ch u" and "set R \<subseteq> set R'" and "set ch \<subseteq> set ch'"
  shows "closed_at w R' ch' u"
  using assms collected_mono[OF _ assms(2)] unfolding closed_at_def by blast

text \<open>One more source in front of a loop.\<close>

lemma loop_spec_Cons:
  assumes first: "loop_spec w {n} ret ch R ch1" and rest: "loop_spec w N R ch1 R' ch2"
  shows "loop_spec w (insert n N) ret ch R' ch2"
proof -
  have f: "set ret \<subseteq> set R" "set ch \<subseteq> set ch1" "distinct ret \<longrightarrow> distinct R"
    "set R \<subseteq> set ret \<union> {x. (n, x) \<in> (parentEdges w)\<^sup>* \<and> notDisabled w x}"
    "n \<in> set ch1 \<or> collected w R n" "\<forall>u \<in> set ch1 - set ch. closed_at w R ch1 u"
    using first unfolding loop_spec_def by simp_all
  have r: "set R \<subseteq> set R'" "set ch1 \<subseteq> set ch2" "distinct R \<longrightarrow> distinct R'"
    "set R' \<subseteq> set R \<union> {x. \<exists>n \<in> N. (n, x) \<in> (parentEdges w)\<^sup>* \<and> notDisabled w x}"
    "\<forall>n \<in> N. n \<in> set ch2 \<or> collected w R' n" "\<forall>u \<in> set ch2 - set ch1. closed_at w R' ch2 u"
    using rest unfolding loop_spec_def by simp_all
  have "closed_at w R' ch2 u" if "u \<in> set ch2 - set ch" for u
    using that f(6) r(6) closed_at_mono[OF _ r(1,2)] by (cases "u \<in> set ch1") auto
  moreover have "n \<in> set ch2 \<or> collected w R' n" using f(5) r(2) collected_mono[OF _ r(1)] by blast
  ultimately show ?thesis unfolding loop_spec_def using f(1-4) r(1-5) by auto
qed

lemma loop_spec_known: "n \<in> set ch \<Longrightarrow> loop_spec w N ret ch R ch' \<Longrightarrow> loop_spec w (insert n N) ret ch R ch'"
  unfolding loop_spec_def by auto

text \<open>A source without incoming connections, and one that is expanded.\<close>

lemma loop_spec_leaf:
  assumes "mainRows w n = None" and node: "jget (wf_nodes w) n \<noteq> None"
  shows "loop_spec w {n} ret ch (set_add_all ret
    (if currentHighest w n = [] \<and> notDisabled w n then [n] else currentHighest w n)) ch"
proof -
  have "(if currentHighest w n = [] \<and> notDisabled w n then [n] else currentHighest w n) =
      (if notDisabled w n then [n] else [])"
    using node by (auto simp: currentHighest_def notDisabled_def split: if_splits)
  with assms(1) show ?thesis by (auto simp: loop_spec_def collected_def)
qed

lemma parentEdges_rows:
  assumes "mainRows w n = Some rows"
  shows "parentEdges w `` {n} = sourcesOf w (concat (map (\<lambda>conns. slot_or conns []) rows))"
proof -
  have "rowsOf (connectionsByDestinationNode w) n main_type = rows"
    using assms by (auto simp: mainRows_def rowsOf_def split: option.splits bind_splits)
  then show ?thesis by (auto simp: parentEdges_def typeEdges_def connectionsFrom_def sourcesOf_def simp del: set_concat)
qed

lemma parentEdges_none: "mainRows w n = None \<Longrightarrow> (n, x) \<notin> parentEdges w"
proof -
  assume "mainRows w n = None"
  then have "rowsOf (connectionsByDestinationNode w) n main_type = []"
    by (auto simp: mainRows_def rowsOf_def split: option.splits bind_splits)
  then show ?thesis by (simp add: parentEdges_def typeEdges_def connectionsFrom_def)
qed

lemma loop_spec_expanded:
  assumes rows: "mainRows w n = Some rows" and node: "jget (wf_nodes w) n \<noteq> None" and new: "n \<notin> set ch"
    and inner: "loop_spec w (parentEdges w `` {n}) [] (ch @ [n]) a ch1"
  shows "loop_spec w {n} ret ch (set_add_all ret (if a = [] \<and> notDisabled w n then [n] else a)) ch1"
proof -
  let ?A = "if a = [] \<and> notDisabled w n then [n] else a"
  let ?R = "set_add_all ret ?A"
  have i: "set (ch @ [n]) \<subseteq> set ch1" "set a \<subseteq> {x. \<exists>m. (n, m) \<in> parentEdges w \<and> (m, x) \<in> (parentEdges w)\<^sup>* \<and> notDisabled w x}"
    "\<forall>m. (n, m) \<in> parentEdges w \<longrightarrow> m \<in> set ch1 \<or> collected w a m" "\<forall>u \<in> set ch1 - set (ch @ [n]). closed_at w a ch1 u"
    using inner unfolding loop_spec_def by auto
  have sub: "set a \<subseteq> set ?R" by auto
  have sound: "set ?A \<subseteq> {x. (n, x) \<in> (parentEdges w)\<^sup>* \<and> notDisabled w x}"
    using i(2) by (auto intro: converse_rtrancl_into_rtrancl)
  have "closed_at w ?R ch1 n"
  proof -
    have "a = []" if "parentless w n" using i(2) that unfolding parentless_def by (cases a) auto
    then show ?thesis using i(3) collected_mono[OF _ sub] unfolding closed_at_def by auto
  qed
  then have "closed_at w ?R ch1 u" if "u \<in> set ch1 - set ch" for u
    using that i(4) closed_at_mono[OF _ sub order_refl] by (cases "u = n") auto
  then show ?thesis unfolding loop_spec_def using i(1) sound by auto
qed

lemma highestLoop_spec:
  assumes "highestLoop w cs ret ch = (R, ch')"
  shows "loop_spec w (sourcesOf w cs) ret ch R ch'"
  using assms
proof (induction w cs ret ch arbitrary: R ch' rule: highestLoop.induct)
  case (1 w ret ch)
  then show ?case by (simp add: loop_spec_def sourcesOf_def)
next
  case (2 w c cs ret ch)
  let ?n = "con_node c"
  show ?case
  proof (cases "?n \<in> set ch \<or> jget (wf_nodes w) ?n = None")
    case True
    with 2 have "loop_spec w (sourcesOf w cs) ret ch R ch'" by (auto split: if_splits)
    moreover have "sourcesOf w (c # cs) = sourcesOf w cs \<or> ?n \<in> set ch \<and> sourcesOf w (c # cs) = insert ?n (sourcesOf w cs)"
      using True by (auto simp: sourcesOf_def)
    ultimately show ?thesis using loop_spec_known by metis
  next
    case new: False
    then have src: "sourcesOf w (c # cs) = insert ?n (sourcesOf w cs)" by (auto simp: sourcesOf_def)
    obtain a ch1 where a: "(a, ch1) = (case mainRows w ?n of None \<Rightarrow> (currentHighest w ?n, ch)
        | Some rows \<Rightarrow> highestLoop w (concat (map (\<lambda>conns. slot_or conns []) rows)) [] (ch @ [?n]))"
      by (metis surj_pair)
    let ?R = "set_add_all ret (if a = [] \<and> notDisabled w ?n then [?n] else a)"
    have loop: "highestLoop w cs ?R ch1 = (R, ch')"
      using 2(4) new unfolding highestLoop.simps(2) a[symmetric] by (auto split: if_splits)
    have "loop_spec w {?n} ret ch ?R ch1"
    proof (cases "mainRows w ?n")
      case None
      with a loop_spec_leaf[OF None] new show ?thesis by auto
    next
      case (Some rows)
      then have "loop_spec w (parentEdges w `` {?n}) [] (ch @ [?n]) a ch1"
        unfolding parentEdges_rows[OF Some] using a Some by (intro 2(2)[OF new Some]) simp
      with loop_spec_expanded[OF Some] new show ?thesis by blast
    qed
    from loop_spec_Cons[OF this 2(3)[OF new a loop]] show ?thesis unfolding src .
  qed
qed

text \<open>\<^verbatim>\<open>getHighestNode\<close> returns, without duplicates, only enabled nodes from which a path of main
  connections leads to the node (or the node itself), and among them every enabled one that has no parents
  in the workflow.\<close>

lemma getHighestNode_parentless:
  assumes "getNode w n \<noteq> None"
  shows "distinct (getHighestNode w n None) \<and>
    set (getHighestNode w n None) \<subseteq> {x. (n, x) \<in> (parentEdges w)\<^sup>* \<and> notDisabled w x} \<and>
    {x. (n, x) \<in> (parentEdges w)\<^sup>+ \<and> parentless w x \<and> notDisabled w x} \<subseteq> set (getHighestNode w n None)"
proof (cases "mainRows w n")
  case None
  then have "(n, x) \<notin> (parentEdges w)\<^sup>+" for x using parentEdges_none by (metis tranclD)
  with None assms show ?thesis
    by (auto simp: getHighestNode_def getNode_def currentHighest_def notDisabled_def)
next
  case (Some rows)
  obtain R ch where r: "highestLoop w (concat (map (\<lambda>conns. slot_or conns []) rows)) [] [n] = (R, ch)" by fastforce
  have R: "getHighestNode w n None = R"
    using assms Some r by (auto simp: getHighestNode_def getNode_def selectedRows_def)
  have spec: "loop_spec w (parentEdges w `` {n}) [] [n] R ch"
    using highestLoop_spec[OF r] unfolding parentEdges_rows[OF Some] .
  have "distinct R" using spec unfolding loop_spec_def by simp
  moreover have "set R \<subseteq> {x. (n, x) \<in> (parentEdges w)\<^sup>* \<and> notDisabled w x}"
    using spec unfolding loop_spec_def by (auto intro: converse_rtrancl_into_rtrancl)
  moreover have "x \<in> set R" if "(n, x) \<in> (parentEdges w)\<^sup>+" "parentless w x" "notDisabled w x" for x
  proof -
    from that(1) have "x \<in> set ch \<or> collected w R x"
    proof (induction rule: trancl_induct)
      case (base y)
      with spec show ?case unfolding loop_spec_def by blast
    next
      case (step y z)
      have "y \<in> set ch" "y \<in> {n} \<or> closed_at w R ch y"
        using step(2,3) spec parentEdges_none unfolding loop_spec_def collected_def by auto
      with step(2) spec show ?case unfolding loop_spec_def closed_at_def by blast
    qed
    moreover have "x \<noteq> n" using that(1,2) unfolding parentless_def by (metis tranclD)
    ultimately show ?thesis
      using spec that(2,3) unfolding loop_spec_def closed_at_def collected_def by auto
  qed
  ultimately show ?thesis unfolding R by blast
qed

text \<open>The bypass of a checked parent: in a diamond the second branch ends at the parent that is already
  checked, and its own node is returned although it has parents.\<close>

definition diamond_workflow :: Workflow where
  "diamond_workflow = \<lparr>
     wf_nodes = map (\<lambda>n. (n, plain_node 0 n ''t'' None)) [''t'', ''a'', ''b'', ''c'', ''d''],
     connectionsBySourceNode = sample_connections
       [(''t'', ''a''), (''a'', ''b''), (''a'', ''c''), (''b'', ''d''), (''c'', ''d'')],
     connectionsByDestinationNode = sample_connections
       [(''a'', ''t''), (''b'', ''a''), (''c'', ''a''), (''d'', ''b''), (''d'', ''c'')],
     wf_pinData = None\<rparr>"

section \<open>The start node\<close>

text \<open>What the code reads of a node type; the node types are the parameter \<open>nodeTypes\<close>, by type and version.\<close>

record INodeType =
  nt_name :: string
  nt_trigger :: bool
  nt_poll :: bool

type_synonym INodeTypes = "string \<Rightarrow> string \<Rightarrow> INodeType option"

definition STARTING_NODE_TYPES :: "string list" where
  "STARTING_NODE_TYPES =
     [''n8n-nodes-base.manualTrigger'', ''n8n-nodes-base.executeWorkflowTrigger'', ''n8n-nodes-base.errorTrigger'',
      ''n8n-nodes-base.evaluationTrigger'', ''n8n-nodes-base.formTrigger'']"

definition MANUAL_CHAT_TRIGGER_LANGCHAIN_NODE_TYPE :: string where
  "MANUAL_CHAT_TRIGGER_LANGCHAIN_NODE_TYPE = ''@n8n/n8n-nodes-langchain.manualChatTrigger''"

definition startingIndex :: "INode \<Rightarrow> int" where
  "startingIndex node =
     (if node_type node \<in> set STARTING_NODE_TYPES
      then int (length (takeWhile (\<lambda>t. t \<noteq> node_type node) STARTING_NODE_TYPES)) else -1)"

definition enabled :: "INode \<Rightarrow> bool" where
  "enabled node \<longleftrightarrow> node_disabled node \<noteq> Some True"

text \<open>The first enabled trigger or poll node. The node type's name is read before the type is known to exist.\<close>

fun firstTrigger :: "INodeTypes \<Rightarrow> Workflow \<Rightarrow> string list \<Rightarrow> INode option result" where
  "firstTrigger nodeTypes w [] = Inr None"
| "firstTrigger nodeTypes w (nodeName # names) =
     (case jget (wf_nodes w) nodeName of
        None \<Rightarrow> Inl TypeError
      | Some node \<Rightarrow>
          (case nodeTypes (node_type node) (node_typeVersion node) of
             None \<Rightarrow> Inl TypeError
           | Some nodeType \<Rightarrow>
               if nt_name nodeType = MANUAL_CHAT_TRIGGER_LANGCHAIN_NODE_TYPE then firstTrigger nodeTypes w names
               else if nt_trigger nodeType \<or> nt_poll nodeType
               then if \<not> enabled node then firstTrigger nodeTypes w names else Inr (Some node)
               else firstTrigger nodeTypes w names))"

fun firstStarting :: "Workflow \<Rightarrow> string list \<Rightarrow> INode option result" where
  "firstStarting w [] = Inr None"
| "firstStarting w (nodeName # names) =
     (case jget (wf_nodes w) nodeName of
        None \<Rightarrow> Inl TypeError
      | Some node \<Rightarrow>
          if node_type node \<in> set STARTING_NODE_TYPES
          then if \<not> enabled node then firstStarting w names else Inr (Some node)
          else firstStarting w names)"

definition sortedNodeNames :: "Workflow \<Rightarrow> string list" where
  "sortedNodeNames w = map node_name (sort_key startingIndex (jvalues (wf_nodes w)))"

text \<open>The node of a list of one name.\<close>

definition onlyNode :: "Workflow \<Rightarrow> string list \<Rightarrow> INode option" where
  "onlyNode w nodeNames = (if length nodeNames = 1 then jget (wf_nodes w) (hd nodeNames) else None)"

text \<open>\<^verbatim>\<open>__getStartNode\<close>.\<close>

definition startNodeOf :: "INodeTypes \<Rightarrow> Workflow \<Rightarrow> string list \<Rightarrow> INode option result" where
  "startNodeOf nodeTypes w nodeNames =
     (if (case onlyNode w nodeNames of None \<Rightarrow> False | Some node \<Rightarrow> enabled node) then Inr (onlyNode w nodeNames)
      else case firstTrigger nodeTypes w nodeNames of
          Inl e \<Rightarrow> Inl e
        | Inr (Some node) \<Rightarrow> Inr (Some node)
        | Inr None \<Rightarrow> firstStarting w (sortedNodeNames w))"

definition getStartNode :: "INodeTypes \<Rightarrow> Workflow \<Rightarrow> string option \<Rightarrow> INode option result" where
  "getStartNode nodeTypes w destinationNode =
     (if destinationNode = None \<or> destinationNode = Some []
      then startNodeOf nodeTypes w (jkeys (wf_nodes w))
      else let d = the destinationNode; highest = getHighestNode w d None;
               nodeNames = (if highest = [] then [d] else highest)
           in case startNodeOf nodeTypes w nodeNames of
               Inl e \<Rightarrow> Inl e
             | Inr (Some node) \<Rightarrow> Inr (Some node)
             | Inr None \<Rightarrow> Inr (jget (wf_nodes w) (hd nodeNames)))"

definition startsRun :: "INodeTypes \<Rightarrow> INode \<Rightarrow> bool" where
  "startsRun nodeTypes node \<longleftrightarrow> enabled node \<and>
     (case nodeTypes (node_type node) (node_typeVersion node) of
        None \<Rightarrow> False
      | Some t \<Rightarrow> nt_name t \<noteq> MANUAL_CHAT_TRIGGER_LANGCHAIN_NODE_TYPE \<and> (nt_trigger t \<or> nt_poll t))"

definition isStarting :: "INode \<Rightarrow> bool" where
  "isStarting node \<longleftrightarrow> node_type node \<in> set STARTING_NODE_TYPES \<and> enabled node"

text \<open>The nodes are filed under their names, and their types are known.\<close>

definition nodes_ok :: "INodeTypes \<Rightarrow> Workflow \<Rightarrow> bool" where
  "nodes_ok nodeTypes w \<longleftrightarrow> jok (wf_nodes w) \<and>
     list_all (\<lambda>(k, node). node_name node = k \<and> nodeTypes (node_type node) (node_typeVersion node) \<noteq> None) (wf_nodes w)"

lemma nodes_okD:
  assumes "nodes_ok nodeTypes w" and "node \<in> set (jvalues (wf_nodes w))"
  shows "jget (wf_nodes w) (node_name node) = Some node"
    and "\<exists>t. nodeTypes (node_type node) (node_typeVersion node) = Some t"
  using assms by (auto simp: nodes_ok_def list_all_iff)

lemma firstTrigger_find:
  assumes "list_all (\<lambda>n. jget (wf_nodes w) (node_name n) = Some n \<and>
      (\<exists>t. nodeTypes (node_type n) (node_typeVersion n) = Some t)) nodes"
  shows "firstTrigger nodeTypes w (map node_name nodes) = Inr (List.find (startsRun nodeTypes) nodes)"
  using assms by (induction nodes) (auto simp: startsRun_def)

lemma firstStarting_find:
  assumes "list_all (\<lambda>n. jget (wf_nodes w) (node_name n) = Some n) nodes"
  shows "firstStarting w (map node_name nodes) = Inr (List.find isStarting nodes)"
  using assms by (induction nodes) (auto simp: isStarting_def)

lemma find_sort_key_least:
  fixes f :: "'a \<Rightarrow> 'b :: linorder"
  assumes "List.find P (sort_key f xs) = Some x" and "y \<in> set xs" and "P y"
  shows "f x \<le> f y"
proof -
  obtain i where i: "i < length (sort_key f xs)" "x = sort_key f xs ! i" "\<forall>j < i. \<not> P (sort_key f xs ! j)"
    using assms(1) unfolding find_Some_iff by blast
  have "y \<in> set (sort_key f xs)" using assms(2) by simp
  then obtain j where j: "j < length (sort_key f xs)" "y = sort_key f xs ! j" by (metis in_set_conv_nth)
  with i(3) assms(3) have "i \<le> j" by (metis not_le_imp_less)
  then have "map f (sort_key f xs) ! i \<le> map f (sort_key f xs) ! j"
    using j(1) by (intro sorted_nth_mono sorted_sort_key) simp_all
  with i j \<open>i \<le> j\<close> show ?thesis by simp
qed

lemma startNodeOf_nodes:
  assumes "nodes_ok nodeTypes w" and "set nodes \<subseteq> set (jvalues (wf_nodes w))"
  shows "startNodeOf nodeTypes w (map node_name nodes) = Inr
    (if length nodes = 1 \<and> enabled (hd nodes) then Some (hd nodes)
     else case List.find (startsRun nodeTypes) nodes of
         Some n \<Rightarrow> Some n
       | None \<Rightarrow> List.find isStarting (sort_key startingIndex (jvalues (wf_nodes w))))"
proof -
  have mem: "node \<in> set (jvalues (wf_nodes w))" if "node \<in> set nodes" for node using assms(2) that by blast
  have "firstTrigger nodeTypes w (map node_name nodes) = Inr (List.find (startsRun nodeTypes) nodes)"
    using nodes_okD[OF assms(1) mem] by (intro firstTrigger_find) (simp add: list_all_iff)
  moreover have "firstStarting w (sortedNodeNames w) = Inr (List.find isStarting (sort_key startingIndex (jvalues (wf_nodes w))))"
    unfolding sortedNodeNames_def using nodes_okD(1)[OF assms(1)]
    by (intro firstStarting_find) (auto simp: list_all_iff)
  moreover have "onlyNode w (map node_name nodes) = (if length nodes = 1 then Some (hd nodes) else None)"
    using nodes_okD(1)[OF assms(1) mem] by (cases nodes) (auto simp: onlyNode_def)
  ultimately show ?thesis by (simp add: startNodeOf_def split: option.splits)
qed

lemma jkeys_names: "nodes_ok nodeTypes w \<Longrightarrow> jkeys (wf_nodes w) = map node_name (jvalues (wf_nodes w))"
  by (auto simp: nodes_ok_def list_all_iff)

text \<open>When the types of all nodes are known, \<^verbatim>\<open>getStartNode\<close> without a destination never fails and
  returns nothing only if no enabled node can start an execution. What it returns is an enabled node of the
  workflow: the only node, or the first trigger or poll node that is not the manual chat trigger, or, when
  there is none, a node of a starting type that comes earliest in \<^verbatim>\<open>STARTING_NODE_TYPES\<close>.\<close>

lemma getStartNode_choice:
  assumes "nodes_ok nodeTypes w"
  shows "\<exists>r. getStartNode nodeTypes w None = Inr r \<and>
    (case r of
       None \<Rightarrow> list_all (\<lambda>n. \<not> startsRun nodeTypes n \<and> \<not> isStarting n \<and> (length (wf_nodes w) = 1 \<longrightarrow> \<not> enabled n))
         (jvalues (wf_nodes w))
     | Some n \<Rightarrow> n \<in> set (jvalues (wf_nodes w)) \<and> enabled n \<and>
         (length (wf_nodes w) = 1 \<or> List.find (startsRun nodeTypes) (jvalues (wf_nodes w)) = Some n \<or>
          list_all (\<lambda>m. \<not> startsRun nodeTypes m) (jvalues (wf_nodes w)) \<and> isStarting n \<and>
          list_all (\<lambda>m. isStarting m \<longrightarrow> startingIndex n \<le> startingIndex m) (jvalues (wf_nodes w))))"
proof -
  let ?V = "jvalues (wf_nodes w)"
  let ?r = "if length ?V = 1 \<and> enabled (hd ?V) then Some (hd ?V)
     else case List.find (startsRun nodeTypes) ?V of Some n \<Rightarrow> Some n | None \<Rightarrow> List.find isStarting (sort_key startingIndex ?V)"
  have r: "getStartNode nodeTypes w None = Inr ?r"
    unfolding getStartNode_def jkeys_names[OF assms] using startNodeOf_nodes[OF assms order_refl] by simp
  show ?thesis
  proof (cases "length ?V = 1 \<and> enabled (hd ?V)")
    case True
    then have "?r = Some (hd ?V)" "hd ?V \<in> set ?V" by (auto simp: length_Suc_conv simp del: set_map length_map)
    with r True show ?thesis by (intro exI[of _ ?r]) simp
  next
    case single: False
    show ?thesis
    proof (cases "List.find (startsRun nodeTypes) ?V")
      case (Some n)
      then have "n \<in> set ?V" "enabled n" by (auto simp: find_Some_iff startsRun_def in_set_conv_nth simp del: set_map)
      moreover have "?r = Some n" using single Some by auto
      ultimately show ?thesis using r Some by (intro exI[of _ ?r]) simp
    next
      case None
      then have no: "list_all (\<lambda>m. \<not> startsRun nodeTypes m) ?V" by (simp add: find_None_iff list_all_iff)
      have r': "?r = List.find isStarting (sort_key startingIndex ?V)" using single None by auto
      show ?thesis
      proof (cases "List.find isStarting (sort_key startingIndex ?V)")
        case None
        then have "list_all (\<lambda>m. \<not> isStarting m) ?V" by (simp add: find_None_iff list_all_iff)
        moreover have "list_all (\<lambda>n. length (wf_nodes w) = 1 \<longrightarrow> \<not> enabled n) ?V"
          using single by (cases "wf_nodes w") (auto simp: list_all_iff)
        ultimately show ?thesis using r r' None no by (intro exI[of _ None]) (simp add: list_all_iff)
      next
        case (Some n)
        then have "n \<in> set (sort_key startingIndex ?V)" "isStarting n"
          unfolding find_Some_iff by (metis nth_mem)+
        moreover have "list_all (\<lambda>m. isStarting m \<longrightarrow> startingIndex n \<le> startingIndex m) ?V"
          using find_sort_key_least[OF Some] by (simp add: list_all_iff)
        ultimately show ?thesis using r r' Some no
          by (intro exI[of _ "Some n"]) (simp add: isStarting_def)
      qed
    qed
  qed
qed

definition sample_types :: INodeTypes where
  "sample_types type version = Some \<lparr>nt_name = type, nt_trigger = (type = ''poll''), nt_poll = False\<rparr>"

definition two_roots :: Workflow where
  "two_roots = \<lparr>
     wf_nodes = [(''x'', plain_node 1 ''x'' ''set'' None), (''y'', plain_node 2 ''y'' ''set'' None),
       (''d'', plain_node 3 ''d'' ''merge'' None),
       (''m'', plain_node 4 ''m'' ''n8n-nodes-base.manualTrigger'' None)],
     connectionsBySourceNode = sample_connections [(''x'', ''d''), (''y'', ''d'')],
     connectionsByDestinationNode = sample_connections [(''d'', ''x''), (''d'', ''y'')],
     wf_pinData = None\<rparr>"

text \<open>The start node for a destination need not lead to it: when no highest parent of the destination is a
  trigger, \<^verbatim>\<open>__getStartNode\<close> takes a starting node from the whole workflow. Below the destination \<^verbatim>\<open>d\<close> hangs
  on \<^verbatim>\<open>x\<close> and \<^verbatim>\<open>y\<close>, and the execution starts at a manual trigger that is connected to nothing.\<close>

lemma getStartNode_unconnected:
  "getHighestNode two_roots ''d'' None = [''x'', ''y''] \<and>
   getStartNode sample_types two_roots (Some ''d'') = Inr (Some (plain_node 4 ''m'' ''n8n-nodes-base.manualTrigger'' None)) \<and>
   getParentNodes (connectionsByDestinationNode two_roots) ''d'' main_type (-1) = [''y'', ''x'']"
  by code_simp

text \<open>A node of an unknown type makes the choice fail, although the code checks for that after it has
  read the type's name.\<close>

lemma getStartNode_unknown_type:
  "getStartNode (\<lambda>_ _. None) two_roots None = Inl TypeError"
  by code_simp

section \<open>Connections between two sets of nodes\<close>

text \<open>The loops over the types, outputs and connections of each source; \<^verbatim>\<open>parseInt\<close> of an array's keys gives
  back its indices.\<close>

definition connectionsBetween :: "Workflow \<Rightarrow> string list \<Rightarrow> string \<Rightarrow> (IConnection \<times> IConnection) list" where
  "connectionsBetween w targets source =
     (case jget (connectionsBySourceNode w) source of
        None \<Rightarrow> []
      | Some types \<Rightarrow> concat (map (\<lambda>(type, outputs).
          concat (map (\<lambda>(index, conns).
            map (\<lambda>c. (\<lparr>con_node = source, con_type = type, con_index = index\<rparr>, c))
              (filter (\<lambda>c. con_node c \<in> set targets) (slot_or conns [])))
            (List.enumerate 0 outputs))) types))"

definition getConnectionsBetweenNodes :: "Workflow \<Rightarrow> string list \<Rightarrow> string list \<Rightarrow> (IConnection \<times> IConnection) list" where
  "getConnectionsBetweenNodes w sources targets = concat (map (connectionsBetween w targets) sources)"

lemma connectionsBetween_entries:
  assumes "jget (connectionsBySourceNode w) source = Some types"
  shows "connectionsBetween w targets source = map (\<lambda>(s, t, i, c). (\<lparr>con_node = s, con_type = t, con_index = i\<rparr>, c))
    (filter (\<lambda>(s, t, i, c). con_node c \<in> set targets)
      (concat (map (\<lambda>(type, outputs). entriesOfOutputs source type outputs) types)))"
  using assms
  by (simp add: connectionsBetween_def entriesOfOutputs_def map_concat filter_concat comp_def split_def filter_map)

text \<open>What is listed for one source is exactly its connections to the targets.\<close>

lemma getConnectionsBetweenNodes_mem:
  assumes "wf_connections (connectionsBySourceNode w)"
  shows "(\<lparr>con_node = s, con_type = t, con_index = i\<rparr>, c) \<in> set (getConnectionsBetweenNodes w sources targets) \<longleftrightarrow>
    s \<in> set sources \<and> con_node c \<in> set targets \<and> c \<in> set (connectionsAt (connectionsBySourceNode w) s t i)"
proof -
  have one: "(\<lparr>con_node = s, con_type = t, con_index = i\<rparr>, c) \<in> set (connectionsBetween w targets source) \<longleftrightarrow>
      s = source \<and> con_node c \<in> set targets \<and> c \<in> set (connectionsAt (connectionsBySourceNode w) s t i)" for source
  proof (cases "jget (connectionsBySourceNode w) source")
    case None
    then show ?thesis by (auto simp: connectionsBetween_def connectionsAt_def)
  next
    case (Some types)
    then have "jok types" using assms unfolding wf_connections_def
      by (metis image_eqI list.set_map map_of_SomeD snd_conv)
    let ?E = "concat (map (\<lambda>(type, outputs). entriesOfOutputs source type outputs) types)"
    let ?f = "\<lambda>(s, t, i, c). (\<lparr>con_node = s, con_type = t, con_index = i\<rparr>, c)"
    have f: "(\<lparr>con_node = s, con_type = t, con_index = i\<rparr>, c) \<in> ?f ` A \<longleftrightarrow> (s, t, i, c) \<in> A" for A
      by (auto simp: image_iff split: prod.splits)
    have E: "(s, t, i, c) \<in> set ?E \<longleftrightarrow> s = source \<and> c \<in> set (connectionsAt (connectionsBySourceNode w) s t i)"
      using Some \<open>jok types\<close>
      by (auto simp: entriesOfOutputs_mem connectionsAt_def map_of_eq_Some_iff split: option.splits)
    have "(\<lparr>con_node = s, con_type = t, con_index = i\<rparr>, c) \<in> set (connectionsBetween w targets source) \<longleftrightarrow>
        (s, t, i, c) \<in> set (filter (\<lambda>(s, t, i, c). con_node c \<in> set targets) ?E)"
      unfolding connectionsBetween_entries[OF Some] set_map by (rule f)
    also have "\<dots> \<longleftrightarrow> con_node c \<in> set targets \<and> (s, t, i, c) \<in> set ?E"
      unfolding set_filter mem_Collect_eq prod.case by (rule conj_commute)
    finally show ?thesis unfolding E by argo
  qed
  show ?thesis unfolding getConnectionsBetweenNodes_def by (auto simp: one)
qed

end
