(* ===== verification/Main_Input_Node.thy ===== *)
theory Main_Input_Node
  imports Workflow_Search "HOL-Library.List_Lexorder" "HOL-Library.Char_ord"
begin

text \<open>
  \<^verbatim>\<open>getParentMainInputNode\<close> of the class \<^verbatim>\<open>Workflow\<close> (\<^verbatim>\<open>packages/workflow/src/workflow.ts\<close>): from a node that
  is attached to another one by a connection that is not a main one (a tool of an agent) to the node at
  the end of such connections. The output types of a node come from its type and are the parameter
  \<open>outputs\<close> (\<^verbatim>\<open>None\<close> when the type has none). Strings are sorted by their characters.
\<close>

section \<open>The function\<close>

definition nonMainConnectionTypes :: "(INode \<Rightarrow> connection_type list option) \<Rightarrow> INode \<Rightarrow> connection_type list" where
  "nonMainConnectionTypes outputs node =
     (case outputs node of None \<Rightarrow> [] | Some types \<Rightarrow> sort (filter (\<lambda>t. t \<noteq> main_type) types))"

definition nonMainNodesConnected :: "Workflow \<Rightarrow> INode \<Rightarrow> connection_type list \<Rightarrow> string list" where
  "nonMainNodesConnected w node types =
     concat (map (\<lambda>type.
       if Option.bind (jget (connectionsBySourceNode w) (node_name node)) (\<lambda>m. jget m type) = None then []
       else getChildNodes (connectionsBySourceNode w) (node_name node) type (-1)) types)"

text \<open>The node the function goes on with, if any; the error names the node that is not found.\<close>

definition mainInputStep :: "(INode \<Rightarrow> connection_type list option) \<Rightarrow> Workflow \<Rightarrow> INode \<Rightarrow> INode option result" where
  "mainInputStep outputs w node =
     (case sort (nonMainNodesConnected w node (nonMainConnectionTypes outputs node)) of
        [] \<Rightarrow> Inr None
      | name # _ \<Rightarrow>
          (case getNode w name of None \<Rightarrow> Inl (UnexpectedError name) | Some n \<Rightarrow> Inr (Some n)))"

partial_function (option) getParentMainInputNode ::
    "(INode \<Rightarrow> connection_type list option) \<Rightarrow> Workflow \<Rightarrow> INode \<Rightarrow> INode result option" where
  "getParentMainInputNode outputs w node =
     (case mainInputStep outputs w node of
        Inl e \<Rightarrow> Some (Inl e)
      | Inr None \<Rightarrow> Some (Inr node)
      | Inr (Some n) \<Rightarrow> getParentMainInputNode outputs w n)"

declare getParentMainInputNode.simps [code]

section \<open>When it returns\<close>

definition nonMainEdges :: "Workflow \<Rightarrow> (string \<times> string) set" where
  "nonMainEdges w = (\<Union>t \<in> - {main_type, ''ALL'', ''ALL_NON_MAIN''}. follows (connectionsBySourceNode w) t)"

text \<open>The outputs of a node are connection types other than the two words for sets of them.\<close>

definition proper_outputs :: "(INode \<Rightarrow> connection_type list option) \<Rightarrow> bool" where
  "proper_outputs outputs \<longleftrightarrow> (\<forall>n types. outputs n = Some types \<longrightarrow> ''ALL'' \<notin> set types \<and> ''ALL_NON_MAIN'' \<notin> set types)"

definition named_nodes :: "Workflow \<Rightarrow> bool" where
  "named_nodes w \<longleftrightarrow> list_all (\<lambda>(k, n). node_name n = k) (wf_nodes w)"

lemma getNode_name: "named_nodes w \<Longrightarrow> getNode w k = Some n \<Longrightarrow> node_name n = k"
  by (auto simp: named_nodes_def getNode_def list_all_iff dest!: map_of_SomeD)

lemma child_reachable:
  assumes "m \<in> set (getChildNodes C n ty (-1))"
  shows "(n, m) \<in> (follows C ty)\<^sup>+"
  using getConnectedNodes_ok[of C n ty] assms unfolding getChildNodes_def by auto

lemma mainInputStep_edge:
  assumes "mainInputStep outputs w node = Inr (Some n)" and "proper_outputs outputs" and "named_nodes w"
  shows "(node_name node, node_name n) \<in> (nonMainEdges w)\<^sup>+"
proof -
  let ?types = "nonMainConnectionTypes outputs node"
  obtain name rest where name: "sort (nonMainNodesConnected w node ?types) = name # rest" "getNode w name = Some n"
    using assms(1) by (auto simp: mainInputStep_def split: list.splits option.splits)
  then have "name \<in> set (nonMainNodesConnected w node ?types)" by (metis list.set_intros(1) set_sort)
  then obtain t where t: "t \<in> set ?types" "name \<in> set (getChildNodes (connectionsBySourceNode w) (node_name node) t (-1))"
    by (auto simp: nonMainNodesConnected_def split: if_splits)
  have "t \<notin> {main_type, ''ALL'', ''ALL_NON_MAIN''}"
    using t(1) assms(2) by (auto simp: nonMainConnectionTypes_def proper_outputs_def split: option.splits)
  then have "follows (connectionsBySourceNode w) t \<subseteq> nonMainEdges w" unfolding nonMainEdges_def by blast
  with child_reachable[OF t(2)] have "(node_name node, name) \<in> (nonMainEdges w)\<^sup>+" by (rule trancl_mono)
  with getNode_name[OF assms(3) name(2)] show ?thesis by simp
qed

lemma finite_nonMainEdges:
  assumes "wf_connections (connectionsBySourceNode w)"
  shows "finite (nonMainEdges w)"
proof (rule finite_subset)
  show "nonMainEdges w \<subseteq> (\<lambda>(s, t, i, c). (s, con_node c)) ` set (connectionEntries (connectionsBySourceNode w))"
  proof
    fix e assume "e \<in> nonMainEdges w"
    then obtain a b t where e: "e = (a, b)" "t \<notin> {''ALL'', ''ALL_NON_MAIN''}" "b \<in> set (followedNodes (connectionsBySourceNode w) a t)"
      by (auto simp: nonMainEdges_def follows_def)
    then obtain i c where "c \<in> set (connectionsAt (connectionsBySourceNode w) a t i)" "con_node c = b"
      using followedNodes_type by blast
    then have "(a, t, i, c) \<in> set (connectionEntries (connectionsBySourceNode w))"
      using connectionEntries_mem[OF assms] by blast
    then show "e \<in> (\<lambda>(s, t, i, c). (s, con_node c)) ` set (connectionEntries (connectionsBySourceNode w))"
      by (rule rev_image_eqI) (simp add: e(1) \<open>con_node c = b\<close>)
  qed
qed simp

text \<open>\<^verbatim>\<open>getParentMainInputNode\<close> returns whenever no node feeds itself over connections that are not main
  ones: with the name of a missing node as an error, or with a node that has no such connections left.\<close>

lemma getParentMainInputNode_returns:
  assumes "wf_connections (connectionsBySourceNode w)" and "named_nodes w" and "proper_outputs outputs"
    and "acyclic (nonMainEdges w)"
  shows "\<exists>r. getParentMainInputNode outputs w node = Some r \<and>
    (case r of Inl e \<Rightarrow> \<exists>name. e = UnexpectedError name \<and> getNode w name = None
     | Inr n \<Rightarrow> mainInputStep outputs w n = Inr None)"
proof -
  have "wf ((nonMainEdges w)\<inverse>)"
    by (rule finite_acyclic_wf_converse[OF finite_nonMainEdges[OF assms(1)] assms(4)])
  then have "wf (((nonMainEdges w)\<inverse>)\<^sup>+)" by (rule wf_trancl)
  then have wf: "wf (inv_image (((nonMainEdges w)\<inverse>)\<^sup>+) node_name)" by (rule wf_inv_image)
  then show ?thesis
  proof (induction node rule: wf_induct_rule)
    case (less node)
    show ?case
    proof (cases "mainInputStep outputs w node")
      case (Inl e)
      then have "\<exists>name. e = UnexpectedError name \<and> getNode w name = None"
        by (auto simp: mainInputStep_def split: list.splits option.splits)
      with Inl show ?thesis by (simp add: getParentMainInputNode.simps[of outputs w node])
    next
      case (Inr r)
      show ?thesis
      proof (cases r)
        case None
        with Inr show ?thesis by (simp add: getParentMainInputNode.simps[of outputs w node])
      next
        case (Some n)
        with Inr mainInputStep_edge[OF _ assms(3,2)] have "(node_name node, node_name n) \<in> (nonMainEdges w)\<^sup>+" by blast
        then have "(n, node) \<in> inv_image (((nonMainEdges w)\<inverse>)\<^sup>+) node_name" by (simp add: trancl_converse)
        from less[OF this] Inr Some show ?thesis by (simp add: getParentMainInputNode.simps[of outputs w node])
      qed
    qed
  qed
qed

section \<open>When it does not\<close>

definition tool_outputs :: "INode \<Rightarrow> connection_type list option" where
  "tool_outputs node = Some (if node_type node = ''tool'' then [ai_tool_type] else [main_type])"

definition tools_of :: "(string \<times> string) list \<Rightarrow> IConnections" where
  "tools_of es = map (\<lambda>(a, b). (a, [(ai_tool_type, [Value [\<lparr>con_node = b, con_type = ai_tool_type, con_index = 0\<rparr>]])])) es"

definition tool_workflow :: "(string \<times> string) list \<Rightarrow> Workflow" where
  "tool_workflow es = \<lparr>
     wf_nodes = [(''A'', plain_node 1 ''A'' ''tool'' None), (''B'', plain_node 2 ''B'' ''tool'' None),
       (''agent'', plain_node 3 ''agent'' ''agent'' None)],
     connectionsBySourceNode = tools_of es,
     connectionsByDestinationNode = mapConnectionsByDestination (tools_of es), wf_pinData = None\<rparr>"

text \<open>Two tools attached to each other: the function calls itself with the one and the other for ever.\<close>

lemma getParentMainInputNode_diverges:
  "getParentMainInputNode tool_outputs (tool_workflow [(''A'', ''B''), (''B'', ''A'')]) (plain_node 1 ''A'' ''tool'' None) = None"
proof -
  let ?w = "tool_workflow [(''A'', ''B''), (''B'', ''A'')]" and ?A = "plain_node 1 ''A'' ''tool'' None"
    and ?B = "plain_node 2 ''B'' ''tool'' None"
  have steps: "mainInputStep tool_outputs ?w ?A = Inr (Some ?B)" "mainInputStep tool_outputs ?w ?B = Inr (Some ?A)"
    by code_simp+
  have "outputs = tool_outputs \<and> w = ?w \<longrightarrow> node \<notin> {?A, ?B}" if "getParentMainInputNode outputs w node = Some r"
    for outputs w node r
  proof (rule getParentMainInputNode.raw_induct[OF _ that, where P = "\<lambda>outputs w node r.
      outputs = tool_outputs \<and> w = ?w \<longrightarrow> node \<notin> {?A, ?B}"])
    fix f outputs w node r
    assume IH: "\<And>outputs w node r. f outputs w node = Some r \<Longrightarrow> outputs = tool_outputs \<and> w = ?w \<longrightarrow> node \<notin> {?A, ?B}"
      and r: "(case mainInputStep outputs w node of Inl e \<Rightarrow> Some (Inl e) | Inr None \<Rightarrow> Some (Inr node)
        | Inr (Some n) \<Rightarrow> f outputs w n) = Some r"
    show "outputs = tool_outputs \<and> w = ?w \<longrightarrow> node \<notin> {?A, ?B}"
      using IH[of tool_outputs ?w ?A] IH[of tool_outputs ?w ?B] r steps by (auto simp del: One_nat_def)
  qed
  then show ?thesis by (cases "getParentMainInputNode tool_outputs ?w ?A") auto
qed

end
