(* ===== verification/Access_Patterns.thy ===== *)
theory Access_Patterns
  imports Prelude "HOL-Library.Sublist"
begin

text \<open>
  \<^verbatim>\<open>applyAccessPatterns\<close> of \<^verbatim>\<open>packages/workflow/src/node-reference-parser-utils.ts\<close>: it renames the references
  to a node in an expression. The four regular expressions are built from the escaped old name; each is
  modelled by the match it finds at a position, and \<^verbatim>\<open>replace\<close> with the flag \<^verbatim>\<open>g\<close> by the scan from left to
  right. In a replacement text \<^verbatim>\<open>$$\<close> is one dollar sign, which undoes \<^verbatim>\<open>dollarEscape\<close>.
\<close>

section \<open>Names in regular expressions and replacements\<close>

abbreviation squote :: char where "squote \<equiv> CHR 0x27"
abbreviation dquote :: char where "dquote \<equiv> CHR 0x22"
abbreviation backslash :: char where "backslash \<equiv> CHR 0x5C"
abbreviation dollar :: char where "dollar \<equiv> CHR 0x24"

definition is_quote :: "char \<Rightarrow> bool" where
  "is_quote c \<longleftrightarrow> c = squote \<or> c = dquote"

text \<open>What is left of a text after a literal.\<close>

definition match_lit :: "string \<Rightarrow> string \<Rightarrow> string option" where
  "match_lit p s = (if prefix p s then Some (drop (length p) s) else None)"

text \<open>The expression \<^verbatim>\<open>prepareOldNodeName\<close> builds: a backslash of the name stands for two, a quote may have a
  backslash before it, every other character stands for itself.\<close>

fun match_name :: "string \<Rightarrow> string \<Rightarrow> string option" where
  "match_name [] s = Some s"
| "match_name (c # cs) s =
     (if c = backslash then Option.bind (match_lit [backslash, backslash] s) (match_name cs)
      else if is_quote c
      then Option.bind (match_lit [c] (case s of d # s' \<Rightarrow> if d = backslash then s' else s | [] \<Rightarrow> [])) (match_name cs)
      else Option.bind (match_lit [c] s) (match_name cs))"

text \<open>The text \<^verbatim>\<open>prepareNewNodeName\<close> puts in: backslashes and quotes are escaped.\<close>

definition prepareNewNodeName :: "string \<Rightarrow> string" where
  "prepareNewNodeName name = concat (map (\<lambda>c. if c = backslash \<or> is_quote c then [backslash, c] else [c]) name)"

definition hasDotNotationBannedChar :: "string \<Rightarrow> bool" where
  "hasDotNotationBannedChar name \<longleftrightarrow>
     (name \<noteq> [] \<and> hd name \<in> set ''0123456789'') \<or>
     list_ex (\<lambda>c. c \<in> set ([backslash, squote, dquote, CHR 0x60] @ '' !@#$%^&*()_+-=[]{};:|,.<>?~'')) name"

section \<open>The patterns\<close>

datatype access_pattern = CallPattern | IndexPattern | DotPattern | ItemsPattern

definition ACCESS_PATTERNS :: "access_pattern list" where
  "ACCESS_PATTERNS = [CallPattern, IndexPattern, DotPattern, ItemsPattern]"

fun checkPattern :: "access_pattern \<Rightarrow> string" where
  "checkPattern CallPattern = ''$(''"
| "checkPattern IndexPattern = ''$node[''"
| "checkPattern DotPattern = ''$node.''"
| "checkPattern ItemsPattern = ''$items(''"

text \<open>The characters that may follow the quote after the name.\<close>

fun closing :: "access_pattern \<Rightarrow> string" where
  "closing CallPattern = '')''"
| "closing IndexPattern = '']''"
| "closing DotPattern = []"
| "closing ItemsPattern = '',)''"

text \<open>\<open>replacePattern\<close> at the start of a text: the first group, the second group and the rest.\<close>

definition match_at :: "access_pattern \<Rightarrow> string \<Rightarrow> string \<Rightarrow> (string \<times> string \<times> string) option" where
  "match_at p name s =
     (case match_lit (checkPattern p) s of
        None \<Rightarrow> None
      | Some s1 \<Rightarrow>
          if p = DotPattern
          then (case match_name name s1 of
                  None \<Rightarrow> None
                | Some s2 \<Rightarrow>
                    (case s2 of [] \<Rightarrow> Some (checkPattern p, [], [])
                     | c # s3 \<Rightarrow> if c = CHR ''.'' then Some (checkPattern p, [c], s3) else Some (checkPattern p, [], s2)))
          else (case s1 of
                  [] \<Rightarrow> None
                | q # s2 \<Rightarrow>
                    if \<not> is_quote q then None
                    else (case match_name name s2 of
                            Some (q' # c # s3) \<Rightarrow>
                              if is_quote q' \<and> c \<in> set (closing p) then Some (checkPattern p @ [q], [q', c], s3) else None
                          | _ \<Rightarrow> None)))"

text \<open>\<open>s.replace(regex, ...)\<close> with the flag \<open>g\<close>; every match is at least as long as its first group.\<close>

function replace_matches :: "(string \<Rightarrow> (string \<times> string) option) \<Rightarrow> string \<Rightarrow> string" where
  "replace_matches m [] = []"
| "replace_matches m (c # s) =
     (case m (c # s) of
        None \<Rightarrow> c # replace_matches m s
      | Some (text, rest) \<Rightarrow>
          if length rest < length (c # s) then text @ replace_matches m rest else c # replace_matches m s)"
  by pat_completeness auto

termination replace_matches by (relation "measure (\<lambda>(m, s). length s)") auto

definition rename_matches :: "access_pattern \<Rightarrow> string \<Rightarrow> string \<Rightarrow> string \<Rightarrow> string" where
  "rename_matches p previousName newName =
     replace_matches (\<lambda>s. map_option (\<lambda>(g1, g2, rest). (g1 @ prepareNewNodeName newName @ g2, rest)) (match_at p previousName s))"

text \<open>\<^verbatim>\<open>customCallback\<close>: any character but a line end, the new name and a space or a dot.\<close>

definition match_dotted :: "string \<Rightarrow> string \<Rightarrow> (string \<times> string) option" where
  "match_dotted newName s =
     (case s of
        [] \<Rightarrow> None
      | c # s1 \<Rightarrow>
          if c = CHR 0x0A \<or> c = CHR 0x0D then None
          else (case match_lit newName s1 of
                  Some (d # s2) \<Rightarrow>
                    if d = CHR '' '' \<or> d = CHR ''.''
                    then Some (''['' @ [dquote] @ prepareNewNodeName newName @ [dquote] @ '']'' @ [d], s2) else None
                | _ \<Rightarrow> None))"

definition customCallback :: "string \<Rightarrow> string \<Rightarrow> string" where
  "customCallback expression newName =
     (if hasDotNotationBannedChar newName then replace_matches (match_dotted newName) expression else expression)"

definition applyPattern :: "string \<Rightarrow> string \<Rightarrow> access_pattern \<Rightarrow> string \<Rightarrow> string" where
  "applyPattern previousName newName p expression =
     (if sublist (checkPattern p) expression
      then let renamed = rename_matches p previousName newName expression
           in if p = DotPattern then customCallback renamed newName else renamed
      else expression)"

definition applyAccessPatterns :: "string \<Rightarrow> string \<Rightarrow> string \<Rightarrow> string" where
  "applyAccessPatterns expression previousName newName =
     (if \<not> list_ex (\<lambda>p. sublist (checkPattern p) expression) ACCESS_PATTERNS then expression
      else fold (applyPattern previousName newName) ACCESS_PATTERNS expression)"

section \<open>Expressions as segments\<close>

text \<open>A name without quotes, backslashes and dollar signs, and an expression made of text without dollar
  signs and of references with quoted names.\<close>

definition plain_name :: "string \<Rightarrow> bool" where
  "plain_name name \<longleftrightarrow> list_all (\<lambda>c. \<not> is_quote c \<and> c \<noteq> backslash \<and> c \<noteq> dollar) name"

datatype segment = Text string | Reference access_pattern char string char char

fun render_segment :: "segment \<Rightarrow> string" where
  "render_segment (Text t) = t"
| "render_segment (Reference p q name q' c) = checkPattern p @ q # name @ [q', c]"

definition render :: "segment list \<Rightarrow> string" where
  "render segments = concat (map render_segment segments)"

fun segment_ok :: "segment \<Rightarrow> bool" where
  "segment_ok (Text t) \<longleftrightarrow> dollar \<notin> set t"
| "segment_ok (Reference p q name q' c) \<longleftrightarrow>
     p \<noteq> DotPattern \<and> is_quote q \<and> is_quote q' \<and> c \<in> set (closing p) \<and> plain_name name"

fun rename_segment :: "access_pattern set \<Rightarrow> string \<Rightarrow> string \<Rightarrow> segment \<Rightarrow> segment" where
  "rename_segment P a b (Text t) = Text t"
| "rename_segment P a b (Reference p q name q' c) = Reference p q (if p \<in> P \<and> name = a then b else name) q' c"

lemma match_lit_append [simp]: "match_lit p (p @ s) = Some s"
  by (simp add: match_lit_def)

lemma match_lit_Some: "match_lit p s = Some r \<longleftrightarrow> s = p @ r"
  by (auto simp: match_lit_def prefix_def)

lemma match_lit_None: "match_lit p s = None \<longleftrightarrow> \<not> prefix p s"
  by (simp add: match_lit_def)

lemma match_name_plain: "plain_name name \<Longrightarrow> match_name name s = match_lit name s"
proof (induction name arbitrary: s)
  case (Cons c cs)
  then have "match_name cs = match_lit cs" by (auto simp: plain_name_def)
  with Cons.prems have "match_name (c # cs) s = Option.bind (match_lit [c] s) (match_lit cs)"
    by (simp add: plain_name_def)
  also have "\<dots> = match_lit (c # cs) s" by (cases s) (auto simp: match_lit_def)
  finally show ?case .
qed (simp add: match_lit_def)

lemma prepare_plain: "plain_name name \<Longrightarrow> prepareNewNodeName name = name"
  by (induction name) (auto simp: plain_name_def prepareNewNodeName_def)

lemma checkPattern_dollar: "\<exists>r. checkPattern p = dollar # r \<and> dollar \<notin> set r"
  by (cases p) simp_all

text \<open>No two patterns match at one position.\<close>

lemma checkPattern_prefix: "prefix (checkPattern p) (checkPattern p' @ s) \<longleftrightarrow> p = p'"
  by (cases p; cases p'; simp)

lemma match_at_start: "match_at p name s = Some r \<Longrightarrow> prefix (checkPattern p) s"
  by (auto simp: match_at_def match_lit_def split: if_splits)

text \<open>A quoted name is matched exactly when it is the old name.\<close>

lemma match_lit_quoted:
  assumes "plain_name a" "plain_name n" "is_quote q'"
  shows "(case match_lit a (n @ q' # s) of Some (d # c # r) \<Rightarrow> is_quote d | _ \<Rightarrow> False) \<longleftrightarrow> a = n \<and> s \<noteq> []"
proof
  assume "(case match_lit a (n @ q' # s) of Some (d # c # r) \<Rightarrow> is_quote d | _ \<Rightarrow> False)"
  then obtain d c r where m: "n @ q' # s = a @ d # c # r" "is_quote d"
    by (auto simp: match_lit_Some split: option.splits list.splits)
  have "x \<notin> Collect is_quote" if "x \<in> set a \<union> set n" for x using assms(1,2) that by (auto simp: plain_name_def list_all_iff)
  then have "takeWhile (\<lambda>x. \<not> is_quote x) (n @ q' # s) = n" "takeWhile (\<lambda>x. \<not> is_quote x) (a @ d # c # r) = a"
    using m(2) assms(3) by (auto simp: takeWhile_append2 takeWhile_append)
  then show "a = n \<and> s \<noteq> []" using m(1) by auto
qed (use assms in \<open>auto simp: neq_Nil_conv\<close>)

lemma match_at_reference:
  assumes "segment_ok (Reference p' q n q' c)" and "plain_name a" and "p \<noteq> DotPattern"
  shows "match_at p a (checkPattern p' @ q # n @ q' # c # s) =
    (if p = p' \<and> a = n then Some (checkPattern p @ [q], [q', c], s) else None)"
proof (cases "p = p'")
  case False
  then have "match_lit (checkPattern p) (checkPattern p' @ q # n @ q' # c # s) = None"
    by (simp add: match_lit_None checkPattern_prefix)
  with False show ?thesis by (simp add: match_at_def)
next
  case True
  have ok: "is_quote q" "is_quote q'" "c \<in> set (closing p)" "plain_name n" using assms(1) True by auto
  show ?thesis
  proof (cases "a = n")
    case eq: True
    then show ?thesis using True ok assms(2,3) by (simp add: match_at_def match_name_plain)
  next
    case ne: False
    have "\<not> (case match_lit a (n @ q' # c # s) of Some (d # e # r) \<Rightarrow> is_quote d | _ \<Rightarrow> False)"
      using match_lit_quoted[OF assms(2) ok(4,2), of "c # s"] ne by simp
    then show ?thesis using True ne ok assms(2,3)
      by (simp add: match_at_def match_name_plain) (auto split: option.splits list.splits)
  qed
qed

lemma replace_matches_skip:
  assumes "\<And>c s. c \<noteq> dollar \<Longrightarrow> m (c # s) = None" and "dollar \<notin> set t"
  shows "replace_matches m (t @ s) = t @ replace_matches m s"
  using assms(2)
proof (induction t)
  case (Cons c t)
  then have "m (c # t @ s) = None" by (intro assms(1)) auto
  with Cons show ?case by simp
qed simp

lemma rename_matches_skip:
  assumes "dollar \<notin> set t"
  shows "rename_matches p a b (t @ s) = t @ rename_matches p a b s"
  unfolding rename_matches_def
proof (rule replace_matches_skip[OF _ assms])
  fix c s assume "c \<noteq> dollar"
  then have "\<not> prefix (checkPattern p) (c # s)" using checkPattern_dollar[of p] by auto
  then have "match_at p a (c # s) = None" using match_at_start[of p a "c # s"] by (cases "match_at p a (c # s)") auto
  then show "map_option (\<lambda>(g1, g2, rest). (g1 @ prepareNewNodeName b @ g2, rest)) (match_at p a (c # s)) = None" by simp
qed

lemma reference_tail: "segment_ok (Reference p q n q' c) \<Longrightarrow>
  \<exists>r. render_segment (Reference p q n q' c) = dollar # r \<and> dollar \<notin> set r"
  using checkPattern_dollar[of p]
  by (cases p) (auto simp: plain_name_def is_quote_def list_all_iff)

lemma rename_matches_reference:
  assumes ok: "segment_ok (Reference p' q n q' c)" and plain: "plain_name a" "plain_name b" and p: "p \<noteq> DotPattern"
  shows "rename_matches p a b (render_segment (Reference p' q n q' c) @ s) =
    render_segment (rename_segment {p} a b (Reference p' q n q' c)) @ rename_matches p a b s"
proof (cases "p' = p \<and> n = a")
  case True
  obtain d r where d: "checkPattern p' @ q # n @ q' # c # s = d # r" using checkPattern_dollar[of p'] by auto
  have "match_at p a (d # r) = Some (checkPattern p @ [q], [q', c], s)"
    unfolding d[symmetric] using match_at_reference[OF ok plain(1) p, of s] True by simp
  moreover have "length s < length (d # r)" by (simp flip: d)
  ultimately have "rename_matches p a b (d # r) = (checkPattern p @ [q]) @ prepareNewNodeName b @ [q', c] @ rename_matches p a b s"
    by (simp add: rename_matches_def)
  with d True plain(2) show ?thesis by (simp add: prepare_plain)
next
  case False
  obtain r where r: "render_segment (Reference p' q n q' c) = dollar # r" "dollar \<notin> set r"
    using reference_tail[OF ok] by blast
  have eq: "checkPattern p' @ q # n @ q' # c # s = dollar # r @ s"
    using arg_cong[OF r(1), of "\<lambda>x. x @ s"] by simp
  have "match_at p a (dollar # r @ s) = None"
    unfolding eq[symmetric] using match_at_reference[OF ok plain(1) p, of s] False by auto
  then have "rename_matches p a b (dollar # r @ s) = dollar # rename_matches p a b (r @ s)"
    by (simp add: rename_matches_def)
  also have "\<dots> = dollar # r @ rename_matches p a b s" using rename_matches_skip[OF r(2)] by simp
  finally show ?thesis using r(1) False by auto
qed

lemma rename_matches_render:
  assumes "list_all segment_ok segs" and "plain_name a" "plain_name b" and "p \<noteq> DotPattern"
  shows "rename_matches p a b (render segs) = render (map (rename_segment {p} a b) segs)"
  using assms(1)
proof (induction segs)
  case Nil
  then show ?case by (simp add: render_def rename_matches_def)
next
  case (Cons s segs)
  then have IH: "rename_matches p a b (concat (map render_segment segs)) =
      concat (map render_segment (map (rename_segment {p} a b) segs))" by (simp add: render_def)
  show ?case
  proof (cases s)
    case (Text t)
    with Cons IH show ?thesis by (simp add: render_def rename_matches_skip)
  next
    case (Reference p' q n q' c)
    with Cons.prems rename_matches_reference[OF _ assms(2,3,4), of p' q n q' c] IH show ?thesis
      by (simp add: render_def del: render_segment.simps(2) rename_segment.simps(2))
  qed
qed

lemma sublist_skip:
  assumes "dollar \<notin> set t" and "sublist (checkPattern p) (t @ s)"
  shows "sublist (checkPattern p) s"
  using assms
proof (induction t)
  case (Cons c t)
  then have "\<not> prefix (checkPattern p) (c # t @ s)" using checkPattern_dollar[of p] by auto
  with Cons show ?case by (auto simp: sublist_Cons_right)
qed simp

text \<open>A pattern's check text occurs only with a reference of that pattern.\<close>

lemma sublist_render:
  assumes "list_all segment_ok segs" and "sublist (checkPattern p) (render segs)"
  shows "\<exists>q n q' c. Reference p q n q' c \<in> set segs"
  using assms
proof (induction segs)
  case Nil
  then show ?case by (cases p) (simp_all add: render_def)
next
  case (Cons s segs)
  have r: "render (s # segs) = render_segment s @ render segs" by (simp add: render_def)
  show ?case
  proof (cases s)
    case (Text t)
    with Cons r have "sublist (checkPattern p) (render segs)" using sublist_skip by auto
    with Cons show ?thesis by auto
  next
    case (Reference p' q n q' c)
    then obtain u where u: "render_segment s = dollar # u" "dollar \<notin> set u" 
      using reference_tail[of p' q n q' c] Cons.prems(1) by auto
    show ?thesis
    proof (cases "p = p'")
      case True
      with Reference show ?thesis by auto
    next
      case False
      then have "\<not> prefix (checkPattern p) (dollar # u @ render segs)"
        using checkPattern_prefix[of p p' "q # n @ [q', c] @ render segs"] Reference by (simp flip: append_Cons u(1))
      then have "sublist (checkPattern p) (u @ render segs)" using Cons.prems(2) unfolding r u(1) by (simp add: sublist_Cons_right)
      then have "sublist (checkPattern p) (render segs)" using sublist_skip[OF u(2)] by blast
      with Cons show ?thesis by auto
    qed
  qed
qed

lemma rename_segment_absent:
  assumes "\<nexists>q n q' c. Reference p q n q' c \<in> set segs"
  shows "map (rename_segment {p} a b) segs = segs"
proof -
  have "rename_segment {p} a b s = s" if "s \<in> set segs" for s using assms that by (cases s) auto
  then show ?thesis by (simp add: map_idI)
qed

lemma applyPattern_render:
  assumes "list_all segment_ok segs" and "plain_name a" "plain_name b"
  shows "applyPattern a b p (render segs) = render (map (rename_segment {p} a b) segs)"
proof (cases "sublist (checkPattern p) (render segs)")
  case True
  with sublist_render[OF assms(1)] obtain q n q' c where "Reference p q n q' c \<in> set segs" by blast
  then have "p \<noteq> DotPattern" using assms(1) by (auto simp: list_all_iff)
  with True rename_matches_render[OF assms] show ?thesis by (simp add: applyPattern_def)
next
  case False
  have absent: "map (rename_segment {p} a b) segs = segs" if "\<not> sublist (checkPattern p) (render segs)"
  proof (rule rename_segment_absent, rule notI)
    assume "\<exists>q n q' c. Reference p q n q' c \<in> set segs"
    then obtain q n q' c xs ys where "segs = xs @ Reference p q n q' c # ys" by (metis split_list)
    then have "render segs = render xs @ checkPattern p @ q # n @ [q', c] @ render ys" by (simp add: render_def)
    with that show False by (metis sublist_appendI)
  qed
  with False show ?thesis by (simp add: applyPattern_def)
qed

lemma segments_renamed_ok:
  assumes "list_all segment_ok segs" "plain_name b"
  shows "list_all segment_ok (map (rename_segment P a b) segs)"
proof -
  have "segment_ok (rename_segment P a b s)" if "s \<in> set segs" for s using assms that by (cases s) (auto simp: list_all_iff)
  then show ?thesis by (simp add: list_all_iff)
qed

lemma rename_segment_twice:
  "p \<notin> P \<Longrightarrow> rename_segment {p} a b (rename_segment P a b s) = rename_segment (insert p P) a b s"
  by (cases s) auto

lemma applyAccessPatterns_render:
  assumes "list_all segment_ok segs" and "plain_name a" and "plain_name b"
  shows "applyAccessPatterns (render segs) a b = render (map (rename_segment UNIV a b) segs)"
proof -
  note step = applyPattern_render[OF _ assms(2,3)]
  let ?f = "\<lambda>P. map (rename_segment P a b)"
  have ok: "list_all segment_ok (?f P segs)" for P by (rule segments_renamed_ok[OF assms(1,3)])
  have merge: "?f {p} (?f P segs) = ?f (insert p P) segs" if "p \<notin> P" for p P
    using that by (simp add: rename_segment_twice comp_def)
  have first: "?f {p} segs = ?f (insert p {}) segs" for p by simp
  have "fold (applyPattern a b) ACCESS_PATTERNS (render segs) =
      render (?f {ItemsPattern, DotPattern, IndexPattern, CallPattern} segs)"
    by (simp only: ACCESS_PATTERNS_def fold.simps comp_apply id_apply step[OF assms(1)] step[OF ok] merge
        insert_iff access_pattern.distinct empty_iff simp_thms)
  moreover have "{ItemsPattern, DotPattern, IndexPattern, CallPattern} = (UNIV :: access_pattern set)"
    using access_pattern.exhaust by blast
  moreover have "render (?f UNIV segs) = render segs"
    if "\<not> list_ex (\<lambda>p. sublist (checkPattern p) (render segs)) ACCESS_PATTERNS"
  proof -
    have "fold (applyPattern a b) ACCESS_PATTERNS (render segs) = render segs"
      using that by (simp add: ACCESS_PATTERNS_def applyPattern_def)
    with calculation show ?thesis by simp
  qed
  ultimately show ?thesis by (simp add: applyAccessPatterns_def)
qed

fun refers_to :: "string \<Rightarrow> segment \<Rightarrow> bool" where
  "refers_to a (Text t) = False"
| "refers_to a (Reference p q name q' c) \<longleftrightarrow> name = a"

lemma rename_back:
  assumes "list_all (\<lambda>s. \<not> refers_to b s) segs"
  shows "map (rename_segment UNIV b a) (map (rename_segment UNIV a b) segs) = segs"
proof -
  have "rename_segment UNIV b a (rename_segment UNIV a b s) = s" if "s \<in> set segs" for s
    using assms that by (cases s) (auto simp: list_all_iff)
  then show ?thesis by (simp add: map_idI)
qed



section \<open>References after a dot\<close>

text \<open>References of the form \<^verbatim>\<open>$node.A\<close> are not delimited: renaming a node also renames the references to
  every node whose name begins with its name. And when the new name needs brackets, the rewriting of
  \<^verbatim>\<open>$node.\<close> hits the new name wherever it stands in the expression before a space or a dot, in a quoted
  text too, and swallows the character before it.\<close>

lemma dot_references_not_delimited:
  "applyAccessPatterns ''={{ $node.Set1.json }}'' ''Set'' ''Edit'' = ''={{ $node.Edit1.json }}'' \<and>
   applyAccessPatterns (''={{ $node.A.json + `see My Node.` }}'') ''A'' ''My Node'' =
     ''={{ $node['' @ [dquote] @ ''My Node'' @ [dquote] @ ''].json + `see['' @ [dquote] @ ''My Node'' @ [dquote] @ ''].` }}''"
  by code_simp

end
