(* ===== verification/Rename_Node.thy ===== *)
theory Rename_Node
  imports Access_Patterns Partial_Execution
begin

text \<open>
  Renaming a node: \<^verbatim>\<open>renameNodeInParameterValue\<close> and \<^verbatim>\<open>renameNode\<close> of the class \<^verbatim>\<open>Workflow\<close>
  (\<^verbatim>\<open>packages/workflow/src/workflow.ts\<close>) with \<^verbatim>\<open>renameFormFields\<close> (\<^verbatim>\<open>node-parameters/rename-node-utils.ts\<close>).
  A parameter that is missing is not told from one that is \<^verbatim>\<open>undefined\<close>.
\<close>

section \<open>Parameters\<close>

function renameNodeInParameterValue :: "string \<Rightarrow> string \<Rightarrow> bool \<Rightarrow> json \<Rightarrow> json" where
  "renameNodeInParameterValue currentName newName hasRenamableContent (JStr s) =
     JStr (if (s \<noteq> [] \<and> hd s = CHR ''='') \<or> hasRenamableContent then applyAccessPatterns s currentName newName else s)"
| "renameNodeInParameterValue currentName newName hasRenamableContent (JBool b) = JBool b"
| "renameNodeInParameterValue currentName newName hasRenamableContent (JNum n) = JNum n"
| "renameNodeInParameterValue currentName newName hasRenamableContent JNull = JObj []"
| "renameNodeInParameterValue currentName newName hasRenamableContent (JArr vs) =
     JArr (map (renameNodeInParameterValue currentName newName False) vs)"
| "renameNodeInParameterValue currentName newName hasRenamableContent (JObj props) =
     JObj (map (\<lambda>(k, v). (k, renameNodeInParameterValue currentName newName hasRenamableContent v)) props)"
  by pat_completeness auto

termination
proof (relation "measure (\<lambda>(c, n, h, v). size v)", goal_cases)
  case (2 c n h vs x)
  then show ?case by (auto simp: less_Suc_eq_le dest!: size_list_estimation'[OF _ order_refl, of _ _ size])
next
  case (3 c n h props x k v)
  have "size v \<le> size_list (size_prod (\<lambda>_. 0) size) props"
    using 3 by (intro size_list_estimation'[of x]) (auto simp: size_prod_simp)
  then show ?case by simp
qed simp

definition renameProperty :: "string \<Rightarrow> string \<Rightarrow> string \<Rightarrow> (string \<times> json) list \<Rightarrow> (string \<times> json) list" where
  "renameProperty currentName newName key params =
     (case jget params key of
        None \<Rightarrow> params
      | Some v \<Rightarrow> jset params key (renameNodeInParameterValue currentName newName True v))"

fun renameFormField :: "string \<Rightarrow> string \<Rightarrow> json \<Rightarrow> json" where
  "renameFormField currentName newName (JObj field) =
     (if jget field ''fieldType'' = Some (JStr ''html'') then JObj (renameProperty currentName newName ''html'' field)
      else JObj field)"
| "renameFormField currentName newName v = v"

definition renameFormFields :: "string \<Rightarrow> string \<Rightarrow> (string \<times> json) list \<Rightarrow> (string \<times> json) list" where
  "renameFormFields currentName newName params =
     (case jget params ''formFields'' of
        Some (JObj formFields) \<Rightarrow>
          (case jget formFields ''values'' of
             Some (JArr vs) \<Rightarrow>
               jset params ''formFields'' (JObj (jset formFields ''values'' (JArr (map (renameFormField currentName newName) vs))))
           | _ \<Rightarrow> params)
      | _ \<Rightarrow> params)"

definition NODES_WITH_RENAMABLE_CONTENT :: "string list" where
  "NODES_WITH_RENAMABLE_CONTENT = [''n8n-nodes-base.code'', ''n8n-nodes-base.function'', ''n8n-nodes-base.functionItem'',
     ''n8n-nodes-base.aiTransform'']"

definition NODES_WITH_RENAMABLE_FORM_HTML_CONTENT :: "string list" where
  "NODES_WITH_RENAMABLE_FORM_HTML_CONTENT = [''n8n-nodes-base.form'']"

definition NODES_WITH_RENAMEABLE_TOPLEVEL_HTML_CONTENT :: "string list" where
  "NODES_WITH_RENAMEABLE_TOPLEVEL_HTML_CONTENT = [''n8n-nodes-base.mailgun'', ''n8n-nodes-base.html'']"

text \<open>The body of the loop over the nodes.\<close>

definition renameInNode :: "string \<Rightarrow> string \<Rightarrow> INode \<Rightarrow> INode" where
  "renameInNode currentName newName node =
     (let params = map (\<lambda>(k, v). (k, renameNodeInParameterValue currentName newName False v)) (node_parameters node);
          params1 = (if node_type node \<in> set NODES_WITH_RENAMABLE_CONTENT
                     then renameProperty currentName newName ''jsCode'' params else params);
          params2 = (if node_type node \<in> set NODES_WITH_RENAMEABLE_TOPLEVEL_HTML_CONTENT
                     then renameProperty currentName newName ''html'' params1 else params1);
          params3 = (if node_type node \<in> set NODES_WITH_RENAMABLE_FORM_HTML_CONTENT
                     then renameFormFields currentName newName params2 else params2)
      in node\<lparr>node_parameters := params3\<rparr>)"

section \<open>renameNode\<close>

definition restrictedKeys :: "string list" where
  "restrictedKeys = [''hasOwnProperty'', ''isPrototypeOf'', ''propertyIsEnumerable'', ''toLocaleString'', ''toString'',
     ''valueOf'', ''constructor'', ''prototype'', ''__proto__'', ''__defineGetter__'', ''__defineSetter__'',
     ''__lookupGetter__'', ''__lookupSetter__'']"

text \<open>Lower case of the letters A to Z: no other character of the model becomes one of the restricted names'.\<close>

definition toLowerCase :: "string \<Rightarrow> string" where
  "toLowerCase = map (\<lambda>c. if 65 \<le> (of_char c :: nat) \<and> (of_char c :: nat) \<le> 90 then char_of (of_char c + 32 :: nat) else c)"

definition moveKey :: "(string, 'a) jsmap \<Rightarrow> string \<Rightarrow> string \<Rightarrow> 'a \<Rightarrow> (string, 'a) jsmap" where
  "moveKey m currentName newName v = jdel (jset m newName v) currentName"

definition renameKey :: "(string, INode) jsmap \<Rightarrow> string \<Rightarrow> string \<Rightarrow> (string, INode) jsmap" where
  "renameKey nodes currentName newName =
     (case jget nodes currentName of
        None \<Rightarrow> nodes
      | Some node \<Rightarrow> moveKey nodes currentName newName (node\<lparr>node_name := newName\<rparr>))"

definition renameSource :: "IConnections \<Rightarrow> string \<Rightarrow> string \<Rightarrow> IConnections" where
  "renameSource C currentName newName =
     (case jget C currentName of None \<Rightarrow> C | Some types \<Rightarrow> moveKey C currentName newName types)"

text \<open>The four loops over all connections.\<close>

definition renameTarget :: "string \<Rightarrow> string \<Rightarrow> IConnection \<Rightarrow> IConnection" where
  "renameTarget currentName newName c = (if con_node c = currentName then c\<lparr>con_node := newName\<rparr> else c)"

fun map_slot :: "('a \<Rightarrow> 'b) \<Rightarrow> 'a slot \<Rightarrow> 'b slot" where
  "map_slot f (Value x) = Value (f x)"
| "map_slot f Null = Null"
| "map_slot f Undefined = Undefined"

definition renameTargets :: "string \<Rightarrow> string \<Rightarrow> IConnections \<Rightarrow> IConnections" where
  "renameTargets currentName newName C =
     map (\<lambda>(source, types). (source, map (\<lambda>(type, outputs).
       (type, map (map_slot (map (renameTarget currentName newName))) outputs)) types)) C"

definition renameNode :: "Workflow \<Rightarrow> string \<Rightarrow> string \<Rightarrow> Workflow result" where
  "renameNode w currentName newName =
     (if toLowerCase newName \<in> set (map toLowerCase restrictedKeys) then Inl (UserError newName)
      else Inr (w\<lparr>wf_nodes := map (\<lambda>(k, node). (k, renameInNode currentName newName node))
                    (renameKey (wf_nodes w) currentName newName),
                  connectionsBySourceNode := renameTargets currentName newName
                    (renameSource (connectionsBySourceNode w) currentName newName)\<rparr>))"

section \<open>What a renaming does to the workflow\<close>

definition renamed :: "string \<Rightarrow> string \<Rightarrow> string \<Rightarrow> string" where
  "renamed currentName newName n = (if n = currentName then newName else n)"

lemma renameInNode_name [simp]: "node_name (renameInNode a b n) = node_name n"
  by (simp add: renameInNode_def Let_def)

lemma jget_map_values: "jget (map (\<lambda>(k, v). (k, f v)) m) k = map_option f (jget m k)"
  by (induction m) auto

lemma jget_moveKey: "a \<noteq> b \<Longrightarrow> jget (moveKey m a b v) k = (if k = a then None else if k = b then Some v else jget m k)"
  by (simp add: moveKey_def)

lemma renameTargets_get:
  "jget (renameTargets a b C) n = map_option (map (\<lambda>(type, outputs).
     (type, map (map_slot (map (renameTarget a b))) outputs))) (jget C n)"
  unfolding renameTargets_def by (rule jget_map_values)

lemma slot_get_map: "slot_get (map (map_slot f) xs) i = map_slot f (slot_get xs i)"
  by (simp add: slot_get_def)

lemma slot_or_map: "slot_or (map_slot (map f) s) [] = map f (slot_or s [])"
  by (cases s) simp_all

lemma renameTargets_at:
  "connectionsAt (renameTargets a b C) n t i = map (renameTarget a b) (connectionsAt C n t i)"
proof (cases "jget C n")
  case None
  then show ?thesis by (simp add: connectionsAt_def renameTargets_get)
next
  case (Some types)
  then show ?thesis
    by (cases "jget types t")
      (simp_all add: connectionsAt_def renameTargets_get jget_map_values slot_get_map slot_or_map)
qed

lemma renameSource_at:
  assumes "a \<noteq> b" and "jget C b = None" and "n \<noteq> b"
  shows "connectionsAt (renameSource C a b) (renamed a b n) t i = connectionsAt C n t i"
    and "connectionsAt (renameSource C a b) a t i = []"
  using assms by (auto simp: renameSource_def connectionsAt_def renamed_def jget_moveKey split: option.splits)

text \<open>C39: Renaming a node to a name that is neither restricted nor in use carries the node and its connections
  over: the node is found under the new name and no longer under the old one, the other nodes stay under
  theirs, and the connections from each node are those it had, in the same places, with the old name
  replaced. The connections by destination are left as they were.\<close>

theorem renameNode_isomorphic:
  assumes "toLowerCase b \<notin> set (map toLowerCase restrictedKeys)" and "a \<noteq> b"
    and "jget (wf_nodes w) b = None" and "jget (connectionsBySourceNode w) b = None"
  shows "\<exists>w'. renameNode w a b = Inr w' \<and>
    jget (wf_nodes w') a = None \<and>
    jget (wf_nodes w') b = map_option (\<lambda>n. renameInNode a b (n\<lparr>node_name := b\<rparr>)) (jget (wf_nodes w) a) \<and>
    (\<forall>n. n \<noteq> a \<and> n \<noteq> b \<longrightarrow> jget (wf_nodes w') n = map_option (renameInNode a b) (jget (wf_nodes w) n)) \<and>
    (\<forall>n t i. n \<noteq> b \<longrightarrow> connectionsAt (connectionsBySourceNode w') (renamed a b n) t i =
       map (renameTarget a b) (connectionsAt (connectionsBySourceNode w) n t i)) \<and>
    (\<forall>t i. connectionsAt (connectionsBySourceNode w') a t i = []) \<and>
    connectionsByDestinationNode w' = connectionsByDestinationNode w"
proof -
  let ?w = "w\<lparr>wf_nodes := map (\<lambda>(k, node). (k, renameInNode a b node)) (renameKey (wf_nodes w) a b),
    connectionsBySourceNode := renameTargets a b (renameSource (connectionsBySourceNode w) a b)\<rparr>"
  have "renameNode w a b = Inr ?w" using assms(1) by (simp add: renameNode_def)
  moreover have nodes: "jget (wf_nodes ?w) n = (if n = a then None
      else if n = b then map_option (\<lambda>n. renameInNode a b (n\<lparr>node_name := b\<rparr>)) (jget (wf_nodes w) a)
      else map_option (renameInNode a b) (jget (wf_nodes w) n))" for n
    using assms(2,3) by (auto simp: jget_map_values renameKey_def jget_moveKey split: option.splits)
  moreover have "connectionsAt (connectionsBySourceNode ?w) (renamed a b n) t i =
      map (renameTarget a b) (connectionsAt (connectionsBySourceNode w) n t i)" if "n \<noteq> b" for n t i
    using renameSource_at(1)[OF assms(2,4) that] by (simp add: renameTargets_at)
  moreover have "connectionsAt (connectionsBySourceNode ?w) a t i = []" for t i
    using renameSource_at(2)[OF assms(2,4) assms(2)] by (simp add: renameTargets_at)
  ultimately show ?thesis using assms(2) by (intro exI[of _ ?w]) simp
qed

definition two_nodes :: Workflow where
  "two_nodes = \<lparr>
     wf_nodes = map (\<lambda>n. (n, \<lparr>node_ref = 0, node_id = n, node_name = n, node_typeVersion = ''1'', node_type = ''set'',
       node_disabled = None, node_parameters = [(''value'', JStr (''={{ $('' @ [squote] @ ''a'' @ [squote] @ '').first() }}'')),
       (''note'', JNull)], node_rewireOutputLogTo = None,
     node_position = (0, 0), node_settings = no_settings\<rparr>)) [''a'', ''b''],
     connectionsBySourceNode = sample_connections [(''a'', ''b''), (''b'', ''a'')],
     connectionsByDestinationNode = mapConnectionsByDestination (sample_connections [(''a'', ''b''), (''b'', ''a'')]),
     wf_pinData = None\<rparr>"

lemma renameNode_isomorphic_witness:
  "\<exists>w'. renameNode two_nodes ''a'' ''c'' = Inr w' \<and> jget (wf_nodes w') ''a'' = None \<and>
     map con_node (connectionsAt (connectionsBySourceNode w') ''b'' main_type 0) = [''c'']"
proof -
  have h: "toLowerCase ''c'' \<notin> set (map toLowerCase restrictedKeys)" "''a'' \<noteq> ''c''"
    "jget (wf_nodes two_nodes) ''c'' = None" "jget (connectionsBySourceNode two_nodes) ''c'' = None"
    and at: "connectionsAt (connectionsBySourceNode two_nodes) ''b'' main_type 0 =
      [\<lparr>con_node = ''a'', con_type = main_type, con_index = 0\<rparr>]" by code_simp+
  obtain w' where w: "renameNode two_nodes ''a'' ''c'' = Inr w'" "jget (wf_nodes w') ''a'' = None"
    "\<forall>n t i. n \<noteq> ''c'' \<longrightarrow> connectionsAt (connectionsBySourceNode w') (renamed ''a'' ''c'' n) t i =
      map (renameTarget ''a'' ''c'') (connectionsAt (connectionsBySourceNode two_nodes) n t i)"
    using renameNode_isomorphic[OF h] by (elim exE conjE) (rule that)
  then have "connectionsAt (connectionsBySourceNode w') (renamed ''a'' ''c'' ''b'') main_type 0 =
      map (renameTarget ''a'' ''c'') (connectionsAt (connectionsBySourceNode two_nodes) ''b'' main_type 0)" by simp
  moreover have "renamed ''a'' ''c'' ''b'' = ''b''" by (simp add: renamed_def)
  ultimately show ?thesis
    using w(1,2) at by (intro exI[of _ w']) (simp add: renameTarget_def)
qed

text \<open>Renaming a node to its own name deletes it together with its outgoing connections, while the
  connections into it stay.\<close>

lemma renameNode_same_name_deletes:
  "\<exists>w'. renameNode two_nodes ''a'' ''a'' = Inr w' \<and> jkeys (wf_nodes w') = [''b''] \<and>
     jkeys (connectionsBySourceNode w') = [''b''] \<and>
     map con_node (connectionsAt (connectionsBySourceNode w') ''b'' main_type 0) = [''a'']"
proof -
  have "(case renameNode two_nodes ''a'' ''a'' of Inl _ \<Rightarrow> None | Inr w' \<Rightarrow> Some (jkeys (wf_nodes w'),
      jkeys (connectionsBySourceNode w'), map con_node (connectionsAt (connectionsBySourceNode w') ''b'' main_type 0))) =
    Some ([''b''], [''b''], [''a''])"
    by code_simp
  then show ?thesis by (auto split: sum.splits)
qed

text \<open>Any renaming turns the \<^verbatim>\<open>null\<close> parameters of all nodes into empty objects.\<close>

lemma renameNode_null_parameters:
  "renameNodeInParameterValue a b False JNull = JObj []"
  by simp

end
