(* ===== verification/Queue_Refinement.thy ===== *)
theory Queue_Refinement
  imports Concurrency_Queue
begin

text \<open>
  What the concurrency queue (\<^verbatim>\<open>packages/cli/src/concurrency/concurrency-queue.ts\<close>) promises: it is a
  counting semaphore whose waiting executions are served in order of arrival. The locale \<open>simulation\<close>
  carries an abstract step relation along an inductive invariant; the queue is an instance, in both
  directions. The second part is progress: a waiting execution starts after as many ends as its place.
\<close>

section \<open>Simulation\<close>

locale simulation = step_system init step inv
  for init :: 's and step :: "'s \<Rightarrow> 's \<Rightarrow> bool" and inv :: "'s \<Rightarrow> bool" +
  fixes abs :: "'s \<Rightarrow> 'a" and astep :: "'a \<Rightarrow> 'a \<Rightarrow> bool"
  assumes abs_step: "inv s \<Longrightarrow> step s t \<Longrightarrow> astep (abs s) (abs t)"
    and abs_complete: "inv s \<Longrightarrow> astep (abs s) a \<Longrightarrow> \<exists>t. step s t \<and> abs t = a"
begin

lemma reachable_abs: "step\<^sup>*\<^sup>* init s \<Longrightarrow> astep\<^sup>*\<^sup>* (abs init) (abs s)"
proof (induction rule: rtranclp_induct)
  case (step s t)
  from abs_step[OF inv_reachable[OF step(1)] step(2)] step(3) show ?case by (rule rtranclp.rtrancl_into_rtrancl[rotated])
qed simp

lemma abs_reachable: "astep\<^sup>*\<^sup>* (abs init) a \<Longrightarrow> \<exists>s. step\<^sup>*\<^sup>* init s \<and> abs s = a"
proof (induction rule: rtranclp_induct)
  case (step a b)
  then obtain s where s: "step\<^sup>*\<^sup>* init s" "abs s = a" by blast
  then obtain t where "step s t" "abs t = b" using abs_complete[OF inv_reachable] step(2) by blast
  then show ?case by (intro exI[of _ t] conjI rtranclp.rtrancl_into_rtrancl[OF s(1)])
qed blast

end

section \<open>The semaphore\<close>

type_synonym semaphore = "string multiset \<times> string list"

fun semaphore_arrive :: "nat \<Rightarrow> string \<Rightarrow> semaphore \<Rightarrow> semaphore" where
  "semaphore_arrive limit i (running, waiting) =
     (if size running < limit then (add_mset i running, waiting) else (running, waiting @ [i]))"

fun semaphore_finish :: "string \<Rightarrow> semaphore \<Rightarrow> semaphore" where
  "semaphore_finish i (running, []) = (running - {#i#}, [])"
| "semaphore_finish i (running, x # waiting) = (add_mset x (running - {#i#}), waiting)"

inductive semaphore_step :: "nat \<Rightarrow> semaphore \<Rightarrow> semaphore \<Rightarrow> bool" for limit where
  "semaphore_step limit a (semaphore_arrive limit i a)"
| "i \<in># fst a \<Longrightarrow> semaphore_step limit a (semaphore_finish i a)"

inductive_cases semaphore_stepE: "semaphore_step limit a b"

definition semaphore_of :: "Executions \<Rightarrow> semaphore" where
  "semaphore_of s = (ex_running s, cq_queue (ex_queue s))"

definition arrival :: "Executions \<Rightarrow> string \<Rightarrow> Executions" where
  "arrival s i = (case enqueue (ex_queue s) i of (q, es, pending) \<Rightarrow>
     run_all (if pending then [] else [i]) (s\<lparr>ex_queue := q, ex_arrived := ex_arrived s @ [i]\<rparr>))"

definition ending :: "Executions \<Rightarrow> string \<Rightarrow> Executions" where
  "ending s i = (case dequeue (ex_queue s) of (q, es) \<Rightarrow>
     run_all (released es) (s\<lparr>ex_queue := q, ex_running := ex_running s - {#i#}\<rparr>))"

lemma exec_step_iff:
  "exec_step s t \<longleftrightarrow> (\<exists>i. t = arrival s i) \<or> (\<exists>i. i \<in># ex_running s \<and> t = ending s i)"
proof
  assume "exec_step s t"
  then show "(\<exists>i. t = arrival s i) \<or> (\<exists>i. i \<in># ex_running s \<and> t = ending s i)"
  proof (cases rule: exec_step.cases)
    case (arrive i q es pending)
    then have "t = arrival s i" by (simp add: arrival_def)
    then show ?thesis by blast
  next
    case (finish i q es)
    then have "t = ending s i" by (simp add: ending_def)
    with finish show ?thesis by blast
  qed
next
  assume "(\<exists>i. t = arrival s i) \<or> (\<exists>i. i \<in># ex_running s \<and> t = ending s i)"
  then show "exec_step s t"
  proof (elim disjE exE conjE)
    fix i assume "t = arrival s i"
    then show "exec_step s t"
      using exec_step.arrive[of s i] by (cases "enqueue (ex_queue s) i") (auto simp: arrival_def)
  next
    fix i assume "i \<in># ex_running s" "t = ending s i"
    then show "exec_step s t"
      using exec_step.finish[of i s] by (cases "dequeue (ex_queue s)") (auto simp: ending_def)
  qed
qed

lemma semaphore_of_arrival:
  assumes "within_limit limit s"
  shows "semaphore_of (arrival s i) = semaphore_arrive limit i (semaphore_of s)"
proof (cases "size (ex_running s) < limit")
  case True
  then have "cq_queue (ex_queue s) = []" using assms by (auto simp: within_limit_def)
  with True assms show ?thesis
    by (simp add: within_limit_def semaphore_of_def arrival_def enqueue_def run_all_def Let_def)
next
  case False
  with assms show ?thesis
    by (simp add: within_limit_def semaphore_of_def arrival_def enqueue_def run_all_def Let_def)
qed

lemma semaphore_of_ending: "semaphore_of (ending s i) = semaphore_finish i (semaphore_of s)"
  by (cases "cq_queue (ex_queue s)")
    (simp_all add: semaphore_of_def ending_def dequeue_def resolveNext_def run_all_def released_def map_filter_simps)

interpretation semaphore: simulation "exec_init limit" exec_step "within_limit limit" semaphore_of
  "semaphore_step limit" for limit
proof unfold_locales
  fix s t assume "within_limit limit s" "exec_step s t"
  then show "semaphore_step limit (semaphore_of s) (semaphore_of t)"
    by (auto simp: exec_step_iff semaphore_of_arrival semaphore_of_ending intro!: semaphore_step.intros)
      (simp add: semaphore_of_def)
next
  fix s a assume "within_limit limit s" "semaphore_step limit (semaphore_of s) a"
  then show "\<exists>t. exec_step s t \<and> semaphore_of t = a"
    unfolding exec_step_iff
    by (elim semaphore_stepE) (auto simp: semaphore_of_arrival semaphore_of_ending semaphore_of_def[of s])
qed

lemma semaphore_of_init: "semaphore_of (exec_init limit) = ({#}, [])"
  by (simp add: semaphore_of_def exec_init_def new_queue_def)



text \<open>Conversely, whatever the semaphore reaches the queue reaches.\<close>

lemma semaphore_reaches:
  "(semaphore_step limit)\<^sup>*\<^sup>* ({#}, []) a \<Longrightarrow> \<exists>s. exec_step\<^sup>*\<^sup>* (exec_init limit) s \<and> semaphore_of s = a"
  using semaphore.abs_reachable[of limit a] unfolding semaphore_of_init .

section \<open>Progress\<close>

text \<open>Runs of executions arriving and ending, with the number of ends.\<close>

inductive exec_run :: "Executions \<Rightarrow> nat \<Rightarrow> Executions \<Rightarrow> bool" for s where
  run_none: "exec_run s 0 s"
| run_arrival: "exec_run s n t \<Longrightarrow> exec_run s n (arrival t i)"
| run_ending: "exec_run s n t \<Longrightarrow> i \<in># ex_running t \<Longrightarrow> exec_run s (Suc n) (ending t i)"

lemma exec_run_steps: "exec_run s n t \<Longrightarrow> exec_step\<^sup>*\<^sup>* s t"
proof (induction rule: exec_run.induct)
  case (run_arrival n t i)
  then show ?case by (meson exec_step_iff rtranclp.rtrancl_into_rtrancl)
next
  case (run_ending n t i)
  then show ?case by (meson exec_step_iff rtranclp.rtrancl_into_rtrancl)
qed simp

lemma arrival_lists:
  "ex_arrived (arrival s i) = ex_arrived s @ [i]"
  "length (ex_started s) \<le> length (ex_started (arrival s i))"
  by (auto simp: arrival_def run_all_def split: prod.splits)

lemma ending_lists:
  "ex_arrived (ending s i) = ex_arrived s"
  "ex_started (ending s i) = ex_started s @ take 1 (cq_queue (ex_queue s))"
  by (cases "cq_queue (ex_queue s)";
      simp add: ending_def dequeue_def resolveNext_def run_all_def released_def map_filter_simps)+

lemma exec_run_progress:
  assumes "exec_run s n t" and "within_limit limit s"
  shows "within_limit limit t \<and> (\<exists>zs. ex_arrived t = ex_arrived s @ zs) \<and>
    length (ex_started s) + min n (length (cq_queue (ex_queue s))) \<le> length (ex_started t)"
  using assms
proof (induction rule: exec_run.induct)
  case (run_arrival n t i)
  then have "within_limit limit (arrival t i)" using within_limit_step exec_step_iff by blast
  with run_arrival arrival_lists[of t i] show ?case by auto
next
  case (run_ending n t i)
  then have ok: "within_limit limit (ending t i)" "within_limit limit t" using within_limit_step exec_step_iff by blast+
  obtain zs where zs: "ex_arrived t = ex_arrived s @ zs" using run_ending by blast
  have "length (ex_started s) + min (Suc n) (length (cq_queue (ex_queue s))) \<le> length (ex_started (ending t i))"
  proof (cases "cq_queue (ex_queue t)")
    case Nil
    then have "ex_started t = ex_started s @ cq_queue (ex_queue s) @ zs"
      using ok(2) run_ending(4) zs by (auto simp: within_limit_def)
    then show ?thesis by (simp add: ending_lists)
  next
    case (Cons x xs)
    have "length (ex_started s) + min n (length (cq_queue (ex_queue s))) \<le> length (ex_started t)"
      using run_ending(3,4) by blast
    then have "length (ex_started s) + min (Suc n) (length (cq_queue (ex_queue s))) \<le> Suc (length (ex_started t))"
      by (simp add: min_def split: if_splits)
    with Cons show ?thesis by (simp add: ending_lists)
  qed
  with ok zs ending_lists[of t i] show ?case by auto
qed auto

text \<open>C32: Nothing waits for ever under a positive limit: while an execution waits some execution runs, and
  once as many executions have ended as there are up to and including it in the queue, it has started,
  whatever arrived meanwhile.\<close>

theorem queued_execution_starts:
  assumes "exec_step\<^sup>*\<^sup>* (exec_init limit) s" and "0 < limit"
    and "cq_queue (ex_queue s) = xs @ i # ys"
  shows "ex_running s \<noteq> {#} \<and> (\<forall>n t. exec_run s n t \<and> length xs < n \<longrightarrow> i \<in> set (ex_started t))"
proof (intro conjI allI impI)
  have inv: "within_limit limit s" by (rule limited.inv_reachable[OF assms(1)])
  with assms(2,3) show "ex_running s \<noteq> {#}" by (auto simp: within_limit_def)
  fix n t assume run: "exec_run s n t \<and> length xs < n"
  then have t: "within_limit limit t" "length (ex_started s) + Suc (length xs) \<le> length (ex_started t)"
    using exec_run_progress[OF _ inv, of n t] assms(3) by auto
  obtain zs where "ex_arrived t = ex_arrived s @ zs" using exec_run_progress[OF _ inv] run by blast
  then have "ex_started t @ cq_queue (ex_queue t) = (ex_started s @ xs) @ i # (ys @ zs)"
    using inv t(1) assms(3) by (simp add: within_limit_def)
  then have "(ex_started t @ cq_queue (ex_queue t)) ! length (ex_started s @ xs) = i" by (metis nth_append_length)
  with t(2) have "ex_started t ! length (ex_started s @ xs) = i" by (simp add: nth_append)
  with t(2) show "i \<in> set (ex_started t)" by (metis Suc_le_eq add_Suc_right length_append nth_mem)
qed

lemma queued_execution_starts_witness:
  "exec_run one_queued 1 (ending one_queued ''1'') \<and> ''2'' \<in> set (ex_started (ending one_queued ''1''))"
proof -
  have "exec_run one_queued 1 (ending one_queued ''1'')"
    using run_ending[OF run_none, of "''1''" one_queued] by (simp add: one_queued_def)
  with queued_execution_starts[OF queued_up, of "[]" "''2''" "[]"] show ?thesis by (auto simp: one_queued_def)
qed

end
