(* ===== verification/Connections_Diff.thy ===== *)
theory Connections_Diff
  imports Workflow_Connections "HOL-Library.Multiset"
begin

text \<open>
  \<^verbatim>\<open>packages/workflow/src/connections-diff.ts\<close>: which connections two versions of a workflow do not share.
  Connections are compared by their JSON text; in the model the fields of a connection stand in one order, so
  that is equality. The result records the entries by node, connection type and index of the source.
\<close>

section \<open>The comparison\<close>

record ConnectionEntry =
  ce_sourceIndex :: nat
  ce_index :: nat
  ce_connection :: IConnection

type_synonym connections_diff = "(string, (string, ConnectionEntry list) jsmap) jsmap"

definition addValue :: "(IConnection, (nat \<times> IConnection) list) jsmap \<Rightarrow> nat \<times> IConnection \<Rightarrow>
    (IConnection, (nat \<times> IConnection) list) jsmap" where
  "addValue byValue entry =
     (case jget byValue (snd entry) of
        Some entries \<Rightarrow> jset byValue (snd entry) (entries @ [entry])
      | None \<Rightarrow> jset byValue (snd entry) [entry])"

definition groupByValue :: "IConnection list \<Rightarrow> (IConnection, (nat \<times> IConnection) list) jsmap" where
  "groupByValue connections = foldl addValue [] (List.enumerate 0 connections)"

text \<open>What one side has more of than the other: \<^verbatim>\<open>entries.slice(kept)\<close> for every value.\<close>

definition surplus :: "IConnection list \<Rightarrow> IConnection list \<Rightarrow> (nat \<times> IConnection) list" where
  "surplus others connections =
     concat (map (\<lambda>(key, entries).
       drop (case jget (groupByValue others) key of None \<Rightarrow> 0 | Some l \<Rightarrow> length l) entries) (groupByValue connections))"

definition pushEntry :: "connections_diff \<Rightarrow> string \<times> string \<times> ConnectionEntry \<Rightarrow> connections_diff" where
  "pushEntry diff e = (case e of (nodeName, inputName, entry) \<Rightarrow>
     let byInput = (case jget diff nodeName of None \<Rightarrow> [] | Some m \<Rightarrow> m);
         entries = (case jget byInput inputName of None \<Rightarrow> [] | Some l \<Rightarrow> l)
     in jset diff nodeName (jset byInput inputName (entries @ [entry])))"

text \<open>The three nested loops: node names, input names, source indices.\<close>

definition nodeConnections :: "IConnections \<Rightarrow> string \<Rightarrow> INodeConnections" where
  "nodeConnections C nodeName = (case jget C nodeName of None \<Rightarrow> [] | Some types \<Rightarrow> types)"

definition comparedPositions :: "IConnections \<Rightarrow> IConnections \<Rightarrow> (string \<times> string \<times> nat) list" where
  "comparedPositions prev next' =
     concat (map (\<lambda>nodeName.
       concat (map (\<lambda>inputName.
         map (\<lambda>sourceIndex. (nodeName, inputName, sourceIndex))
           [0..<max (length (rowsOf prev nodeName inputName)) (length (rowsOf next' nodeName inputName))])
       (set_add_all [] (jkeys (nodeConnections prev nodeName) @ jkeys (nodeConnections next' nodeName)))))
     (set_add_all [] (jkeys prev @ jkeys next')))"

definition surplusEntries :: "IConnections \<Rightarrow> IConnections \<Rightarrow> string \<times> string \<times> nat \<Rightarrow>
    (string \<times> string \<times> ConnectionEntry) list" where
  "surplusEntries others C pos = (case pos of (nodeName, inputName, sourceIndex) \<Rightarrow>
     map (\<lambda>(index, connection).
        (nodeName, inputName, \<lparr>ce_sourceIndex = sourceIndex, ce_index = index, ce_connection = connection\<rparr>))
       (surplus (connectionsAt others nodeName inputName sourceIndex) (connectionsAt C nodeName inputName sourceIndex)))"

definition compareConnections :: "IConnections \<Rightarrow> IConnections \<Rightarrow> connections_diff \<times> connections_diff" where
  "compareConnections prev next' =
     (foldl pushEntry [] (concat (map (surplusEntries prev next') (comparedPositions prev next'))),
      foldl pushEntry [] (concat (map (surplusEntries next' prev) (comparedPositions prev next'))))"

section \<open>What the comparison finds\<close>

text \<open>The connections a result lists for a place.\<close>

definition diffRow :: "connections_diff \<Rightarrow> string \<Rightarrow> string \<Rightarrow> ConnectionEntry list" where
  "diffRow diff nodeName inputName =
     (case jget diff nodeName of None \<Rightarrow> [] | Some m \<Rightarrow> (case jget m inputName of None \<Rightarrow> [] | Some l \<Rightarrow> l))"

definition diffAt :: "connections_diff \<Rightarrow> string \<Rightarrow> string \<Rightarrow> nat \<Rightarrow> IConnection list" where
  "diffAt diff nodeName inputName i =
     map ce_connection (filter (\<lambda>e. ce_sourceIndex e = i) (diffRow diff nodeName inputName))"

definition some_list :: "'a list \<Rightarrow> 'a list option" where
  "some_list l = (if l = [] then None else Some l)"

lemma addValue_get:
  assumes "jget M c = some_list (filter (\<lambda>e. snd e = c) es)" and "jget M (snd e) = some_list (filter (\<lambda>x. snd x = snd e) es)"
  shows "jget (addValue M e) c = some_list (filter (\<lambda>e. snd e = c) (es @ [e]))"
proof (cases "filter (\<lambda>x. snd x = snd e) es = []")
  case True
  with assms show ?thesis by (auto simp: addValue_def some_list_def simp del: map_of_eq_Some_iff map_of_eq_None_iff)
next
  case False
  with assms show ?thesis by (auto simp: addValue_def some_list_def simp del: map_of_eq_Some_iff map_of_eq_None_iff)
qed

lemma groupByValue_get:
  "jget (groupByValue cs) c = some_list (filter (\<lambda>e. snd e = c) (List.enumerate 0 cs))"
  "jok (groupByValue cs)"
proof -
  have "jget (foldl addValue [] es) c = some_list (filter (\<lambda>e. snd e = c) es)" for es c
    by (induction es arbitrary: c rule: rev_induct) (simp add: some_list_def, simp add: addValue_get del: filter_append)
  moreover have "jok (foldl addValue M es)" if "jok M" for es M
    using that by (induction es arbitrary: M) (auto simp: addValue_def jok_jset split: option.splits)
  ultimately show "jget (groupByValue cs) c = some_list (filter (\<lambda>e. snd e = c) (List.enumerate 0 cs))"
    "jok (groupByValue cs)"
    unfolding groupByValue_def by simp_all
qed

lemma length_filter_enumerate: "length (filter (\<lambda>e. snd e = c) (List.enumerate n cs)) = count (mset cs) c"
  by (induction cs arbitrary: n) auto

lemma groupByValue_length:
  "(case jget (groupByValue cs) c of None \<Rightarrow> 0 | Some l \<Rightarrow> length l) = count (mset cs) c"
  using length_filter_enumerate[of c 0 cs] by (auto simp: groupByValue_get(1) some_list_def)

text \<open>One side's surplus is the difference of the multisets.\<close>

lemma mset_concat_disjoint:
  assumes "distinct (map fst m)" and "\<forall>(k, l) \<in> set m. \<forall>x \<in> set l. f x = k"
  shows "count (image_mset f (mset (concat (map (\<lambda>(k, l). drop (n k) l) m)))) c =
    (case jget m c of None \<Rightarrow> 0 | Some l \<Rightarrow> length l - n c)"
  using assms
proof (induction m)
  case (Cons e m)
  obtain k l where e: "e = (k, l)" by fastforce
  have l: "image_mset f (mset (drop (n k) l)) = replicate_mset (length l - n k) k"
  proof -
    have "x = k" if "x \<in> set (map f (drop (n k) l))" for x
      using Cons.prems(2) that e by (auto dest: in_set_dropD)
    then have "map f (drop (n k) l) = replicate (length l - n k) k" by (metis length_drop length_map replicate_length_same)
    then show ?thesis by (metis mset_map mset_replicate)
  qed
  have "jget m k = None" using Cons.prems(1) by (auto simp: e map_of_eq_None_iff)
  with Cons l show ?case by (auto simp: e)
qed simp

lemma mset_surplus: "mset (map snd (surplus others cs)) = mset cs - mset others"
proof (rule multiset_eqI)
  fix c
  have vals: "\<forall>(k, l) \<in> set (groupByValue cs). \<forall>x \<in> set l. snd x = k"
  proof (clarify)
    fix k l x y assume l: "(k, l) \<in> set (groupByValue cs)" "(x, y) \<in> set l"
    then have "jget (groupByValue cs) k = Some l" using groupByValue_get(2) by (simp add: map_of_eq_Some_iff)
    with l(2) have "(x, y) \<in> set (filter (\<lambda>e. snd e = k) (List.enumerate 0 cs))"
      unfolding groupByValue_get(1) some_list_def by (metis option.sel option.distinct(1))
    then show "snd (x, y) = k" by simp
  qed
  have "count (mset (map snd (surplus others cs))) c =
      (case jget (groupByValue cs) c of None \<Rightarrow> 0 | Some l \<Rightarrow> length l - count (mset others) c)"
    using mset_concat_disjoint[OF groupByValue_get(2) vals, of "count (mset others)" c]
    unfolding surplus_def groupByValue_length mset_map by simp
  also have "\<dots> = count (mset cs) c - count (mset others) c"
    unfolding groupByValue_length[of cs c, symmetric] by (simp split: option.split)
  finally show "count (mset (map snd (surplus others cs))) c = count (mset cs - mset others) c" by simp
qed

lemma diffRow_push:
  "diffRow (foldl pushEntry D es) n t =
     diffRow D n t @ map (snd \<circ> snd) (filter (\<lambda>(n', t', e). n' = n \<and> t' = t) es)"
proof (induction es arbitrary: D)
  case (Cons e es)
  obtain n' t' x where e: "e = (n', t', x)" by (cases e)
  have "diffRow (pushEntry D e) n t = diffRow D n t @ (if n' = n \<and> t' = t then [x] else [])"
    by (auto simp: e pushEntry_def diffRow_def Let_def split: option.splits)
  with Cons show ?case by (simp add: e)
qed simp

lemma diffAt_surplus:
  "diffAt (foldl pushEntry [] (concat (map (surplusEntries A B) ps))) n t i =
     concat (map (\<lambda>p. if p = (n, t, i) then map snd (surplus (connectionsAt A n t i) (connectionsAt B n t i)) else []) ps)"
proof (induction ps)
  case Nil
  then show ?case by (simp add: diffAt_def diffRow_def)
next
  case (Cons p ps)
  obtain n' t' i' where p: "p = (n', t', i')" by (cases p)
  let ?s = "surplus (connectionsAt A n' t' i') (connectionsAt B n' t' i')"
  have own: "map ce_connection (filter (\<lambda>e. ce_sourceIndex e = i)
      (map (snd \<circ> snd) (filter (\<lambda>(m, u, e). m = n \<and> u = t) (surplusEntries A B p)))) =
      (if p = (n, t, i) then map snd ?s else [])"
  proof -
    have "map ce_connection (filter (\<lambda>e. ce_sourceIndex e = i) (map (snd \<circ> snd) (filter (\<lambda>(m, u, e). m = n \<and> u = t)
        (map (\<lambda>(j, c). (n', t', \<lparr>ce_sourceIndex = i', ce_index = j, ce_connection = c\<rparr>)) xs)))) =
        (if p = (n, t, i) then map snd xs else [])" for xs :: "(nat \<times> IConnection) list"
      by (induction xs) (auto simp: p)
    then show ?thesis by (simp add: surplusEntries_def p)
  qed
  have split: "diffAt (foldl pushEntry [] (xs @ ys)) n t i =
      map ce_connection (filter (\<lambda>e. ce_sourceIndex e = i) (map (snd \<circ> snd) (filter (\<lambda>(m, u, e). m = n \<and> u = t) xs))) @
      diffAt (foldl pushEntry [] ys) n t i" for xs ys
    unfolding diffAt_def diffRow_push by (simp add: diffRow_def)
  have "diffAt (foldl pushEntry [] (concat (map (surplusEntries A B) (p # ps)))) n t i =
      (if p = (n, t, i) then map snd ?s else []) @
      diffAt (foldl pushEntry [] (concat (map (surplusEntries A B) ps))) n t i"
    using split[of "surplusEntries A B p"] unfolding own by simp
  with Cons show ?case by (auto simp: p)
qed

lemma distinct_concat_map:
  assumes "distinct xs" and "\<And>x. distinct (f x)" and "\<And>x y. y \<in> set (f x) \<Longrightarrow> g y = x"
  shows "distinct (concat (map f xs))"
  using assms(1)
proof (induction xs)
  case (Cons x xs)
  have "set (f x) \<inter> (\<Union>z \<in> set xs. set (f z)) = {}"
  proof (rule ccontr)
    assume "set (f x) \<inter> (\<Union>z \<in> set xs. set (f z)) \<noteq> {}"
    then obtain y z where "y \<in> set (f x)" "y \<in> set (f z)" "z \<in> set xs" by blast
    with assms(3)[of y x] assms(3)[of y z] Cons.prems show False by auto
  qed
  with Cons assms(2) show ?case by simp
qed simp

lemma distinct_comparedPositions: "distinct (comparedPositions prev next')"
  unfolding comparedPositions_def
proof (rule distinct_concat_map[where g = fst], simp)
  fix n show "distinct (concat (map (\<lambda>inputName. map (\<lambda>sourceIndex. (n, inputName, sourceIndex))
      [0..<max (length (rowsOf prev n inputName)) (length (rowsOf next' n inputName))])
      (set_add_all [] (jkeys (nodeConnections prev n) @ jkeys (nodeConnections next' n)))))"
    by (rule distinct_concat_map[where g = "\<lambda>p. fst (snd p)"]) (auto simp: distinct_map inj_on_def)
qed auto

lemma concat_only:
  assumes "distinct ps"
  shows "concat (map (\<lambda>p. if p = x then l else []) ps) = (if x \<in> set ps then l else [])"
  using assms by (induction ps) auto

lemma connectionsAt_outside:
  assumes "(n, t, i) \<notin> set (comparedPositions prev next')"
  shows "connectionsAt prev n t i = []" and "connectionsAt next' n t i = []"
proof -
  have "n \<notin> set (jkeys C) \<or> t \<notin> set (jkeys (nodeConnections C n)) \<or> length (rowsOf C n t) \<le> i" if "C = prev \<or> C = next'" for C
    using assms that unfolding comparedPositions_def by force
  moreover have "connectionsAt C n t i = []"
    if "n \<notin> set (jkeys C) \<or> t \<notin> set (jkeys (nodeConnections C n)) \<or> length (rowsOf C n t) \<le> i" for C
    using that unfolding connectionsAt_rows
    by (auto simp: rowsOf_def nodeConnections_def slot_get_def map_of_eq_None_iff[symmetric] split: option.splits
        simp flip: map_of_eq_None_iff)
  ultimately show "connectionsAt prev n t i = []" "connectionsAt next' n t i = []" by blast+
qed

lemma compared_surplus:
  "mset (diffAt (foldl pushEntry [] (concat (map (surplusEntries A B) (comparedPositions P Q)))) n t i) =
     (if (n, t, i) \<in> set (comparedPositions P Q) then mset (connectionsAt B n t i) - mset (connectionsAt A n t i) else {#})"
  unfolding diffAt_surplus concat_only[OF distinct_comparedPositions] by (simp add: mset_surplus del: mset_map)

lemma added_connections:
  "mset (diffAt (fst (compareConnections prev next')) n t i) =
     mset (connectionsAt next' n t i) - mset (connectionsAt prev n t i)"
  using connectionsAt_outside[of n t i prev next'] unfolding compareConnections_def fst_conv compared_surplus
  by (simp split: if_split)

lemma removed_connections:
  "mset (diffAt (snd (compareConnections prev next')) n t i) =
     mset (connectionsAt prev n t i) - mset (connectionsAt next' n t i)"
  using connectionsAt_outside[of n t i prev next'] unfolding compareConnections_def snd_conv compared_surplus
  by (simp split: if_split)

text \<open>The comparison is exact, duplicates included: at every output the added connections are the
  difference of the new ones and the old ones, and the removed ones the difference the other way round.\<close>

lemma compareConnections_exact:
  "mset (diffAt (fst (compareConnections prev next')) n t i) =
     mset (connectionsAt next' n t i) - mset (connectionsAt prev n t i) \<and>
   mset (diffAt (snd (compareConnections prev next')) n t i) =
     mset (connectionsAt prev n t i) - mset (connectionsAt next' n t i)"
  by (intro conjI added_connections removed_connections)

end
