(* ===== verification/Workflow_Diff.thy ===== *)
theory Workflow_Diff
  imports Connections_Diff "HOL-Library.Sublist"
begin

text \<open>
  \<^verbatim>\<open>packages/workflow/src/workflow-diff.ts\<close>: the comparison of two versions of a workflow and the compaction
  of a history of versions by rules. A node is a JavaScript object, a list of its properties; a version has
  the address \<open>dw_ref\<close>, since the code compares versions with \<^verbatim>\<open>===\<close>. \<^verbatim>\<open>isEqual\<close> is lodash's deep equality on
  JSON values, which does not depend on the order of properties.
\<close>

section \<open>Values\<close>

function isEqual :: "json \<Rightarrow> json \<Rightarrow> bool" where
  "isEqual (JArr xs) y = (case y of JArr ys \<Rightarrow> length xs = length ys \<and> list_all (\<lambda>(a, b). isEqual a b) (zip xs ys) | _ \<Rightarrow> False)"
| "isEqual (JObj ps) y = (case y of
     JObj qs \<Rightarrow> length ps = length qs \<and> list_all (\<lambda>(k, v). case jget qs k of None \<Rightarrow> False | Some u \<Rightarrow> isEqual v u) ps
   | _ \<Rightarrow> False)"
| "isEqual JNull y = (y = JNull)"
| "isEqual (JBool b) y = (y = JBool b)"
| "isEqual (JNum n) y = (y = JNum n)"
| "isEqual (JStr s) y = (y = JStr s)"
  by pat_completeness auto

lemma size_zip_member: "(a, b) \<in> set (zip xs ys) \<Longrightarrow> size a \<le> size_list size xs"
  by (auto dest!: set_zip_leftD intro: size_list_estimation')

lemma size_property_member: "(k, v) \<in> set ps \<Longrightarrow> size v \<le> size_list (size_prod (\<lambda>_. 0) size) ps"
  by (rule size_list_estimation'[of "(k, v)"]) (simp_all add: size_prod_simp)

termination isEqual
  by (relation "measure (\<lambda>(x, y). size x)")
    (auto simp: less_Suc_eq_le intro: size_zip_member size_property_member)

text \<open>\<^verbatim>\<open>stringContainsParts\<close> with its marker and early exit; \<^verbatim>\<open>substr[marker]\<close> past the end is \<^verbatim>\<open>undefined\<close>.\<close>

fun containsPartsLoop :: "int \<Rightarrow> string \<Rightarrow> nat \<Rightarrow> nat \<Rightarrow> string \<Rightarrow> bool" where
  "containsPartsLoop diffSize substr i marker [] \<longleftrightarrow> length substr \<le> marker"
| "containsPartsLoop diffSize substr i marker (c # rest) \<longleftrightarrow>
     (let marker' = (if marker < length substr \<and> substr ! marker = c then marker + 1 else marker)
      in if int i - int marker' > diffSize then False else containsPartsLoop diffSize substr (i + 1) marker' rest)"

definition stringContainsParts :: "string \<Rightarrow> string \<Rightarrow> bool" where
  "stringContainsParts s substr \<longleftrightarrow>
     (if length substr > length s then False
      else containsPartsLoop (int (length s) - int (length substr)) substr 0 0 s)"

text \<open>The keys of an array are its indices in decimal.\<close>

fun decimal :: "nat \<Rightarrow> string" where
  "decimal n = (if n < 10 then [char_of (n + 48)] else decimal (n div 10) @ [char_of (n mod 10 + 48)])"

declare decimal.simps [simp del]

definition arrayProperties :: "json list \<Rightarrow> (string \<times> json) list" where
  "arrayProperties vs = map (\<lambda>(i, v). (decimal i, v)) (List.enumerate 0 vs)"

definition properties :: "json \<Rightarrow> (string \<times> json) list" where
  "properties v = (case v of JObj ps \<Rightarrow> ps | JArr vs \<Rightarrow> arrayProperties vs | _ \<Rightarrow> [])"

function parametersAreSuperset :: "json \<Rightarrow> json \<Rightarrow> bool" where
  "parametersAreSuperset (JStr prev) y = (case y of JStr next' \<Rightarrow> stringContainsParts next' prev | _ \<Rightarrow> False)"
| "parametersAreSuperset (JBool b) y = (y = JBool b)"
| "parametersAreSuperset (JNum n) y = (y = JNum n)"
| "parametersAreSuperset JNull y = (y = JNull)"
| "parametersAreSuperset (JArr xs) y =
     (case y of JArr ys \<Rightarrow> length xs = length ys \<and> list_all (\<lambda>(a, b). parametersAreSuperset a b) (zip xs ys) | _ \<Rightarrow> False)"
| "parametersAreSuperset (JObj ps) y =
     (case y of
        JObj _ \<Rightarrow> length ps = length (properties y) \<and>
          list_all (\<lambda>(k, v). case jget (properties y) k of None \<Rightarrow> False | Some u \<Rightarrow> parametersAreSuperset v u) ps
      | JArr _ \<Rightarrow> length ps = length (properties y) \<and>
          list_all (\<lambda>(k, v). case jget (properties y) k of None \<Rightarrow> False | Some u \<Rightarrow> parametersAreSuperset v u) ps
      | _ \<Rightarrow> False)"
  by pat_completeness auto

termination parametersAreSuperset
  by (relation "measure (\<lambda>(x, y). size x)")
    (auto simp: less_Suc_eq_le intro: size_zip_member size_property_member)

text \<open>\<^verbatim>\<open>determineNodeSize\<close>: null, the empty string, 0 and false count one.\<close>

function determineNodeSize :: "json \<Rightarrow> nat" where
  "determineNodeSize (JStr s) = (if s = [] then 1 else length s)"
| "determineNodeSize (JArr vs) = 1 + sum_list (map determineNodeSize vs)"
| "determineNodeSize (JObj ps) = 1 + sum_list (map (\<lambda>(k, v). determineNodeSize v) ps)"
| "determineNodeSize JNull = 1"
| "determineNodeSize (JBool b) = 1"
| "determineNodeSize (JNum n) = 1"
  by pat_completeness auto

termination determineNodeSize
  by (relation "measure size")
    (auto simp: less_Suc_eq_le intro: size_list_estimation' size_property_member)

text \<open>The scan for parts is the subsequence relation.\<close>

lemma containsPartsLoop_subseq:
  assumes "diffSize = int (i + length rest) - int (length substr)" and "marker \<le> length substr"
  shows "containsPartsLoop diffSize substr i marker rest \<longleftrightarrow> subseq (drop marker substr) rest"
  using assms
proof (induction rest arbitrary: i marker)
  case Nil
  then show ?case by (cases "drop marker substr") auto
next
  case (Cons c rest)
  let ?m = "if marker < length substr \<and> substr ! marker = c then marker + 1 else marker"
  have m: "?m \<le> length substr" using Cons.prems(2) by simp
  have step: "subseq (drop marker substr) (c # rest) \<longleftrightarrow> subseq (drop ?m substr) rest"
  proof (cases "marker < length substr")
    case True
    then have "drop marker substr = substr ! marker # drop (Suc marker) substr" by (simp add: Cons_nth_drop_Suc)
    then show ?thesis using True by (auto simp: subseq_Cons2_iff)
  qed (use Cons.prems(2) in simp)
  show ?case
  proof (cases "int i - int ?m > diffSize")
    case True
    then have "length rest < length (drop ?m substr)" using Cons.prems(1) m by simp
    then have "\<not> subseq (drop ?m substr) rest" by (meson list_emb_length not_le)
    with True step show ?thesis by (simp add: Let_def)
  next
    case False
    have "containsPartsLoop diffSize substr (i + 1) ?m rest \<longleftrightarrow> subseq (drop ?m substr) rest"
      using Cons.prems(1) by (intro Cons.IH m) simp
    with False step show ?thesis by (simp add: Let_def)
  qed
qed

lemma stringContainsParts_iff: "stringContainsParts s substr \<longleftrightarrow> subseq substr s"
proof (cases "length substr > length s")
  case True
  then have "\<not> subseq substr s" by (meson list_emb_length not_le)
  with True show ?thesis by (simp add: stringContainsParts_def)
next
  case False
  then show ?thesis using containsPartsLoop_subseq[of _ 0 s substr 0] by (simp add: stringContainsParts_def)
qed

section \<open>Nodes\<close>

type_synonym DiffableNode = "(string \<times> json) list"

definition propsToCompare :: "string list" where
  "propsToCompare = [''name'', ''type'', ''typeVersion'', ''webhookId'', ''credentials'', ''parameters'', ''disabled'',
     ''notes'', ''notesInFlow'', ''onError'', ''continueOnFail'', ''retryOnFail'', ''maxTries'', ''waitBetweenTries'',
     ''alwaysOutputData'', ''executeOnce'']"

definition pick :: "DiffableNode \<Rightarrow> string list \<Rightarrow> DiffableNode" where
  "pick node props = List.map_filter (\<lambda>p. map_option (Pair p) (jget node p)) props"

definition compareNodes :: "DiffableNode \<Rightarrow> DiffableNode \<Rightarrow> bool" where
  "compareNodes base target = isEqual (JObj (pick base propsToCompare)) (JObj (pick target propsToCompare))"

datatype NodeDiffStatus = Eq | Modified | Added | Deleted

type_synonym WorkflowDiff = "(json option, NodeDiffStatus \<times> DiffableNode) jsmap"

definition node_key :: "DiffableNode \<Rightarrow> json option" where
  "node_key node = jget node ''id''"

definition nodesById :: "DiffableNode list \<Rightarrow> (json option, DiffableNode) jsmap" where
  "nodesById nodes = foldl (\<lambda>acc node. jset acc (node_key node) node) [] nodes"

definition nodeStatus :: "(json option, DiffableNode) jsmap \<Rightarrow> json option \<Rightarrow> DiffableNode \<Rightarrow> NodeDiffStatus" where
  "nodeStatus targetNodes key node =
     (case jget targetNodes key of
        None \<Rightarrow> Deleted
      | Some target \<Rightarrow> if \<not> compareNodes node target then Modified else Eq)"

definition compareWorkflowsNodes :: "DiffableNode list \<Rightarrow> DiffableNode list \<Rightarrow> WorkflowDiff" where
  "compareWorkflowsNodes base target =
     (let baseNodes = nodesById base; targetNodes = nodesById target;
          diff = foldl (\<lambda>d (key, node). jset d key (nodeStatus targetNodes key node, node)) [] baseNodes
      in foldl (\<lambda>d (key, node). if jget baseNodes key = None then jset d key (Added, node) else d) diff targetNodes)"

section \<open>Versions\<close>

record IWorkflowGroup =
  wg_id :: string
  wg_name :: string
  wg_description :: "string option"
  wg_nodeIds :: "string list"

record DiffableWorkflow =
  dw_ref :: nat
  dw_nodes :: "DiffableNode list"
  dw_connections :: IConnections
  dw_createdAt :: int
  dw_authors :: "string option"
  dw_nodeGroups :: "IWorkflowGroup list option"

record WorkflowChangeSet =
  cs_nodes :: WorkflowDiff
  cs_connections :: "connections_diff \<times> connections_diff"

definition newWorkflowChangeSet :: "DiffableWorkflow \<Rightarrow> DiffableWorkflow \<Rightarrow> WorkflowChangeSet" where
  "newWorkflowChangeSet from to' =
     (if dw_ref from = dw_ref to'
      then \<lparr>cs_nodes = foldl (\<lambda>m node. jset m (node_key node) (Eq, node)) [] (dw_nodes from), cs_connections = ([], [])\<rparr>
      else \<lparr>cs_nodes = compareWorkflowsNodes (dw_nodes from) (dw_nodes to'),
             cs_connections = compareConnections (dw_connections from) (dw_connections to')\<rparr>)"

section \<open>Rules\<close>

definition withParameters :: "DiffableNode \<Rightarrow> json \<Rightarrow> DiffableNode" where
  "withParameters node params = jset (jdel node ''parameters'') ''parameters'' params"

text \<open>A node without parameters has \<^verbatim>\<open>undefined\<close> there, which only another \<^verbatim>\<open>undefined\<close> equals.\<close>

definition nodeIsSuperset :: "DiffableNode \<Rightarrow> DiffableNode \<Rightarrow> bool" where
  "nodeIsSuperset prevNode nextNode =
     (if \<not> compareNodes (withParameters prevNode (JObj [])) (withParameters nextNode (JObj [])) then False
      else case (jget prevNode ''parameters'', jget nextNode ''parameters'') of
          (Some p, Some n) \<Rightarrow> parametersAreSuperset p n
        | (None, None) \<Rightarrow> True
        | _ \<Rightarrow> False)"

definition nodeGroupChangesAreAdditive :: "DiffableWorkflow \<Rightarrow> DiffableWorkflow \<Rightarrow> bool" where
  "nodeGroupChangesAreAdditive prev next' =
     (let groups = \<lambda>w. (case dw_nodeGroups w of None \<Rightarrow> [] | Some gs \<Rightarrow> gs);
          nextGroupsById = foldl (\<lambda>m g. jset m (wg_id g) g) [] (groups next')
      in list_all (\<lambda>prevGroup. case jget nextGroupsById (wg_id prevGroup) of
             None \<Rightarrow> False
           | Some nextGroup \<Rightarrow> wg_name nextGroup = wg_name prevGroup \<and> wg_description nextGroup = wg_description prevGroup \<and>
               list_all (\<lambda>i. i \<in> set (wg_nodeIds nextGroup)) (wg_nodeIds prevGroup)) (groups prev))"

text \<open>The loop over the node differences; false at the first that loses something.\<close>

fun additiveNodes :: "DiffableNode list \<Rightarrow> (NodeDiffStatus \<times> DiffableNode) list \<Rightarrow> bool result" where
  "additiveNodes nextNodes [] = Inr True"
| "additiveNodes nextNodes ((status, node) # ds) =
     (if status = Deleted then Inr False
      else if status = Added then additiveNodes nextNodes ds
      else case List.find (\<lambda>x. node_key x = node_key node) nextNodes of
          None \<Rightarrow> Inl (JsError ''invariant broken - no next node'')
        | Some nextNode \<Rightarrow>
            if status = Modified \<and> \<not> nodeIsSuperset node nextNode then Inr False else additiveNodes nextNodes ds)"

definition mergeAdditiveChanges :: "DiffableWorkflow \<Rightarrow> DiffableWorkflow \<Rightarrow> WorkflowChangeSet \<Rightarrow> bool result" where
  "mergeAdditiveChanges prev next' diff =
     (case additiveNodes (dw_nodes next') (jvalues (cs_nodes diff)) of
        Inl e \<Rightarrow> Inl e
      | Inr ok \<Rightarrow> Inr (ok \<and> length (jkeys (snd (cs_connections diff))) = 0 \<and> nodeGroupChangesAreAdditive prev next'))"

definition timeDifference :: "DiffableWorkflow \<Rightarrow> DiffableWorkflow \<Rightarrow> int" where
  "timeDifference prev next' = dw_createdAt next' - dw_createdAt prev"

definition skipTimeDifference :: "int \<Rightarrow> DiffableWorkflow \<Rightarrow> DiffableWorkflow \<Rightarrow> bool" where
  "skipTimeDifference timeDiffMs prev next' \<longleftrightarrow> \<bar>timeDifference prev next'\<bar> > timeDiffMs"

definition mergeShortTimeSpan :: "int \<Rightarrow> DiffableWorkflow \<Rightarrow> DiffableWorkflow \<Rightarrow> bool" where
  "mergeShortTimeSpan timeDiffMs prev next' \<longleftrightarrow> \<bar>timeDifference prev next'\<bar> < timeDiffMs"

text \<open>The rule for the greatest size below the workflow's; without a size no merge.\<close>

definition mergeDependingOnSize :: "(int \<times> int) list \<Rightarrow> DiffableWorkflow \<Rightarrow> DiffableWorkflow \<Rightarrow> int option \<Rightarrow> bool" where
  "mergeDependingOnSize mapping prev next' workflowSizeScore =
     (case workflowSizeScore of
        None \<Rightarrow> False
      | Some score \<Rightarrow>
          (case List.find (\<lambda>(count, _). score > count) (sort_key (\<lambda>(count, _). - count) mapping) of
             None \<Rightarrow> False
           | Some (_, time) \<Rightarrow> mergeShortTimeSpan time prev next'))"

definition skipDifferentUsers :: "DiffableWorkflow \<Rightarrow> DiffableWorkflow \<Rightarrow> bool" where
  "skipDifferentUsers prev next' \<longleftrightarrow> dw_authors next' \<noteq> dw_authors prev"

section \<open>Compaction\<close>

type_synonym DiffRule = "DiffableWorkflow \<Rightarrow> DiffableWorkflow \<Rightarrow> WorkflowChangeSet \<Rightarrow> int option \<Rightarrow> bool result"

definition determineNodeParametersSize :: "DiffableWorkflow \<Rightarrow> nat" where
  "determineNodeParametersSize w =
     sum_list (map (\<lambda>x. case jget x ''parameters'' of None \<Rightarrow> 1 | Some p \<Rightarrow> determineNodeSize p) (dw_nodes w))"

fun anyRule :: "DiffRule list \<Rightarrow> DiffableWorkflow \<Rightarrow> DiffableWorkflow \<Rightarrow> WorkflowChangeSet \<Rightarrow> int option \<Rightarrow> bool result" where
  "anyRule [] prev next' wcs metaData = Inr False"
| "anyRule (rule # rules) prev next' wcs metaData =
     (case rule prev next' wcs metaData of
        Inl e \<Rightarrow> Inl e
      | Inr b \<Rightarrow> if b then Inr True else anyRule rules prev next' wcs metaData)"

fun diffLoop :: "DiffRule list \<Rightarrow> DiffRule list \<Rightarrow> int option \<Rightarrow> nat \<Rightarrow> DiffableWorkflow list \<Rightarrow> DiffableWorkflow list \<Rightarrow>
    (DiffableWorkflow list \<times> DiffableWorkflow list) result" where
  "diffLoop rules skipRules metaData 0 remaining removed = Inr (removed, remaining)"
| "diffLoop rules skipRules metaData (Suc i) remaining removed =
     (let prev = remaining ! i; next' = remaining ! Suc i; wcs = newWorkflowChangeSet prev next'
      in case anyRule skipRules prev next' wcs metaData of
          Inl e \<Rightarrow> Inl e
        | Inr skip \<Rightarrow>
            if skip then diffLoop rules skipRules metaData i remaining removed
            else (case anyRule rules prev next' wcs metaData of
                    Inl e \<Rightarrow> Inl e
                  | Inr shouldMerge \<Rightarrow>
                      if shouldMerge
                      then diffLoop rules skipRules metaData i (take i remaining @ drop (Suc i) remaining) (removed @ [prev])
                      else diffLoop rules skipRules metaData i remaining removed))"

text \<open>The size of the latest version and of the one in the middle, when it is asked for.\<close>

definition workflowSizeScore :: "DiffableWorkflow list \<Rightarrow> bool \<Rightarrow> int option" where
  "workflowSizeScore workflows requested =
     (if requested
      then Some (int (max (determineNodeParametersSize (workflows ! (length workflows div 2)))
                          (determineNodeParametersSize (workflows ! (length workflows - 1)))))
      else None)"

definition groupWorkflows :: "DiffableWorkflow list \<Rightarrow> DiffRule list \<Rightarrow> DiffRule list \<Rightarrow> bool \<Rightarrow>
    (DiffableWorkflow list \<times> DiffableWorkflow list) result" where
  "groupWorkflows workflows rules skipRules sizeRequested =
     (if length workflows = 0 then Inr ([], [])
      else if length workflows = 1 then Inr ([], workflows)
      else diffLoop rules skipRules (workflowSizeScore workflows sizeRequested) (length workflows - 1) workflows [])"

section \<open>The differences of the nodes\<close>

lemma jget_foldl_jset:
  assumes "jok m"
  shows "jget (foldl (\<lambda>d (k, v). jset d k (f k v)) d m) key =
    (case jget m key of None \<Rightarrow> jget d key | Some v \<Rightarrow> Some (f key v))"
  using assms
proof (induction m arbitrary: d)
  case (Cons e m)
  obtain k v where e: "e = (k, v)" by fastforce
  with Cons.prems have "jget m k = None" by (auto simp: map_of_eq_None_iff)
  with Cons e show ?case by (auto split: option.split)
qed simp

lemma jget_foldl_jset_if:
  assumes "jok m"
  shows "jget (foldl (\<lambda>d (k, v). if P k then jset d k (f k v) else d) d m) key =
    (case jget m key of None \<Rightarrow> jget d key | Some v \<Rightarrow> if P key then Some (f key v) else jget d key)"
  using assms
proof (induction m arbitrary: d)
  case (Cons e m)
  obtain k v where e: "e = (k, v)" by fastforce
  with Cons.prems have "jget m k = None" by (auto simp: map_of_eq_None_iff)
  with Cons e show ?case by (auto split: option.split)
qed simp

lemma nodesById_get: "jget (nodesById nodes) key = List.find (\<lambda>node. node_key node = key) (rev nodes)"
  unfolding nodesById_def by (induction nodes rule: rev_induct) auto

lemma nodesById_ok: "jok (nodesById nodes)"
  unfolding nodesById_def by (induction nodes rule: rev_induct) (auto intro: jok_jset)

lemma compareWorkflowsNodes_get:
  "jget (compareWorkflowsNodes base target) key =
     (case (jget (nodesById base) key, jget (nodesById target) key) of
        (Some b, _) \<Rightarrow> Some (nodeStatus (nodesById target) key b, b)
      | (None, Some t) \<Rightarrow> Some (Added, t)
      | (None, None) \<Rightarrow> None)"
  unfolding compareWorkflowsNodes_def Let_def
  by (simp add: jget_foldl_jset jget_foldl_jset_if nodesById_ok del: map_of_eq_None_iff map_of_eq_Some_iff split: option.split)

lemma find_rev_distinct:
  assumes "distinct (map f xs)"
  shows "List.find (\<lambda>x. f x = k) (rev xs) = List.find (\<lambda>x. f x = k) xs"
proof (cases "List.find (\<lambda>x. f x = k) xs")
  case None
  then have "List.find (\<lambda>x. f x = k) (rev xs) = None" by (simp add: find_None_iff)
  with None show ?thesis by simp
next
  case (Some x)
  then have x: "x \<in> set xs" "f x = k" by (auto simp: find_Some_iff)
  have "List.find (\<lambda>x. f x = k) (rev xs) \<noteq> None" using x by (auto simp: find_None_iff)
  then obtain y where y: "List.find (\<lambda>x. f x = k) (rev xs) = Some y" by blast
  then have "y \<in> set xs" "f y = k" by (auto simp: find_Some_iff rev_nth)
  with x assms have "y = x" by (meson distinct_map inj_onD)
  with Some y show ?thesis by simp
qed

section \<open>Deep equality\<close>

lemma isEqual_superset: "isEqual x y \<Longrightarrow> parametersAreSuperset x y"
proof (induction x arbitrary: y rule: measure_induct_rule[of size])
  case (less x)
  show ?case
  proof (cases x)
    case (JArr xs)
    have sub: "parametersAreSuperset a b" if "(a, b) \<in> set (zip xs ys)" "isEqual a b" for a b ys
      using less.IH[OF _ that(2)] size_zip_member[OF that(1)] JArr by simp
    from less.prems JArr show ?thesis by (auto simp: list_all_iff split: json.splits intro: sub)
  next
    case (JObj ps)
    have sub: "parametersAreSuperset v u" if "(k, v) \<in> set ps" "isEqual v u" for k v u
      using less.IH[OF _ that(2)] size_property_member[OF that(1)] JObj by simp
    obtain qs where y: "y = JObj qs" using less.prems JObj by (cases y) simp_all
    with less.prems JObj sub show ?thesis by (fastforce simp: list_all_iff properties_def split: option.splits)
  qed (use less.prems in \<open>auto simp: stringContainsParts_iff\<close>)
qed

lemma isEqual_size: "isEqual (JObj ps) (JObj qs) \<Longrightarrow> length ps = length qs"
  by simp

text \<open>What equality of the picked properties says of one of them.\<close>

definition sameProp :: "DiffableNode \<Rightarrow> DiffableNode \<Rightarrow> string \<Rightarrow> bool" where
  "sameProp node node' p = (case (jget node p, jget node' p) of
     (None, None) \<Rightarrow> True | (Some v, Some u) \<Rightarrow> isEqual v u | _ \<Rightarrow> False)"

lemma pick_get: "jget (pick node props) p = (if p \<in> set props then jget node p else None)"
proof (induction props)
  case (Cons a props)
  then show ?case
    by (cases "jget node a") (auto simp: pick_def map_filter_simps simp del: map_of_eq_Some_iff map_of_eq_None_iff)
qed (simp add: pick_def map_filter_simps)

lemma pick_keys: "jkeys (pick node props) = filter (\<lambda>p. jget node p \<noteq> None) props"
  by (induction props) (auto simp: pick_def map_filter_simps simp del: map_of_eq_Some_iff split: option.splits)

lemma propsToCompare_distinct: "distinct propsToCompare"
  by (simp add: propsToCompare_def)

lemma ball_pair_iff: "(\<forall>x \<in> S. case x of (k, v) \<Rightarrow> P k v) \<longleftrightarrow> (\<forall>k v. (k, v) \<in> S \<longrightarrow> P k v)"
  by auto

lemma compareNodes_iff: "compareNodes node node' \<longleftrightarrow> (\<forall>p \<in> set propsToCompare. sameProp node node' p)"
proof -
  let ?P = "pick node propsToCompare" and ?Q = "pick node' propsToCompare"
  let ?K = "\<lambda>node. filter (\<lambda>p. jget node p \<noteq> None) propsToCompare"
  have dP: "distinct (map fst ?P)" and dQ: "distinct (map fst ?Q)"
    using propsToCompare_distinct by (simp_all add: pick_keys)
  have get: "jget (pick n propsToCompare) p = (if p \<in> set propsToCompare then jget n p else None)" for n p
    by (rule pick_get)
  have in_P: "(k, v) \<in> set ?P \<longleftrightarrow> k \<in> set propsToCompare \<and> jget node k = Some v" for k v
    using map_of_eq_Some_iff[OF dP, of k v] unfolding get by (auto split: if_splits)
  have eq: "compareNodes node node' \<longleftrightarrow> length ?P = length ?Q \<and>
      (\<forall>k v. k \<in> set propsToCompare \<longrightarrow> jget node k = Some v \<longrightarrow> (\<exists>u. jget node' k = Some u \<and> isEqual v u))"
    unfolding compareNodes_def isEqual.simps json.case list_all_iff ball_pair_iff in_P get
    by (fastforce split: option.splits)
  have len: "length (pick n propsToCompare) = length (?K n)" for n
    by (metis length_map pick_keys)
  show ?thesis
  proof
    assume c: "compareNodes node node'"
    then have some: "\<And>k v. k \<in> set propsToCompare \<Longrightarrow> jget node k = Some v \<Longrightarrow> \<exists>u. jget node' k = Some u \<and> isEqual v u"
      and l: "length (?K node) = length (?K node')" unfolding eq len by blast+
    have "set (?K node) \<subseteq> set (?K node')" using some by fastforce
    moreover have "card (set (?K n)) = length (?K n)" for n
      by (intro distinct_card distinct_filter propsToCompare_distinct)
    ultimately have "set (?K node) = set (?K node')" using l by (metis card_subset_eq finite_set)
    then have none: "\<And>k. k \<in> set propsToCompare \<Longrightarrow> jget node k = None \<Longrightarrow> jget node' k = None"
      by (metis (mono_tags, lifting) mem_Collect_eq set_filter)
    show "\<forall>p \<in> set propsToCompare. sameProp node node' p"
      using some none unfolding sameProp_def by (force split: option.split)
  next
    assume s: "\<forall>p \<in> set propsToCompare. sameProp node node' p"
    then have "?K node = ?K node'" by (intro filter_cong refl) (auto simp: sameProp_def split: option.splits)
    moreover have "\<exists>u. jget node' k = Some u \<and> isEqual v u" if "k \<in> set propsToCompare" "jget node k = Some v" for k v
      using bspec[OF s that(1)] that(2) by (auto simp: sameProp_def split: option.splits)
    ultimately show "compareNodes node node'" unfolding eq len by simp
  qed
qed

section \<open>Compaction keeps the content\<close>

text \<open>
  One version's content is kept in another: every node is there under its id with the same properties, and the
  parameters have only grown; at every output the connections are there, with their multiplicities; every group is
  there with its name, its description and its members.
\<close>

definition grownParameters :: "DiffableNode \<Rightarrow> DiffableNode \<Rightarrow> bool" where
  "grownParameters node node' = (case (jget node ''parameters'', jget node' ''parameters'') of
     (None, None) \<Rightarrow> True | (Some p, Some p') \<Rightarrow> parametersAreSuperset p p' | _ \<Rightarrow> False)"

definition nodeKept :: "DiffableNode \<Rightarrow> DiffableNode \<Rightarrow> bool" where
  "nodeKept node node' \<longleftrightarrow> node_key node' = node_key node \<and> grownParameters node node' \<and>
     (\<forall>p \<in> set propsToCompare - {''parameters''}. sameProp node node' p)"

definition groupKept :: "IWorkflowGroup \<Rightarrow> IWorkflowGroup \<Rightarrow> bool" where
  "groupKept g g' \<longleftrightarrow> wg_id g' = wg_id g \<and> wg_name g' = wg_name g \<and> wg_description g' = wg_description g \<and>
     set (wg_nodeIds g) \<subseteq> set (wg_nodeIds g')"

definition groupsOf :: "DiffableWorkflow \<Rightarrow> IWorkflowGroup list" where
  "groupsOf w = (case dw_nodeGroups w of None \<Rightarrow> [] | Some gs \<Rightarrow> gs)"

definition contentKept :: "DiffableWorkflow \<Rightarrow> DiffableWorkflow \<Rightarrow> bool" where
  "contentKept prev next' \<longleftrightarrow>
     (\<forall>node \<in> set (dw_nodes prev). \<exists>node' \<in> set (dw_nodes next'). nodeKept node node') \<and>
     (\<forall>n t i. mset (connectionsAt (dw_connections prev) n t i) \<subseteq># mset (connectionsAt (dw_connections next') n t i)) \<and>
     (\<forall>g \<in> set (groupsOf prev). \<exists>g' \<in> set (groupsOf next'). groupKept g g')"

lemma compareNodes_kept:
  assumes "compareNodes node node'" and "node_key node' = node_key node"
  shows "nodeKept node node'"
proof -
  have "sameProp node node' ''parameters''" using assms(1) by (simp add: compareNodes_iff propsToCompare_def)
  then have "grownParameters node node'"
    by (auto simp: sameProp_def grownParameters_def intro: isEqual_superset split: option.splits)
  with assms show ?thesis by (simp add: nodeKept_def compareNodes_iff)
qed

lemma nodeIsSuperset_kept:
  assumes "nodeIsSuperset node node'" and "node_key node' = node_key node"
  shows "nodeKept node node'"
proof -
  have get: "jget (withParameters n p) q = (if q = ''parameters'' then Some p else jget n q)" for n p q
    by (simp add: withParameters_def)
  have "compareNodes (withParameters node (JObj [])) (withParameters node' (JObj []))" and g: "grownParameters node node'"
    using assms(1) by (auto simp: nodeIsSuperset_def grownParameters_def split: if_splits option.splits)
  moreover have "sameProp (withParameters n p) (withParameters n' p') q = sameProp n n' q" if "q \<noteq> ''parameters''" for n n' p p' q
    using that by (simp add: sameProp_def get)
  ultimately have "\<forall>p \<in> set propsToCompare - {''parameters''}. sameProp node node' p"
    by (metis Diff_iff compareNodes_iff singletonI)
  with g assms(2) show ?thesis by (simp add: nodeKept_def)
qed

lemma additiveNodes_true:
  assumes "additiveNodes nodes ds = Inr True" and "(status, node) \<in> set ds"
  shows "status = Added \<or> (status \<noteq> Deleted \<and> (\<exists>node'. List.find (\<lambda>x. node_key x = node_key node) nodes = Some node' \<and>
    (status = Modified \<longrightarrow> nodeIsSuperset node node')))"
  using assms by (induction nodes ds rule: additiveNodes.induct) (auto split: if_splits option.splits)

lemma nodesById_distinct:
  assumes "distinct (map node_key nodes)"
  shows "jget (nodesById nodes) key = List.find (\<lambda>node. node_key node = key) nodes"
  unfolding nodesById_get by (rule find_rev_distinct[OF assms])

lemma mergeAdditive_nodes:
  assumes "additiveNodes (dw_nodes next') (jvalues (compareWorkflowsNodes (dw_nodes prev) (dw_nodes next'))) = Inr True"
    and "distinct (map node_key (dw_nodes prev))" and "distinct (map node_key (dw_nodes next'))"
    and "node \<in> set (dw_nodes prev)"
  shows "\<exists>node' \<in> set (dw_nodes next'). nodeKept node node'"
proof -
  let ?k = "node_key node"
  let ?D = "compareWorkflowsNodes (dw_nodes prev) (dw_nodes next')"
  have b: "jget (nodesById (dw_nodes prev)) ?k = Some node"
  proof -
    obtain x where x: "List.find (\<lambda>y. node_key y = ?k) (dw_nodes prev) = Some x"
      using assms(4) by (cases "List.find (\<lambda>y. node_key y = ?k) (dw_nodes prev)") (auto simp: find_None_iff)
    then have "x \<in> set (dw_nodes prev)" "node_key x = ?k" by (auto simp: find_Some_iff)
    then have "x = node" using assms(2,4) by (meson distinct_map inj_onD)
    with x show ?thesis by (simp only: nodesById_distinct[OF assms(2)])
  qed
  let ?s = "nodeStatus (nodesById (dw_nodes next')) ?k node"
  have "jget ?D ?k = Some (?s, node)" unfolding compareWorkflowsNodes_get b by simp
  then have "(?s, node) \<in> set (jvalues ?D)" by (metis map_of_SomeD image_eqI set_map snd_conv)
  from additiveNodes_true[OF assms(1) this]
  obtain node' where n: "List.find (\<lambda>x. node_key x = ?k) (dw_nodes next') = Some node'"
    and s: "?s \<noteq> Deleted" "?s = Modified \<longrightarrow> nodeIsSuperset node node'"
    by (auto simp: nodeStatus_def split: option.splits if_splits)
  from n have "node' \<in> set (dw_nodes next')" "node_key node' = ?k" by (auto simp: find_Some_iff)
  moreover have "compareNodes node node' \<or> nodeIsSuperset node node'"
    using s n by (auto simp: nodeStatus_def nodesById_distinct[OF assms(3)] split: if_splits)
  ultimately show ?thesis using compareNodes_kept nodeIsSuperset_kept by blast
qed

lemma no_removed_connections:
  assumes "length (jkeys (snd (compareConnections C D))) = 0"
  shows "mset (connectionsAt C n t i) \<subseteq># mset (connectionsAt D n t i)"
proof -
  have "snd (compareConnections C D) = []" using assms by simp
  then have "diffAt (snd (compareConnections C D)) n t i = []" by (simp add: diffAt_def diffRow_def)
  then have "mset (connectionsAt C n t i) - mset (connectionsAt D n t i) = {#}"
    using removed_connections[of C D n t i] by simp
  then show ?thesis by (simp add: Diff_eq_empty_iff_mset)
qed

lemma groupsById_get:
  "jget (foldl (\<lambda>m g. jset m (wg_id g) g) [] gs) i = Some g \<Longrightarrow> g \<in> set gs \<and> wg_id g = i"
  by (induction gs rule: rev_induct) (auto split: if_splits simp del: map_of_eq_Some_iff)

lemma nodeGroupChanges_kept:
  assumes "nodeGroupChangesAreAdditive prev next'" and "g \<in> set (groupsOf prev)"
  shows "\<exists>g' \<in> set (groupsOf next'). groupKept g g'"
proof -
  obtain g' where g': "jget (foldl (\<lambda>m g. jset m (wg_id g) g) [] (groupsOf next')) (wg_id g) = Some g'"
    and k: "wg_name g' = wg_name g" "wg_description g' = wg_description g" "\<forall>i \<in> set (wg_nodeIds g). i \<in> set (wg_nodeIds g')"
    using assms unfolding nodeGroupChangesAreAdditive_def groupsOf_def[symmetric] Let_def list_all_iff
    by (auto split: option.splits simp del: map_of_eq_Some_iff)
  from groupsById_get[OF g'] k show ?thesis unfolding groupKept_def by blast
qed

lemma mergeAdditive_kept:
  assumes "mergeAdditiveChanges prev next' (newWorkflowChangeSet prev next') = Inr True"
    and "dw_ref prev \<noteq> dw_ref next'"
    and "distinct (map node_key (dw_nodes prev))" and "distinct (map node_key (dw_nodes next'))"
  shows "contentKept prev next'"
proof -
  from assms(1,2) have a: "additiveNodes (dw_nodes next') (jvalues (compareWorkflowsNodes (dw_nodes prev) (dw_nodes next'))) = Inr True"
    and c: "length (jkeys (snd (compareConnections (dw_connections prev) (dw_connections next')))) = 0"
    and g: "nodeGroupChangesAreAdditive prev next'"
    by (auto simp: mergeAdditiveChanges_def newWorkflowChangeSet_def split: sum.splits)
  show ?thesis unfolding contentKept_def
    using mergeAdditive_nodes[OF a assms(3,4)] no_removed_connections[OF c] nodeGroupChanges_kept[OF g] by blast
qed

section \<open>Compaction as a fold from the right\<close>

definition merges :: "DiffRule list \<Rightarrow> DiffRule list \<Rightarrow> int option \<Rightarrow> DiffableWorkflow \<Rightarrow> DiffableWorkflow \<Rightarrow> bool result" where
  "merges rules skipRules metaData prev next' =
     (case anyRule skipRules prev next' (newWorkflowChangeSet prev next') metaData of
        Inl e \<Rightarrow> Inl e
      | Inr True \<Rightarrow> Inr False
      | Inr False \<Rightarrow> anyRule rules prev next' (newWorkflowChangeSet prev next') metaData)"

fun compactOnto :: "(DiffableWorkflow \<Rightarrow> DiffableWorkflow \<Rightarrow> bool result) \<Rightarrow> DiffableWorkflow list \<Rightarrow>
    DiffableWorkflow list \<times> DiffableWorkflow list \<Rightarrow> (DiffableWorkflow list \<times> DiffableWorkflow list) result" where
  "compactOnto merge [] s = Inr s"
| "compactOnto merge (w # ws) s =
     (case compactOnto merge ws s of
        Inl e \<Rightarrow> Inl e
      | Inr (removed, kept) \<Rightarrow>
          (case merge w (hd kept) of
             Inl e \<Rightarrow> Inl e
           | Inr b \<Rightarrow> Inr (if b then (removed @ [w], kept) else (removed, w # kept))))"

lemma compactOnto_snoc:
  "compactOnto merge (ws @ [w]) (removed, kept) =
     (case merge w (hd kept) of
        Inl e \<Rightarrow> Inl e
      | Inr b \<Rightarrow> compactOnto merge ws (if b then (removed @ [w], kept) else (removed, w # kept)))"
  by (induction ws) (auto split: sum.splits)

lemma diffLoop_compactOnto:
  assumes "kept \<noteq> []"
  shows "diffLoop rules skipRules md (length ws) (ws @ kept) removed =
    compactOnto (merges rules skipRules md) ws (removed, kept)"
  using assms
proof (induction ws arbitrary: kept removed rule: rev_induct)
  case (snoc w ws)
  have at: "(ws @ w # kept) ! length ws = w" "(ws @ w # kept) ! Suc (length ws) = hd kept"
    using snoc.prems by (simp_all add: nth_append hd_conv_nth)
  note IH = snoc.IH[of "w # kept"] snoc.IH[OF snoc.prems]
  show ?case
    using IH by (simp add: compactOnto_snoc at Let_def merges_def split: sum.split bool.split)
qed simp

lemma groupWorkflows_compactOnto:
  "groupWorkflows ws rules skipRules sz =
     (if ws = [] then Inr ([], [])
      else compactOnto (merges rules skipRules (workflowSizeScore ws sz)) (butlast ws) ([], [last ws]))"
proof (cases ws rule: rev_cases)
  case (snoc ys y)
  then show ?thesis
    using diffLoop_compactOnto[of "[y]" rules skipRules "workflowSizeScore ws sz" ys "[]"]
    by (cases "ys = []") (simp_all add: groupWorkflows_def)
qed (simp add: groupWorkflows_def)

text \<open>The compaction is a fold from the latest version to the oldest: every version is compared with the
  oldest one kept so far, and dropped exactly when no skip rule and some merge rule holds of the two; the loop that
  splices the array while it counts down skips no pair, and a rule that throws ends it.\<close>

lemma groupWorkflows_right_fold:
  "groupWorkflows ws rules skipRules sz =
     (if ws = [] then Inr ([], [])
      else compactOnto (merges rules skipRules (workflowSizeScore ws sz)) (butlast ws) ([], [last ws]))"
  by (rule groupWorkflows_compactOnto)

lemma compactOnto_keeps:
  assumes "compactOnto merge ws ([], [l]) = Inr (removed, kept)"
  shows "kept \<noteq> []" and "last kept = l" and "subseq kept (ws @ [l])" and "mset removed + mset kept = mset (ws @ [l])"
  using assms by (induction ws arbitrary: removed kept)
    (fastforce split: sum.splits prod.splits if_splits)+

lemma compactOnto_removed:
  assumes "compactOnto merge ws ([], [l]) = Inr (removed, kept)" and "distinct (map f (ws @ [l]))"
  shows "\<forall>p \<in> set removed. \<exists>n \<in> set kept. merge p n = Inr True \<and> f p \<noteq> f n"
  using assms
proof (induction ws arbitrary: removed kept)
  case (Cons w ws)
  then obtain r k b where c: "compactOnto merge ws ([], [l]) = Inr (r, k)" and b: "merge w (hd k) = Inr b"
    and res: "(removed, kept) = (if b then (r @ [w], k) else (r, w # k))"
    by (auto split: sum.splits)
  note IH = Cons.IH[OF c] and k = compactOnto_keeps[OF c]
  have "hd k \<in> set (ws @ [l])" using list_emb_set[OF k(3) hd_in_set[OF k(1)]] by metis
  then have "f w \<noteq> f (hd k)" using Cons.prems(2) by auto
  with IH Cons.prems(2) res b k(1) show ?case by (auto split: if_splits)
qed simp

lemma merges_additive:
  assumes "merges [\<lambda>prev next' diff md. mergeAdditiveChanges prev next' diff] skipRules md p n = Inr True"
  shows "mergeAdditiveChanges p n (newWorkflowChangeSet p n) = Inr True" and
    "anyRule skipRules p n (newWorkflowChangeSet p n) md = Inr False"
  using assms by (auto simp: merges_def split: sum.splits bool.splits if_splits)


definition exampleVersion1 :: DiffableWorkflow where
  "exampleVersion1 = \<lparr>dw_ref = 1,
     dw_nodes = [[(''id'', JStr ''1''), (''name'', JStr ''A''), (''parameters'', JObj [(''code'', JStr ''ab'')])]],
     dw_connections = [], dw_createdAt = 10, dw_authors = Some ''u'', dw_nodeGroups = None\<rparr>"

definition exampleVersion2 :: DiffableWorkflow where
  "exampleVersion2 = \<lparr>dw_ref = 2,
     dw_nodes = [[(''id'', JStr ''1''), (''name'', JStr ''A''), (''parameters'', JObj [(''code'', JStr ''axb'')])],
       [(''id'', JStr ''2''), (''name'', JStr ''B''), (''parameters'', JObj [])]],
     dw_connections = [(''A'', [(''main'', [Value [\<lparr>con_node = ''B'', con_type = ''main'', con_index = 0\<rparr>]])])],
     dw_createdAt = 20, dw_authors = Some ''u'', dw_nodeGroups = None\<rparr>"


text \<open>The scan for parts with one marker and an early exit decides whether one string is a subsequence of the
  other. The comment above it says \<^verbatim>\<open>abcd\<close> is not contained in \<^verbatim>\<open>abcde\<close>; by the code, and as a subsequence, it is.\<close>

lemma stringContainsParts_subsequence:
  "(stringContainsParts s substr \<longleftrightarrow> subseq substr s) \<and> stringContainsParts ''abcde'' ''abcd''"
  by (simp add: stringContainsParts_iff)

text \<open>An empty object counts as contained in an empty array: only keys and their number are compared.\<close>

lemma empty_object_contained_in_array: "parametersAreSuperset (JObj []) (JArr [])"
  by (simp add: properties_def arrayProperties_def)

section \<open>Changes that matter to other callers\<close>

text \<open>\<^verbatim>\<open>isEqual\<close> on connections: objects by key, arrays by position.\<close>

definition mapEqual :: "('v \<Rightarrow> 'v \<Rightarrow> bool) \<Rightarrow> ('k, 'v) jsmap \<Rightarrow> ('k, 'v) jsmap \<Rightarrow> bool" where
  "mapEqual eq m n \<longleftrightarrow> length m = length n \<and> list_all (\<lambda>(k, v). case jget n k of None \<Rightarrow> False | Some u \<Rightarrow> eq v u) m"

definition connectionsEqual :: "IConnections \<Rightarrow> IConnections \<Rightarrow> bool" where
  "connectionsEqual = mapEqual (mapEqual (=))"

definition hasNonPositionalChanges :: "DiffableNode list \<Rightarrow> DiffableNode list \<Rightarrow> IConnections \<Rightarrow> IConnections \<Rightarrow> bool" where
  "hasNonPositionalChanges oldNodes newNodes oldConnections newConnections =
     (if list_ex (\<lambda>(status, _). status \<noteq> Eq) (jvalues (compareWorkflowsNodes oldNodes newNodes)) then True
      else if \<not> connectionsEqual oldConnections newConnections then True
      else False)"

text \<open>The credentials of a node, an object with an entry per type; \<^verbatim>\<open>credentials ?? {}\<close> and \<^verbatim>\<open>creds[credType]?.id\<close>.\<close>

definition credentialsOf :: "DiffableNode \<Rightarrow> (string \<times> json) list" where
  "credentialsOf node = (case jget node ''credentials'' of Some (JObj creds) \<Rightarrow> creds | _ \<Rightarrow> [])"

definition credentialId :: "(string \<times> json) list \<Rightarrow> string \<Rightarrow> json option" where
  "credentialId creds credType = (case jget creds credType of Some (JObj ps) \<Rightarrow> jget ps ''id'' | _ \<Rightarrow> None)"

definition nodeCredentialsChanged :: "(string \<times> json) list \<Rightarrow> (string \<times> json) list \<Rightarrow> bool" where
  "nodeCredentialsChanged oldCreds newCreds =
     (list_ex (\<lambda>credType. jget newCreds credType = None \<or> credentialId oldCreds credType \<noteq> credentialId newCreds credType)
        (jkeys oldCreds) \<or>
      list_ex (\<lambda>credType. jget oldCreds credType = None) (jkeys newCreds))"

definition hasCredentialChanges :: "DiffableNode list \<Rightarrow> DiffableNode list \<Rightarrow> bool" where
  "hasCredentialChanges oldNodes newNodes =
     list_ex (\<lambda>oldNode. case jget (nodesById newNodes) (node_key oldNode) of
          None \<Rightarrow> False
        | Some newNode \<Rightarrow> nodeCredentialsChanged (credentialsOf oldNode) (credentialsOf newNode)) oldNodes"

text \<open>Without changes, every old node is in the new version and the other way round, with equal properties.\<close>

lemma unchanged_nodes:
  assumes "\<not> hasNonPositionalChanges oldNodes newNodes C D"
    and "distinct (map node_key oldNodes)" and "distinct (map node_key newNodes)"
  shows "node_key ` set oldNodes = node_key ` set newNodes"
    and "node \<in> set oldNodes \<Longrightarrow> node' \<in> set newNodes \<Longrightarrow> node_key node = node_key node' \<Longrightarrow> compareNodes node node'"
proof -
  let ?D = "compareWorkflowsNodes oldNodes newNodes"
  have eq: "s = Eq" if "jget ?D k = Some (s, n)" for k s n
  proof -
    have "(s, n) \<in> set (jvalues ?D)" using map_of_SomeD[OF that] by force
    then show ?thesis using assms(1) by (auto simp: hasNonPositionalChanges_def list_ex_iff split: if_splits)
  qed
  have found: "List.find (\<lambda>y. node_key y = node_key x) ns = Some x" if "x \<in> set ns" "distinct (map node_key ns)" for x ns
  proof (cases "List.find (\<lambda>y. node_key y = node_key x) ns")
    case None
    then show ?thesis using that(1) by (auto simp: find_None_iff)
  next
    case (Some y)
    then have "y \<in> set ns" "node_key y = node_key x" by (auto simp: find_Some_iff)
    with that have "y = x" by (meson distinct_map inj_onD)
    with Some show ?thesis by simp
  qed
  note get = compareWorkflowsNodes_get[of oldNodes newNodes, unfolded nodesById_distinct[OF assms(2)] nodesById_distinct[OF assms(3)]]
  have old: "\<exists>m. List.find (\<lambda>y. node_key y = node_key n) newNodes = Some m \<and> compareNodes n m" if "n \<in> set oldNodes" for n
  proof -
    have "jget ?D (node_key n) = Some (nodeStatus (nodesById newNodes) (node_key n) n, n)"
      unfolding get found[OF that assms(2)] by simp
    from eq[OF this] show ?thesis
      by (auto simp: nodeStatus_def nodesById_distinct[OF assms(3)] split: option.splits if_splits)
  qed
  have new: "node_key n \<in> node_key ` set oldNodes" if "n \<in> set newNodes" for n
  proof (rule ccontr)
    assume "\<not> ?thesis"
    then have "List.find (\<lambda>y. node_key y = node_key n) oldNodes = None" unfolding find_None_iff by (metis image_eqI)
    then have "jget ?D (node_key n) = Some (Added, n)" unfolding get found[OF that assms(3)] by simp
    from eq[OF this] show False by simp
  qed
  show "node_key ` set oldNodes = node_key ` set newNodes"
  proof (intro equalityI subsetI)
    fix k assume "k \<in> node_key ` set oldNodes"
    then obtain n where n: "n \<in> set oldNodes" "k = node_key n" by blast
    from old[OF n(1)] obtain m where "List.find (\<lambda>y. node_key y = node_key n) newNodes = Some m" by blast
    then have "m \<in> set newNodes" "node_key m = node_key n" by (auto simp: find_Some_iff)
    with n(2) show "k \<in> node_key ` set newNodes" by (metis image_eqI)
  qed (use new in blast)
  show "compareNodes node node'" if "node \<in> set oldNodes" "node' \<in> set newNodes" "node_key node = node_key node'"
    using old[OF that(1)] found[OF that(2) assms(3)] that(3) by simp
qed

end
