(* ===== verification/Wait_Tracker.thy ===== *)
theory Wait_Tracker
  imports Concurrency_Queue
begin

text \<open>
  \<^verbatim>\<open>packages/cli/src/wait-tracker.ts\<close>: the executions that wait for a point in time, with a timer each, on the
  main instance that leads. The timers of the event loop are part of the state (\<^verbatim>\<open>setTimeout\<close>, \<^verbatim>\<open>setInterval\<close>,
  \<^verbatim>\<open>clearTimeout\<close>); the answers of the database, of the project lookup and of the workflow runner are
  parameters. The code up to the first \<^verbatim>\<open>await\<close> of a function and the code between two of them is one step.
\<close>

section \<open>The state\<close>

datatype TimerTask = Interval int int | Timeout int string

record WaitingExecution =
  we_executionId :: string
  we_timer :: nat

record WaitTracker =
  wt_waitingExecutions :: "(string, WaitingExecution) jsmap"
  wt_mainTimer :: "nat option"
  wt_timers :: "(nat, TimerTask) jsmap"
  wt_nextTimer :: nat
  wt_now :: int
  wt_queries :: nat
  wt_started :: "string list"

definition newWaitTracker :: WaitTracker where
  "newWaitTracker = \<lparr>wt_waitingExecutions = [], wt_mainTimer = None, wt_timers = [], wt_nextTimer = 1, wt_now = 0,
     wt_queries = 0, wt_started = []\<rparr>"

text \<open>A delay below one millisecond is one millisecond.\<close>

definition setTimeout :: "WaitTracker \<Rightarrow> string \<Rightarrow> int \<Rightarrow> WaitTracker \<times> nat" where
  "setTimeout s i delay =
     (s\<lparr>wt_timers := jset (wt_timers s) (wt_nextTimer s) (Timeout (wt_now s + max 1 delay) i),
        wt_nextTimer := wt_nextTimer s + 1\<rparr>, wt_nextTimer s)"

definition setInterval :: "WaitTracker \<Rightarrow> int \<Rightarrow> WaitTracker \<times> nat" where
  "setInterval s p =
     (s\<lparr>wt_timers := jset (wt_timers s) (wt_nextTimer s) (Interval p (wt_now s + p)),
        wt_nextTimer := wt_nextTimer s + 1\<rparr>, wt_nextTimer s)"

definition clearTimer :: "WaitTracker \<Rightarrow> nat \<Rightarrow> WaitTracker" where
  "clearTimer s t = s\<lparr>wt_timers := jdel (wt_timers s) t\<rparr>"

section \<open>The operations\<close>

definition has :: "WaitTracker \<Rightarrow> string \<Rightarrow> bool" where
  "has s executionId \<longleftrightarrow> jget (wt_waitingExecutions s) executionId \<noteq> None"

text \<open>\<^verbatim>\<open>getWaitingExecutions\<close> up to the query.\<close>

definition getWaitingExecutions :: "WaitTracker \<Rightarrow> WaitTracker" where
  "getWaitingExecutions s = s\<lparr>wt_queries := wt_queries s + 1\<rparr>"

definition startTracking :: "WaitTracker \<Rightarrow> WaitTracker" where
  "startTracking s =
     (let (s1, timer) = setInterval s 60000
      in getWaitingExecutions (s1\<lparr>wt_mainTimer := Some timer\<rparr>))"

definition initTracking :: "WaitTracker \<Rightarrow> bool \<Rightarrow> WaitTracker" where
  "initTracking s isLeader = (if isLeader then startTracking s else s)"

text \<open>\<^verbatim>\<open>getWaitingExecutions\<close> with the answer of the query: identifiers and the times to wait for.\<close>

definition trackExecution :: "WaitTracker \<Rightarrow> string \<times> int \<Rightarrow> WaitTracker" where
  "trackExecution s execution =
     (case execution of (executionId, waitTill) \<Rightarrow>
        if jget (wt_waitingExecutions s) executionId = None
        then let (s1, timer) = setTimeout s executionId (waitTill - wt_now s)
             in s1\<lparr>wt_waitingExecutions := jset (wt_waitingExecutions s1) executionId
                  \<lparr>we_executionId = executionId, we_timer = timer\<rparr>\<rparr>
        else s)"

definition waitingExecutionsFound :: "WaitTracker \<Rightarrow> (string \<times> int) list \<Rightarrow> WaitTracker" where
  "waitingExecutionsFound s executions =
     (let s1 = s\<lparr>wt_queries := wt_queries s - 1\<rparr>
      in if length executions = 0 then s1 else foldl trackExecution s1 executions)"

definition stopExecution :: "WaitTracker \<Rightarrow> string \<Rightarrow> WaitTracker" where
  "stopExecution s executionId =
     (case jget (wt_waitingExecutions s) executionId of
        None \<Rightarrow> s
      | Some w \<Rightarrow>
          let s1 = clearTimer s (we_timer w)
          in s1\<lparr>wt_waitingExecutions := jdel (wt_waitingExecutions s1) executionId\<rparr>)"

text \<open>\<^verbatim>\<open>startExecution\<close> up to the lookup of the execution; \<open>wt_started\<close> is the order of the calls.\<close>

definition startExecution :: "WaitTracker \<Rightarrow> string \<Rightarrow> WaitTracker" where
  "startExecution s executionId =
     s\<lparr>wt_waitingExecutions := jdel (wt_waitingExecutions s) executionId, wt_started := wt_started s @ [executionId]\<rparr>"

definition stopTracking :: "WaitTracker \<Rightarrow> WaitTracker" where
  "stopTracking s =
     (case wt_mainTimer s of
        None \<Rightarrow> s
      | Some m \<Rightarrow> foldl (\<lambda>s1 w. clearTimer s1 (we_timer w)) (clearTimer s m) (jvalues (wt_waitingExecutions s)))"

section \<open>The life of a tracker\<close>

datatype tracker_event =
    Takeover | Stepdown | Polled nat | Answered "(string \<times> int) list" | Elapsed nat | Stopped string | Resumed string | Passed int

inductive tracker_step :: "WaitTracker \<Rightarrow> tracker_event \<Rightarrow> WaitTracker \<Rightarrow> bool" where
  takeover: "tracker_step s Takeover (startTracking s)"
| stepdown: "tracker_step s Stepdown (stopTracking s)"
| polled: "jget (wt_timers s) t = Some (Interval p d) \<Longrightarrow> d \<le> wt_now s \<Longrightarrow>
    tracker_step s (Polled t) (getWaitingExecutions (s\<lparr>wt_timers := jset (wt_timers s) t (Interval p (d + p))\<rparr>))"
| answered: "0 < wt_queries s \<Longrightarrow> tracker_step s (Answered executions) (waitingExecutionsFound s executions)"
| elapsed: "jget (wt_timers s) t = Some (Timeout d i) \<Longrightarrow> d \<le> wt_now s \<Longrightarrow>
    tracker_step s (Elapsed t) (startExecution (clearTimer s t) i)"
| stopped: "has s i \<Longrightarrow> tracker_step s (Stopped i) (stopExecution s i)"
| resumed: "tracker_step s (Resumed i) (startExecution s i)"
| passed: "0 \<le> d \<Longrightarrow> tracker_step s (Passed d) (s\<lparr>wt_now := wt_now s + d\<rparr>)"

inductive_cases tracker_stepE: "tracker_step s e t"

inductive_simps tracker_step_simps [simp]:
  "tracker_step s Takeover t" "tracker_step s Stepdown t" "tracker_step s (Polled n) t" "tracker_step s (Answered es) t"
  "tracker_step s (Elapsed n) t" "tracker_step s (Stopped i) t" "tracker_step s (Resumed i) t" "tracker_step s (Passed d) t"

definition steps_without :: "(tracker_event \<Rightarrow> bool) \<Rightarrow> WaitTracker \<Rightarrow> WaitTracker \<Rightarrow> bool" where
  "steps_without excluded s t \<longleftrightarrow> (\<exists>e. \<not> excluded e \<and> tracker_step s e t)"

text \<open>A leader that keeps the lead, whose executions are resumed by their timers only.\<close>

definition leading_step :: "WaitTracker \<Rightarrow> WaitTracker \<Rightarrow> bool" where
  "leading_step = steps_without (\<lambda>e. e = Stepdown \<or> (\<exists>i. e = Resumed i))"

section \<open>One timer for every tracked execution\<close>

definition tracker_ok :: "WaitTracker \<Rightarrow> bool" where
  "tracker_ok s \<longleftrightarrow>
     (\<forall>t x. jget (wt_timers s) t = Some x \<longrightarrow> t < wt_nextTimer s) \<and>
     (\<forall>i w. jget (wt_waitingExecutions s) i = Some w \<longrightarrow>
        we_executionId w = i \<and> (\<exists>d. jget (wt_timers s) (we_timer w) = Some (Timeout d i))) \<and>
     (\<forall>t d i. jget (wt_timers s) t = Some (Timeout d i) \<longrightarrow>
        (\<exists>w. jget (wt_waitingExecutions s) i = Some w \<and> we_timer w = t))"

lemma tracker_okD:
  assumes "tracker_ok s"
  shows "jget (wt_timers s) t = Some x \<Longrightarrow> t < wt_nextTimer s"
    and "jget (wt_waitingExecutions s) i = Some w \<Longrightarrow>
      we_executionId w = i \<and> (\<exists>d. jget (wt_timers s) (we_timer w) = Some (Timeout d i))"
    and "jget (wt_timers s) t = Some (Timeout d i) \<Longrightarrow> \<exists>w. jget (wt_waitingExecutions s) i = Some w \<and> we_timer w = t"
  using assms unfolding tracker_ok_def by blast+

lemma tracker_okI:
  assumes "\<And>t x. jget (wt_timers s) t = Some x \<Longrightarrow> t < wt_nextTimer s"
    and "\<And>i w. jget (wt_waitingExecutions s) i = Some w \<Longrightarrow>
      we_executionId w = i \<and> (\<exists>d. jget (wt_timers s) (we_timer w) = Some (Timeout d i))"
    and "\<And>t d i. jget (wt_timers s) t = Some (Timeout d i) \<Longrightarrow>
      \<exists>w. jget (wt_waitingExecutions s) i = Some w \<and> we_timer w = t"
  shows "tracker_ok s"
  using assms unfolding tracker_ok_def by blast

lemmas tracker_defs = setTimeout_def setInterval_def clearTimer_def getWaitingExecutions_def Let_def

lemma fresh_timer: "tracker_ok s \<Longrightarrow> jget (wt_timers s) (wt_nextTimer s) = None"
  using tracker_okD(1) by (cases "jget (wt_timers s) (wt_nextTimer s)") blast+

lemma trackExecution_ok:
  assumes "tracker_ok s"
  shows "tracker_ok (trackExecution s e)"
proof (cases e)
  case (Pair i due)
  note ok = tracker_okD[OF assms] and fresh = fresh_timer[OF assms]
  show ?thesis
  proof (rule tracker_okI, goal_cases)
    case (1 t x)
    then show ?case using ok(1)[of t x]
      by (auto simp: Pair trackExecution_def tracker_defs less_Suc_eq simp del: map_of_eq_Some_iff map_of_eq_None_iff split: if_splits)
  next
    case (2 j w)
    then show ?case using ok(2)[of j w] fresh
      by (auto simp: Pair trackExecution_def tracker_defs simp del: map_of_eq_Some_iff map_of_eq_None_iff split: if_splits)
  next
    case (3 t d j)
    then show ?case using ok(3)[of t d j]
      by (auto simp: Pair trackExecution_def tracker_defs simp del: map_of_eq_Some_iff map_of_eq_None_iff split: if_splits)
  qed
qed

lemma waitingExecutionsFound_ok: "tracker_ok s \<Longrightarrow> tracker_ok (waitingExecutionsFound s es)"
proof -
  assume "tracker_ok s"
  then have "tracker_ok (s\<lparr>wt_queries := wt_queries s - 1\<rparr>)" by (simp add: tracker_ok_def)
  moreover have "tracker_ok (foldl trackExecution u es)" if "tracker_ok u" for u
    using that by (induction es arbitrary: u) (simp_all add: trackExecution_ok)
  ultimately show ?thesis by (simp add: waitingExecutionsFound_def Let_def)
qed

lemma untimed_ok:
  assumes "tracker_ok s" and "jget (wt_waitingExecutions s) i = Some w"
    and "wt_timers u = jdel (wt_timers s) (we_timer w)" "wt_waitingExecutions u = jdel (wt_waitingExecutions s) i"
    and "wt_nextTimer u = wt_nextTimer s"
  shows "tracker_ok u"
proof -
  note ok = tracker_okD[OF assms(1)]
  show ?thesis
  proof (rule tracker_okI, goal_cases)
    case (1 t x)
    then show ?case using ok(1)[of t x] assms by (auto simp del: map_of_eq_Some_iff map_of_eq_None_iff split: if_splits)
  next
    case (2 j v)
    then have j: "j \<noteq> i" "jget (wt_waitingExecutions s) j = Some v" using assms(4) by (auto split: if_splits)
    with ok(2)[OF j(2)] ok(2)[OF assms(2)] have "we_timer v \<noteq> we_timer w" by auto
    with ok(2)[OF j(2)] assms(3) show ?case by simp
  next
    case (3 t d j)
    then have t: "t \<noteq> we_timer w" "jget (wt_timers s) t = Some (Timeout d j)" using assms(3) by (auto split: if_splits)
    with ok(3)[OF t(2)] assms(2) have "j \<noteq> i" by auto
    with ok(3)[OF t(2)] assms(4) show ?case by simp
  qed
qed

lemma stopExecution_ok: "tracker_ok s \<Longrightarrow> tracker_ok (stopExecution s i)"
  by (cases "jget (wt_waitingExecutions s) i")
    (simp_all add: stopExecution_def tracker_defs untimed_ok[where s = s] del: map_of_eq_Some_iff map_of_eq_None_iff)

lemma elapsed_ok:
  assumes "tracker_ok s" and "jget (wt_timers s) t = Some (Timeout d i)"
  shows "tracker_ok (startExecution (clearTimer s t) i)"
proof -
  obtain w where w: "jget (wt_waitingExecutions s) i = Some w" "we_timer w = t" using tracker_okD(3)[OF assms] by blast
  show ?thesis
    by (rule untimed_ok[OF assms(1) w(1)]) (simp_all add: startExecution_def clearTimer_def w(2))
qed

lemma interval_ok:
  assumes "tracker_ok s" and "jget (wt_timers s) t = None \<or> (\<exists>p d. jget (wt_timers s) t = Some (Interval p d))"
    and "wt_timers u = jset (wt_timers s) t (Interval p' d')" and "wt_waitingExecutions u = wt_waitingExecutions s"
    and "wt_nextTimer s \<le> wt_nextTimer u" and "t < wt_nextTimer u"
  shows "tracker_ok u"
proof -
  note ok = tracker_okD[OF assms(1)]
  show ?thesis
  proof (rule tracker_okI, goal_cases)
    case (1 r x)
    then show ?case using ok(1)[of r x] assms(3,5,6) by (auto simp del: map_of_eq_Some_iff map_of_eq_None_iff split: if_splits)
  next
    case (2 j v)
    then have "jget (wt_waitingExecutions s) j = Some v" using assms(4) by simp
    from ok(2)[OF this] show ?case using assms(2,3) by (auto simp del: map_of_eq_Some_iff map_of_eq_None_iff)
  next
    case (3 r d j)
    then show ?case using ok(3)[of r d j] assms(3,4) by (auto simp del: map_of_eq_Some_iff split: if_splits)
  qed
qed

lemma leading_step_ok:
  assumes "tracker_ok s" and "leading_step s t"
  shows "tracker_ok t"
proof -
  obtain e where e: "e \<noteq> Stepdown" "\<And>i. e \<noteq> Resumed i" and st: "tracker_step s e t"
    using assms(2) unfolding leading_step_def steps_without_def by blast
  from st show ?thesis
  proof (cases rule: tracker_step.cases)
    case takeover
    show ?thesis unfolding takeover(2)
      by (rule interval_ok[OF assms(1), where t = "wt_nextTimer s"])
        (simp_all add: startTracking_def tracker_defs fresh_timer[OF assms(1)] del: map_of_eq_None_iff)
  next
    case (polled r p d)
    show ?thesis unfolding polled(2)
      by (rule interval_ok[OF assms(1), where t = r])
        (use polled(3) tracker_okD(1)[OF assms(1)] in \<open>simp_all add: tracker_defs del: map_of_eq_Some_iff\<close>)
  next
    case (passed d)
    then show ?thesis using assms(1) by (simp add: tracker_ok_def)
  qed (use e assms(1) waitingExecutionsFound_ok stopExecution_ok elapsed_ok in auto)
qed

interpretation leader: step_system newWaitTracker leading_step tracker_ok
  by unfold_locales (simp add: tracker_ok_def newWaitTracker_def, rule leading_step_ok)



section \<open>A leader that steps down\<close>

definition tracker_main :: "WaitTracker \<Rightarrow> bool" where
  "tracker_main s \<longleftrightarrow> wt_mainTimer s \<noteq> None \<or> (wt_waitingExecutions s = [] \<and> wt_queries s = 0 \<and> wt_timers s = [])"

lemma foldl_trackExecution_main [simp]: "wt_mainTimer (foldl trackExecution s es) = wt_mainTimer s"
  by (induction es arbitrary: s) (auto simp: trackExecution_def tracker_defs)

lemma leading_step_main:
  assumes "tracker_ok s \<and> tracker_main s" and "leading_step s t"
  shows "tracker_ok t \<and> tracker_main t"
proof -
  obtain e where e: "e \<noteq> Stepdown" "\<And>i. e \<noteq> Resumed i" and st: "tracker_step s e t"
    using assms(2) unfolding leading_step_def steps_without_def by blast
  have main: "wt_mainTimer s \<noteq> None \<or> (wt_waitingExecutions s = [] \<and> wt_queries s = 0 \<and> wt_timers s = [])"
    using assms(1) by (simp add: tracker_main_def)
  from st have "tracker_main t"
    by (cases rule: tracker_step.cases) (use e main in \<open>auto simp: tracker_main_def startTracking_def tracker_defs waitingExecutionsFound_def
      stopExecution_def startExecution_def split: option.splits\<close>)
  with assms leading_step_ok show ?thesis by blast
qed

interpretation led: step_system newWaitTracker leading_step "\<lambda>s. tracker_ok s \<and> tracker_main s"
  by unfold_locales (simp add: tracker_ok_def tracker_main_def newWaitTracker_def, rule leading_step_main)

definition untimed :: "string \<Rightarrow> WaitTracker \<Rightarrow> bool" where
  "untimed i s \<longleftrightarrow> has s i \<and> (\<forall>t d. jget (wt_timers s) t \<noteq> Some (Timeout d i))"

lemma clearTimer_simps [simp]:
  "wt_waitingExecutions (clearTimer s t) = wt_waitingExecutions s" "wt_started (clearTimer s t) = wt_started s"
  "wt_timers (clearTimer s t) = jdel (wt_timers s) t"
  by (simp_all add: clearTimer_def)

lemma foldl_clearTimer:
  "wt_waitingExecutions (foldl (\<lambda>u w. clearTimer u (we_timer w)) s ws) = wt_waitingExecutions s"
  "wt_started (foldl (\<lambda>u w. clearTimer u (we_timer w)) s ws) = wt_started s"
  "jget (wt_timers (foldl (\<lambda>u w. clearTimer u (we_timer w)) s ws)) t =
     (if t \<in> we_timer ` set ws then None else jget (wt_timers s) t)"
  by (induction ws arbitrary: s) (auto simp: clearTimer_def simp del: map_of_eq_Some_iff map_of_eq_None_iff)

lemma stopTracking_facts:
  "wt_waitingExecutions (stopTracking s) = wt_waitingExecutions s" "wt_started (stopTracking s) = wt_started s"
  "jget (wt_timers (stopTracking s)) t = Some x \<Longrightarrow> jget (wt_timers s) t = Some x"
  by (auto simp: stopTracking_def foldl_clearTimer simp del: map_of_eq_Some_iff map_of_eq_None_iff
      split: option.splits if_splits)

lemma stopTracking_untimed:
  assumes "tracker_ok s" and "tracker_main s" and "has s i"
  shows "untimed i (stopTracking s)"
proof -
  obtain m where m: "wt_mainTimer s = Some m" using assms(2,3) by (auto simp: tracker_main_def has_def)
  have "jget (wt_timers (stopTracking s)) t \<noteq> Some (Timeout d i)" for t d
  proof
    assume a: "jget (wt_timers (stopTracking s)) t = Some (Timeout d i)"
    from tracker_okD(3)[OF assms(1) stopTracking_facts(3)[OF a]]
    obtain w where w: "jget (wt_waitingExecutions s) i = Some w" "we_timer w = t" by blast
    from map_of_SomeD[OF w(1)] have "w \<in> set (jvalues (wt_waitingExecutions s))" by force
    then have "t \<in> we_timer ` set (jvalues (wt_waitingExecutions s))" using w(2) by blast
    then have "jget (wt_timers (stopTracking s)) t = None"
      by (simp add: stopTracking_def m foldl_clearTimer del: map_of_eq_None_iff)
    with a show False by simp
  qed
  with assms(3) show ?thesis by (simp add: untimed_def has_def stopTracking_facts(1))
qed

lemma trackExecution_untimed: "untimed i s \<Longrightarrow> untimed i (trackExecution s e) \<and> wt_started (trackExecution s e) = wt_started s"
  by (cases e) (auto simp: untimed_def has_def trackExecution_def tracker_defs simp del: map_of_eq_Some_iff map_of_eq_None_iff)

lemma foldl_trackExecution_untimed:
  "untimed i s \<Longrightarrow> untimed i (foldl trackExecution s es) \<and> wt_started (foldl trackExecution s es) = wt_started s"
  by (induction es arbitrary: s) (simp_all add: trackExecution_untimed)

lemma untimed_step:
  assumes "untimed i s" and "tracker_step s e t" and "e \<noteq> Stopped i" and "e \<noteq> Resumed i"
  shows "untimed i t \<and> count_list (wt_started t) i = count_list (wt_started s) i"
  using assms(2)
proof (cases rule: tracker_step.cases)
  case (answered es)
  have "untimed i (s\<lparr>wt_queries := wt_queries s - 1\<rparr>)" using assms(1) by (simp add: untimed_def has_def)
  with foldl_trackExecution_untimed[OF this, of es] show ?thesis by (simp add: answered waitingExecutionsFound_def Let_def)
next
  case stepdown
  with assms(1) stopTracking_facts show ?thesis unfolding untimed_def has_def by metis
next
  case (stopped j)
  with assms(1,3) show ?thesis
    by (auto simp: untimed_def has_def stopExecution_def tracker_defs simp del: map_of_eq_Some_iff map_of_eq_None_iff split: option.splits)
qed (use assms in \<open>auto simp: untimed_def has_def startTracking_def tracker_defs startExecution_def
    simp del: map_of_eq_Some_iff map_of_eq_None_iff\<close>)

text \<open>C30: A leader that steps down clears the timers of the executions it tracks and keeps their entries. Whatever
  happens next, taking over again and finding the execution in the database included, no timer is ever set for such an
  execution and it is not started, as long as it is not stopped or resumed by other means.\<close>

theorem stepdown_loses_executions:
  assumes "leading_step\<^sup>*\<^sup>* newWaitTracker s" and "has s i"
    and "(steps_without (\<lambda>e. e = Stopped i \<or> e = Resumed i))\<^sup>*\<^sup>* (stopTracking s) t"
  shows "has t i \<and> \<not> (\<exists>r d. jget (wt_timers t) r = Some (Timeout d i)) \<and>
    count_list (wt_started t) i = count_list (wt_started s) i"
proof -
  have ok: "tracker_ok s" "tracker_main s" using led.inv_reachable[OF assms(1)] by blast+
  from assms(3) have "untimed i t \<and> count_list (wt_started t) i = count_list (wt_started s) i"
  proof (induction rule: rtranclp_induct)
    case base
    show ?case using stopTracking_untimed[OF ok assms(2)] by (simp add: stopTracking_facts(2))
  next
    case (step u v)
    then obtain e where "tracker_step u e v" "e \<noteq> Stopped i" "e \<noteq> Resumed i" unfolding steps_without_def by blast
    with step.IH untimed_step show ?case by metis
  qed
  then show ?thesis by (simp add: untimed_def del: map_of_eq_Some_iff)
qed

definition exampleTracker :: WaitTracker where
  "exampleTracker = waitingExecutionsFound (startTracking newWaitTracker) [(''1'', 50)]"

lemma exampleTracker_leading: "leading_step\<^sup>*\<^sup>* newWaitTracker exampleTracker"
proof -
  have "leading_step newWaitTracker (startTracking newWaitTracker)"
    unfolding leading_step_def steps_without_def by (rule exI[of _ Takeover]) simp
  moreover have "leading_step (startTracking newWaitTracker) exampleTracker"
    unfolding leading_step_def steps_without_def exampleTracker_def
    by (rule exI[of _ "Answered [(''1'', 50)]"]) (auto simp: startTracking_def tracker_defs newWaitTracker_def)
  ultimately show ?thesis by simp
qed

text \<open>The leader comes back, finds the execution again, and time passes.\<close>

lemma stepdown_loses_executions_witness:
  "has (waitingExecutionsFound (startTracking (stopTracking exampleTracker)) [(''1'', 50)]) ''1'' \<and>
   \<not> (\<exists>r d. jget (wt_timers (waitingExecutionsFound (startTracking (stopTracking exampleTracker)) [(''1'', 50)])) r =
     Some (Timeout d ''1''))"
proof -
  let ?R = "steps_without (\<lambda>e. e = Stopped ''1'' \<or> e = Resumed ''1'')"
  let ?t = "waitingExecutionsFound (startTracking (stopTracking exampleTracker)) [(''1'', 50)]"
  have h: "has exampleTracker ''1''" by code_simp
  have "?R (stopTracking exampleTracker) (startTracking (stopTracking exampleTracker))"
    unfolding steps_without_def by (rule exI[of _ Takeover]) simp
  moreover have "?R (startTracking (stopTracking exampleTracker)) ?t"
    unfolding steps_without_def by (rule exI[of _ "Answered [(''1'', 50)]"]) (simp add: startTracking_def tracker_defs)
  ultimately have "?R\<^sup>*\<^sup>* (stopTracking exampleTracker) ?t" by simp
  from stepdown_loses_executions[OF exampleTracker_leading h this] show ?thesis by blast
qed

text \<open>An execution that is resumed directly, by its child, loses its entry and keeps its timer.\<close>

lemma direct_resume_leaves_timer:
  assumes "leading_step\<^sup>*\<^sup>* newWaitTracker s" and "has s i"
  shows "\<not> has (startExecution s i) i \<and> (\<exists>t d. jget (wt_timers (startExecution s i)) t = Some (Timeout d i))"
proof -
  obtain w where "jget (wt_waitingExecutions s) i = Some w" using assms(2) by (auto simp: has_def)
  from tracker_okD(2)[OF _ this] led.inv_reachable[OF assms(1)] show ?thesis
    by (auto simp: has_def startExecution_def simp del: map_of_eq_Some_iff)
qed

section \<open>Resuming\<close>

record RelatedExecution =
  re_executionId :: string
  re_workflowId :: string
  re_shouldResume :: "bool option"

definition shouldRestartParentExecution :: "RelatedExecution option \<Rightarrow> bool" where
  "shouldRestartParentExecution parentExecution =
     (case parentExecution of
        None \<Rightarrow> False
      | Some p \<Rightarrow> (case re_shouldResume p of None \<Rightarrow> True | Some b \<Rightarrow> b))"

record FullExecution =
  fe_finished :: bool
  fe_workflowId :: "string option"
  fe_parentExecution :: "RelatedExecution option"

text \<open>
  \<^verbatim>\<open>startExecution\<close> from the lookup on: the answers of the database, of the project lookup and of
  \<^verbatim>\<open>workflowRunner.run\<close> are arguments. The result is the parent to resume when the execution has ended.
\<close>

definition runWaiting :: "js_error + FullExecution option \<Rightarrow> js_error option \<Rightarrow> js_error option \<Rightarrow>
    RelatedExecution option result" where
  "runWaiting found projectError runError =
     (case found of
        Inl e \<Rightarrow> Inl e
      | Inr None \<Rightarrow> Inl (UnexpectedError ''Execution does not exist.'')
      | Inr (Some ex) \<Rightarrow>
          if fe_finished ex then Inl (UnexpectedError ''The execution did succeed and can so not be started again.'')
          else if fe_workflowId ex = None \<or> fe_workflowId ex = Some [] then Inl (UnexpectedError ''Only saved workflows can be resumed.'')
          else case projectError of
              Some e \<Rightarrow> Inl e
            | None \<Rightarrow>
                (case runError of
                   Some e \<Rightarrow> if e = ExecutionAlreadyResumingError then Inr None else Inl e
                 | None \<Rightarrow> Inr (if shouldRestartParentExecution (fe_parentExecution ex) then fe_parentExecution ex else None)))"

definition MAX_PARENT_RESUME_ATTEMPTS :: nat where
  "MAX_PARENT_RESUME_ATTEMPTS = 3"

definition isRetryableResumeError :: "js_error \<Rightarrow> bool" where
  "isRetryableResumeError e = (case e of UserError _ \<Rightarrow> False | UnexpectedError _ \<Rightarrow> False | _ \<Rightarrow> True)"

text \<open>The outcome of every attempt is given; the result has the error that is thrown, the number of attempts and
  the milliseconds slept between them.\<close>

function withRetry :: "(nat \<Rightarrow> js_error option) \<Rightarrow> nat \<Rightarrow> (js_error \<Rightarrow> bool) \<Rightarrow> nat \<Rightarrow> nat \<Rightarrow>
    js_error option \<times> nat \<times> nat" where
  "withRetry operation maxAttempts shouldRetry attempt slept =
     (case operation attempt of
        None \<Rightarrow> (None, attempt, slept)
      | Some e \<Rightarrow>
          if maxAttempts \<le> attempt \<or> \<not> shouldRetry e then (Some e, attempt, slept)
          else withRetry operation maxAttempts shouldRetry (attempt + 1) (slept + 100 * 2 ^ (attempt - 1)))"
  by pat_completeness auto

termination withRetry
  by (relation "measure (\<lambda>(_, maxAttempts, _, attempt, _). maxAttempts - attempt)") auto

declare withRetry.simps [simp del]

text \<open>\<^verbatim>\<open>resumeParentExecution\<close> never rejects: the result counts the attempts of its two steps and has the error
  that is logged. \<open>awaited\<close> is what the promise of the child execution gives, with the status of the run.\<close>

definition resumeParentExecution :: "js_error + string option \<Rightarrow> (nat \<Rightarrow> js_error option) \<Rightarrow> (nat \<Rightarrow> js_error option) \<Rightarrow>
    nat \<times> nat \<times> js_error option" where
  "resumeParentExecution awaited update start =
     (case awaited of
        Inl e \<Rightarrow> (0, 0, Some e)
      | Inr None \<Rightarrow> (0, 0, None)
      | Inr (Some status) \<Rightarrow>
          if status = ''waiting'' then (0, 0, None)
          else case withRetry update MAX_PARENT_RESUME_ATTEMPTS isRetryableResumeError 1 0 of
              (Some e, n, _) \<Rightarrow> (n, 0, Some e)
            | (None, n, _) \<Rightarrow>
                (case withRetry start MAX_PARENT_RESUME_ATTEMPTS isRetryableResumeError 1 0 of
                   (r, m, _) \<Rightarrow> (n, m, r)))"

lemma withRetry_spec:
  "withRetry operation maxAttempts shouldRetry attempt slept = (r, n, z) \<Longrightarrow>
     attempt \<le> n \<and> n \<le> max attempt maxAttempts \<and> r = operation n \<and>
     (\<forall>k. attempt \<le> k \<and> k < n \<longrightarrow> (\<exists>e. operation k = Some e \<and> shouldRetry e)) \<and>
     (r = None \<or> maxAttempts \<le> n \<or> \<not> shouldRetry (the r))"
proof (induction operation maxAttempts shouldRetry attempt slept rule: withRetry.induct)
  case (1 operation maxAttempts shouldRetry attempt slept)
  note unf = withRetry.simps[of operation maxAttempts shouldRetry attempt slept]
  show ?case
  proof (cases "\<exists>e. operation attempt = Some e \<and> \<not> (maxAttempts \<le> attempt \<or> \<not> shouldRetry e)")
    case True
    then obtain e where e: "operation attempt = Some e" "\<not> (maxAttempts \<le> attempt \<or> \<not> shouldRetry e)" by blast
    with "1.prems" unf have "withRetry operation maxAttempts shouldRetry (attempt + 1) (slept + 100 * 2 ^ (attempt - 1)) = (r, n, z)"
      by simp
    note IH = "1.IH"[OF e this]
    have "\<exists>e. operation k = Some e \<and> shouldRetry e" if "attempt \<le> k" "k < n" for k
      using IH e that by (cases "k = attempt") auto
    with IH e(2) show ?thesis by auto
  next
    case False
    with "1.prems" unf have "n = attempt" "r = operation attempt" "r = None \<or> maxAttempts \<le> n \<or> \<not> shouldRetry (the r)"
      by (auto split: option.splits if_splits)
    then show ?thesis by auto
  qed
qed

text \<open>The pauses double: after n attempts starting from the first they add up to \<open>100 * (2 ^ (n - 1) - 1)\<close>.\<close>

lemma withRetry_slept:
  "withRetry operation maxAttempts shouldRetry attempt slept = (r, n, z) \<Longrightarrow> 0 < attempt \<Longrightarrow>
     z + 100 * 2 ^ (attempt - 1) = slept + 100 * 2 ^ (n - 1)"
proof (induction operation maxAttempts shouldRetry attempt slept rule: withRetry.induct)
  case (1 operation maxAttempts shouldRetry attempt slept)
  have "(2::nat) ^ attempt = 2 * 2 ^ (attempt - 1)" using 1(3) by (cases attempt) simp_all
  moreover note unf = withRetry.simps[of operation maxAttempts shouldRetry attempt slept]
  ultimately show ?case using 1 by (cases "operation attempt") (auto split: if_splits)
qed

text \<open>C35: Resuming a parent takes at most three attempts to write the child's results and at most three to start it;
  starting is tried only when the results are written, only errors worth it are retried, and an error is logged only
  after the third attempt or for an error not worth a retry; it is the error of the last attempt.\<close>

theorem resumeParentExecution_bounded:
  assumes "resumeParentExecution (Inr (Some status)) update start = (n, m, logged)" and "status \<noteq> ''waiting''"
  shows "1 \<le> n \<and> n \<le> 3 \<and> m \<le> 3 \<and> (m = 0 \<longleftrightarrow> update n \<noteq> None) \<and>
    logged = (if m = 0 then update n else start m) \<and>
    (\<forall>k. 1 \<le> k \<and> k < n \<longrightarrow> (\<exists>e. update k = Some e \<and> isRetryableResumeError e)) \<and>
    (\<forall>k. 1 \<le> k \<and> k < m \<longrightarrow> (\<exists>e. start k = Some e \<and> isRetryableResumeError e)) \<and>
    (logged = None \<or> \<not> isRetryableResumeError (the logged) \<or> (if m = 0 then n else m) = 3)"
proof -
  obtain r n' z where u: "withRetry update MAX_PARENT_RESUME_ATTEMPTS isRetryableResumeError 1 0 = (r, n', z)" by (metis prod_cases3)
  obtain r' m' z' where st: "withRetry start MAX_PARENT_RESUME_ATTEMPTS isRetryableResumeError 1 0 = (r', m', z')" by (metis prod_cases3)
  note U = withRetry_spec[OF u, unfolded MAX_PARENT_RESUME_ATTEMPTS_def]
  note S = withRetry_spec[OF st, unfolded MAX_PARENT_RESUME_ATTEMPTS_def]
  have n: "n = n'" using assms by (auto simp: resumeParentExecution_def u st simp del: One_nat_def split: option.splits)
  show ?thesis
  proof (cases r)
    case None
    then have "m = m'" "logged = r'" using assms by (auto simp: resumeParentExecution_def u st simp del: One_nat_def)
    with U S n None show ?thesis by auto
  next
    case (Some e)
    then have "m = 0" "logged = Some e" using assms by (auto simp: resumeParentExecution_def u st simp del: One_nat_def)
    with U n Some show ?thesis by auto
  qed
qed

lemma resumeParentExecution_bounded_witness:
  "resumeParentExecution (Inr (Some ''success'')) (\<lambda>k. if k = 1 then Some (OperationalError ''busy'') else None)
     (\<lambda>k. Some (UserError ''no'')) = (2, 1, Some (UserError ''no'')) \<and> \<not> isRetryableResumeError (UserError ''no'')"
proof -
  have r: "resumeParentExecution (Inr (Some ''success'')) (\<lambda>k. if k = 1 then Some (OperationalError ''busy'') else None)
     (\<lambda>k. Some (UserError ''no'')) = (2, 1, Some (UserError ''no''))"
    by (simp add: resumeParentExecution_def withRetry.simps MAX_PARENT_RESUME_ATTEMPTS_def isRetryableResumeError_def)
  from resumeParentExecution_bounded[OF r] r show ?thesis by simp
qed

text \<open>The errors \<^verbatim>\<open>startExecution\<close> raises for an execution that cannot be resumed are not retried, and one that is being
  resumed already counts as a success without a parent to resume.\<close>

lemma runWaiting_errors:
  "runWaiting (Inr None) pe re = Inl e \<Longrightarrow> \<not> isRetryableResumeError e"
  "fe_finished ex \<Longrightarrow> runWaiting (Inr (Some ex)) pe re = Inl e \<Longrightarrow> \<not> isRetryableResumeError e"
  "\<not> fe_finished ex \<Longrightarrow> fe_workflowId ex = Some (c # cs) \<Longrightarrow>
     runWaiting (Inr (Some ex)) None (Some ExecutionAlreadyResumingError) = Inr None"
  by (auto simp: runWaiting_def isRetryableResumeError_def)

end
