(* ===== verification/Active_Executions.thy ===== *)
theory Active_Executions
  imports Concurrency_Control Workflow_Model
begin

text \<open>
  \<^verbatim>\<open>packages/cli/src/active-executions.ts\<close>: the executions of one process. The objects of the class are kept in a
  store and the map \<^verbatim>\<open>activeExecutions\<close> has their addresses, since the reaction to the end of an execution works on
  the object it was made for while the map may have another one by then. A promise is pending or settled once. The
  code between two \<^verbatim>\<open>await\<close>s is one step; the reaction that \<open>add\<close> hangs on the promise is a step of its own. What
  the database answers is an argument, and the streamed output is not modelled.
\<close>

section \<open>Statuses\<close>

text \<open>\<^verbatim>\<open>packages/workflow/src/execution-status.ts\<close>; the list of all statuses is the enumeration of the type.\<close>

datatype ExecutionStatus = Canceled | Crashed | Error | New | Running | Success | Unknown | Waiting

definition ExecutionStatusList :: "ExecutionStatus list" where
  "ExecutionStatusList = [Canceled, Crashed, Error, New, Running, Success, Unknown, Waiting]"

lemma ExecutionStatusList_UNIV: "set ExecutionStatusList = UNIV"
proof -
  have "x \<in> set ExecutionStatusList" for x by (cases x) (simp_all add: ExecutionStatusList_def)
  then show ?thesis by blast
qed

instantiation ExecutionStatus :: enum
begin

definition enum_ExecutionStatus :: "ExecutionStatus list" where
  "enum_ExecutionStatus = ExecutionStatusList"

definition enum_all_ExecutionStatus :: "(ExecutionStatus \<Rightarrow> bool) \<Rightarrow> bool" where
  "enum_all_ExecutionStatus P = list_all P ExecutionStatusList"

definition enum_ex_ExecutionStatus :: "(ExecutionStatus \<Rightarrow> bool) \<Rightarrow> bool" where
  "enum_ex_ExecutionStatus P = list_ex P ExecutionStatusList"

instance
  by (intro_classes)
    (simp_all add: enum_ExecutionStatus_def enum_all_ExecutionStatus_def enum_ex_ExecutionStatus_def list_all_iff
      list_ex_iff ExecutionStatusList_UNIV, simp add: ExecutionStatusList_def)

end

definition isCompletedExecutionStatus :: "ExecutionStatus \<Rightarrow> bool" where
  "isCompletedExecutionStatus status \<longleftrightarrow> status = Crashed \<or> status = Error \<or> status = Success"

definition CRASHABLE_EXECUTION_STATUSES :: "ExecutionStatus list" where
  "CRASHABLE_EXECUTION_STATUSES = [New, Running, Unknown]"

definition isTerminalExecutionStatus :: "ExecutionStatus option \<Rightarrow> bool" where
  "isTerminalExecutionStatus status \<longleftrightarrow>
     status = Some Canceled \<or> status = Some Crashed \<or> status = Some Error \<or> status = Some Success"

text \<open>Every status is terminal, may be recovered as crashed, or is waiting, and only one of the three.\<close>

lemma status_classes:
  "(isTerminalExecutionStatus (Some s), s \<in> set CRASHABLE_EXECUTION_STATUSES, s = Waiting)
    \<in> {(True, False, False), (False, True, False), (False, False, True)}"
  "isCompletedExecutionStatus s \<longleftrightarrow> isTerminalExecutionStatus (Some s) \<and> s \<noteq> Canceled"
  by (cases s; simp add: isTerminalExecutionStatus_def isCompletedExecutionStatus_def CRASHABLE_EXECUTION_STATUSES_def)+

section \<open>The state\<close>

datatype 'a promise = Pending | Fulfilled 'a | Rejected js_error

text \<open>Only the first settling counts.\<close>

fun settle :: "'a promise \<Rightarrow> 'a promise \<Rightarrow> 'a promise" where
  "settle Pending outcome = outcome"
| "settle p outcome = p"

text \<open>The constant for an end without a response is compared by identity, so it is a value of its own.\<close>

datatype response = Responded json | EXECUTION_ENDED_WITHOUT_RESPONSE

record ExecutingWorkflow =
  ew_executionId :: string
  ew_mode :: WorkflowExecuteMode
  ew_status :: ExecutionStatus
  ew_startedAt :: int
  ew_postExecute :: "json option promise"
  ew_responsePromise :: "nat option"
  ew_workflowExecution :: "nat option"
  ew_reserved :: bool
  ew_reacted :: bool

record Adding =
  ad_executionId :: string
  ad_mode :: WorkflowExecuteMode
  ad_reserved :: bool

record ActiveExecutions =
  ae_active :: "(string, nat) jsmap"
  ae_objects :: "(nat, ExecutingWorkflow) jsmap"
  ae_next :: nat
  ae_adding :: "Adding list"
  ae_acquired :: nat
  ae_responses :: "(nat, response promise) jsmap"
  ae_responseModes :: "(string, string) jsmap"
  ae_cancelled :: "nat list"

definition newActiveExecutions :: ActiveExecutions where
  "newActiveExecutions = \<lparr>ae_active = [], ae_objects = [], ae_next = 0, ae_adding = [], ae_acquired = 0,
     ae_responses = [], ae_responseModes = [], ae_cancelled = []\<rparr>"

definition change :: "ActiveExecutions \<Rightarrow> nat \<Rightarrow> (ExecutingWorkflow \<Rightarrow> ExecutingWorkflow) \<Rightarrow> ActiveExecutions" where
  "change s r f =
     (case jget (ae_objects s) r of None \<Rightarrow> s | Some x \<Rightarrow> s\<lparr>ae_objects := jset (ae_objects s) r (f x)\<rparr>)"

definition lookupExecution :: "ActiveExecutions \<Rightarrow> string \<Rightarrow> (nat \<times> ExecutingWorkflow) option" where
  "lookupExecution s executionId =
     (case jget (ae_active s) executionId of
        None \<Rightarrow> None
      | Some r \<Rightarrow> map_option (Pair r) (jget (ae_objects s) r))"

definition hasActive :: "ActiveExecutions \<Rightarrow> string \<Rightarrow> bool" where
  "hasActive s executionId \<longleftrightarrow> jget (ae_active s) executionId \<noteq> None"

definition getExecutionOrFail :: "ActiveExecutions \<Rightarrow> string \<Rightarrow> (nat \<times> ExecutingWorkflow) result" where
  "getExecutionOrFail s executionId =
     (case lookupExecution s executionId of None \<Rightarrow> Inl (UnexpectedError ''No active execution found'') | Some x \<Rightarrow> Inr x)"

section \<open>Adding an execution\<close>

text \<open>
  \<^verbatim>\<open>add\<close> in its synchronous parts. First the capacity: an evaluation takes none. Then, for an error between the
  reservation and the registration, the release. Last the registration with the reaction to come.
\<close>

definition addReserved :: "ActiveExecutions \<Rightarrow> string \<Rightarrow> WorkflowExecuteMode \<Rightarrow> ActiveExecutions" where
  "addReserved s executionId mode =
     (let shouldReserveCapacity = (mode \<noteq> Mode_evaluation)
      in s\<lparr>ae_adding := ae_adding s @ [\<lparr>ad_executionId = executionId, ad_mode = mode, ad_reserved = shouldReserveCapacity\<rparr>],
           ae_acquired := ae_acquired s + (if shouldReserveCapacity then 1 else 0)\<rparr>)"

definition addOutcome :: "bool \<Rightarrow> bool \<Rightarrow> js_error option \<Rightarrow> js_error option" where
  "addOutcome existing updateSucceeded databaseError =
     (case databaseError of
        Some e \<Rightarrow> Some e
      | None \<Rightarrow> if existing \<and> \<not> updateSucceeded then Some ExecutionAlreadyResumingError else None)"

definition addFailed :: "ActiveExecutions \<Rightarrow> nat \<Rightarrow> ActiveExecutions" where
  "addFailed s k =
     s\<lparr>ae_adding := take k (ae_adding s) @ drop (Suc k) (ae_adding s),
       ae_acquired := ae_acquired s - (if ad_reserved (ae_adding s ! k) then 1 else 0)\<rparr>"

definition addRegistered :: "ActiveExecutions \<Rightarrow> nat \<Rightarrow> int \<Rightarrow> ActiveExecutions" where
  "addRegistered s k now =
     (let a = ae_adding s ! k;
          resumingExecution = lookupExecution s (ad_executionId a);
          r = ae_next s;
          execution = \<lparr>ew_executionId = ad_executionId a, ew_mode = ad_mode a, ew_status = Running,
            ew_startedAt = (case resumingExecution of None \<Rightarrow> now | Some (_, x) \<Rightarrow> ew_startedAt x),
            ew_postExecute = Pending,
            ew_responsePromise = (case resumingExecution of None \<Rightarrow> None | Some (_, x) \<Rightarrow> ew_responsePromise x),
            ew_workflowExecution = None, ew_reserved = ad_reserved a, ew_reacted = False\<rparr>
      in s\<lparr>ae_adding := take k (ae_adding s) @ drop (Suc k) (ae_adding s),
           ae_objects := jset (ae_objects s) r execution, ae_next := Suc r,
           ae_active := jset (ae_active s) (ad_executionId a) r\<rparr>)"

text \<open>The reaction to the settled promise: \<^verbatim>\<open>capacityReservation.release()\<close>, and the removal by the identifier.\<close>

definition releaseReservation :: "ActiveExecutions \<Rightarrow> nat \<Rightarrow> ExecutingWorkflow \<Rightarrow> ActiveExecutions" where
  "releaseReservation s r x =
     (if \<not> ew_reserved x then s
      else (change s r (\<lambda>x. x\<lparr>ew_reserved := False\<rparr>))\<lparr>ae_acquired := ae_acquired s - 1\<rparr>)"

definition removeExecution :: "ActiveExecutions \<Rightarrow> string \<Rightarrow> ActiveExecutions" where
  "removeExecution s executionId =
     s\<lparr>ae_active := jdel (ae_active s) executionId, ae_responseModes := jdel (ae_responseModes s) executionId\<rparr>"

definition reaction :: "ActiveExecutions \<Rightarrow> nat \<Rightarrow> ActiveExecutions" where
  "reaction s r =
     (case jget (ae_objects s) r of
        None \<Rightarrow> s
      | Some x \<Rightarrow>
          let s1 = change (releaseReservation s r x) r (\<lambda>x. x\<lparr>ew_reacted := True\<rparr>)
          in if ew_status x = Waiting
             then change s1 r (\<lambda>x. x\<lparr>ew_workflowExecution := None\<rparr>)
             else removeExecution s1 (ew_executionId x))"

section \<open>The other operations\<close>

definition attachWorkflowExecution :: "ActiveExecutions \<Rightarrow> string \<Rightarrow> nat \<Rightarrow> ActiveExecutions result" where
  "attachWorkflowExecution s executionId workflowExecution =
     (case getExecutionOrFail s executionId of
        Inl e \<Rightarrow> Inl e
      | Inr (r, _) \<Rightarrow> Inr (change s r (\<lambda>x. x\<lparr>ew_workflowExecution := Some workflowExecution\<rparr>)))"

definition attachResponsePromise :: "ActiveExecutions \<Rightarrow> string \<Rightarrow> nat \<Rightarrow> ActiveExecutions result" where
  "attachResponsePromise s executionId p =
     (case getExecutionOrFail s executionId of
        Inl e \<Rightarrow> Inl e
      | Inr (r, _) \<Rightarrow> Inr (change s r (\<lambda>x. x\<lparr>ew_responsePromise := Some p\<rparr>)))"

definition settleResponse :: "ActiveExecutions \<Rightarrow> nat option \<Rightarrow> response promise \<Rightarrow> ActiveExecutions" where
  "settleResponse s p outcome =
     (case p of
        None \<Rightarrow> s
      | Some p \<Rightarrow> s\<lparr>ae_responses := jset (ae_responses s) p
          (settle (case jget (ae_responses s) p of None \<Rightarrow> Pending | Some q \<Rightarrow> q) outcome)\<rparr>)"

definition resolveResponsePromise :: "ActiveExecutions \<Rightarrow> string \<Rightarrow> json \<Rightarrow> ActiveExecutions" where
  "resolveResponsePromise s executionId response =
     (case lookupExecution s executionId of
        None \<Rightarrow> s
      | Some (_, x) \<Rightarrow> settleResponse s (ew_responsePromise x) (Fulfilled (Responded response)))"

definition settlePost :: "ActiveExecutions \<Rightarrow> nat \<Rightarrow> json option promise \<Rightarrow> ActiveExecutions" where
  "settlePost s r outcome = change s r (\<lambda>x. x\<lparr>ew_postExecute := settle (ew_postExecute x) outcome\<rparr>)"

definition stopActive :: "ActiveExecutions \<Rightarrow> string \<Rightarrow> js_error \<Rightarrow> ActiveExecutions" where
  "stopActive s executionId cancellationError =
     (case lookupExecution s executionId of
        None \<Rightarrow> s
      | Some (r, x) \<Rightarrow>
          let s1 = settleResponse s (ew_responsePromise x) (Rejected cancellationError)
          in if ew_status x = Waiting then removeExecution s1 executionId
             else settlePost
               (case ew_workflowExecution x of None \<Rightarrow> s1 | Some w \<Rightarrow> s1\<lparr>ae_cancelled := ae_cancelled s1 @ [w]\<rparr>)
               r (Rejected cancellationError))"

definition finalizeExecution :: "ActiveExecutions \<Rightarrow> string \<Rightarrow> json option \<Rightarrow> ActiveExecutions" where
  "finalizeExecution s executionId fullRunData =
     (case lookupExecution s executionId of None \<Rightarrow> s | Some (r, _) \<Rightarrow> settlePost s r (Fulfilled fullRunData))"

definition resolveExecutionResponsePromise :: "ActiveExecutions \<Rightarrow> string \<Rightarrow> ActiveExecutions" where
  "resolveExecutionResponsePromise s executionId =
     (case lookupExecution s executionId of
        None \<Rightarrow> s
      | Some (_, x) \<Rightarrow> if ew_status x \<noteq> Waiting
          then settleResponse s (ew_responsePromise x) (Fulfilled EXECUTION_ENDED_WITHOUT_RESPONSE) else s)"

definition getPostExecutePromise :: "ActiveExecutions \<Rightarrow> string \<Rightarrow> json option promise result" where
  "getPostExecutePromise s executionId =
     (case getExecutionOrFail s executionId of Inl e \<Rightarrow> Inl e | Inr (_, x) \<Rightarrow> Inr (ew_postExecute x))"

definition getActiveExecutions :: "ActiveExecutions \<Rightarrow> (string \<times> int \<times> WorkflowExecuteMode \<times> ExecutionStatus) list" where
  "getActiveExecutions s = List.map_filter (\<lambda>i. case lookupExecution s i of
     None \<Rightarrow> None | Some (_, x) \<Rightarrow> Some (i, ew_startedAt x, ew_mode x, ew_status x)) (jkeys (ae_active s))"

definition getRunningExecutionIds :: "ActiveExecutions \<Rightarrow> string list" where
  "getRunningExecutionIds s =
     filter (\<lambda>i. case lookupExecution s i of None \<Rightarrow> False | Some (_, x) \<Rightarrow> ew_status x = Running) (jkeys (ae_active s))"

definition setStatus :: "ActiveExecutions \<Rightarrow> string \<Rightarrow> ExecutionStatus \<Rightarrow> ActiveExecutions result" where
  "setStatus s executionId status =
     (case getExecutionOrFail s executionId of
        Inl e \<Rightarrow> Inl e | Inr (r, _) \<Rightarrow> Inr (change s r (\<lambda>x. x\<lparr>ew_status := status\<rparr>)))"

definition getStatus :: "ActiveExecutions \<Rightarrow> string \<Rightarrow> ExecutionStatus result" where
  "getStatus s executionId =
     (case getExecutionOrFail s executionId of Inl e \<Rightarrow> Inl e | Inr (_, x) \<Rightarrow> Inr (ew_status x))"

definition setResponseMode :: "ActiveExecutions \<Rightarrow> string \<Rightarrow> string \<Rightarrow> ActiveExecutions" where
  "setResponseMode s executionId responseMode = s\<lparr>ae_responseModes := jset (ae_responseModes s) executionId responseMode\<rparr>"

definition getResponseMode :: "ActiveExecutions \<Rightarrow> string \<Rightarrow> string option" where
  "getResponseMode s executionId = jget (ae_responseModes s) executionId"

text \<open>Before and after the status is written to the database, whose failure is only logged.\<close>

definition executionsToCancel :: "ActiveExecutions \<Rightarrow> string list" where
  "executionsToCancel s =
     filter (\<lambda>i. case lookupExecution s i of None \<Rightarrow> False | Some (_, x) \<Rightarrow> ew_workflowExecution x \<noteq> None) (getRunningExecutionIds s)"

definition cancelRunningExecutions :: "ActiveExecutions \<Rightarrow> string list \<Rightarrow> ActiveExecutions" where
  "cancelRunningExecutions s executionIds =
     foldl (\<lambda>s i. stopActive s i (JsError ''The execution was cancelled because the system is shutting down'')) s executionIds"

text \<open>The loop of \<^verbatim>\<open>shutdown\<close> over the executions; with the identifiers whose capacity the service drops.\<close>

definition shutdownStep :: "bool \<Rightarrow> ActiveExecutions \<times> string list \<Rightarrow> string \<Rightarrow> ActiveExecutions \<times> string list" where
  "shutdownStep cancelling st executionId = (case st of (s, toCancel) \<Rightarrow>
     (case lookupExecution s executionId of
        None \<Rightarrow> st
      | Some (_, x) \<Rightarrow>
          if cancelling
          then (stopActive s executionId (JsError ''The execution was cancelled because the system is shutting down''),
                toCancel @ [executionId])
          else if ew_status x = Waiting \<or> ew_status x = New
          then (s\<lparr>ae_active := jdel (ae_active s) executionId\<rparr>, toCancel)
          else st))"

definition shutdown :: "ActiveExecutions \<Rightarrow> bool \<Rightarrow> bool \<Rightarrow> ActiveExecutions \<times> string list" where
  "shutdown s isRegularMode cancelAll = foldl (shutdownStep (isRegularMode \<and> cancelAll)) (s, []) (jkeys (ae_active s))"

section \<open>The life of the executions\<close>

datatype active_event =
    Reserved string WorkflowExecuteMode | AddFailed nat | Registered nat int | Attached string nat
  | ResponseAttached string nat | ResponseGiven string json | StatusSet string ExecutionStatus | Stop string js_error
  | Finalized string "json option" | ResponseEnded string | Reacted nat | ModeSet string string | Shutdown bool bool

definition or_unchanged :: "ActiveExecutions \<Rightarrow> ActiveExecutions result \<Rightarrow> ActiveExecutions" where
  "or_unchanged s r = (case r of Inl _ \<Rightarrow> s | Inr t \<Rightarrow> t)"

text \<open>None: the event cannot happen. An operation that throws changes nothing. \<^verbatim>\<open>cancelRunningExecutions\<close> is a
  sequence of \<open>Stop\<close>.\<close>

fun active_step :: "ActiveExecutions \<Rightarrow> active_event \<Rightarrow> ActiveExecutions option" where
  "active_step s (Reserved i mode) = Some (addReserved s i mode)"
| "active_step s (AddFailed k) = (if k < length (ae_adding s) then Some (addFailed s k) else None)"
| "active_step s (Registered k now) = (if k < length (ae_adding s) then Some (addRegistered s k now) else None)"
| "active_step s (Attached i w) = Some (or_unchanged s (attachWorkflowExecution s i w))"
| "active_step s (ResponseAttached i p) = Some (or_unchanged s (attachResponsePromise s i p))"
| "active_step s (ResponseGiven i j) = Some (resolveResponsePromise s i j)"
| "active_step s (StatusSet i status) = Some (or_unchanged s (setStatus s i status))"
| "active_step s (Stop i e) = Some (stopActive s i e)"
| "active_step s (Finalized i d) = Some (finalizeExecution s i d)"
| "active_step s (ResponseEnded i) = Some (resolveExecutionResponsePromise s i)"
| "active_step s (Reacted r) =
     (case jget (ae_objects s) r of
        None \<Rightarrow> None
      | Some x \<Rightarrow> if ew_postExecute x \<noteq> Pending \<and> \<not> ew_reacted x then Some (reaction s r) else None)"
| "active_step s (ModeSet i m) = Some (setResponseMode s i m)"
| "active_step s (Shutdown regular cancelAll) = Some (fst (shutdown s regular cancelAll))"

definition lives :: "ActiveExecutions \<Rightarrow> ActiveExecutions \<Rightarrow> bool" where
  "lives s t \<longleftrightarrow> (\<exists>e. active_step s e = Some t)"

text \<open>
  What the comment in \<^verbatim>\<open>stopExecution\<close> takes for granted: a waiting execution that is stopped, and an execution that is
  added again, has ended its previous run, its reaction included. The process does not shut down.
\<close>

definition orderly :: "ActiveExecutions \<Rightarrow> active_event \<Rightarrow> bool" where
  "orderly s e = (case e of
     Stop i _ \<Rightarrow> (case lookupExecution s i of None \<Rightarrow> True | Some (_, x) \<Rightarrow> ew_status x \<noteq> Waiting \<or> ew_reacted x)
   | Registered k _ \<Rightarrow>
       (case lookupExecution s (ad_executionId (ae_adding s ! k)) of None \<Rightarrow> True | Some (_, x) \<Rightarrow> ew_reacted x)
   | Shutdown _ _ \<Rightarrow> False
   | _ \<Rightarrow> True)"

definition lives_orderly :: "ActiveExecutions \<Rightarrow> ActiveExecutions \<Rightarrow> bool" where
  "lives_orderly s t \<longleftrightarrow> (\<exists>e. orderly s e \<and> active_step s e = Some t)"

section \<open>The store\<close>

definition core :: "ActiveExecutions \<Rightarrow> nat \<Rightarrow> (string \<times> bool \<times> bool) option" where
  "core s r = map_option (\<lambda>x. (ew_executionId x, ew_reserved x, ew_reacted x)) (jget (ae_objects s) r)"

lemma core_fields [simp]:
  "core (s\<lparr>ae_active := a\<rparr>) = core s" "core (s\<lparr>ae_next := n\<rparr>) = core s" "core (s\<lparr>ae_adding := d\<rparr>) = core s"
  "core (s\<lparr>ae_acquired := c\<rparr>) = core s" "core (s\<lparr>ae_responses := p\<rparr>) = core s"
  "core (s\<lparr>ae_responseModes := m\<rparr>) = core s" "core (s\<lparr>ae_cancelled := l\<rparr>) = core s"
  by (simp_all add: core_def fun_eq_iff)

definition reservedRefs :: "ActiveExecutions \<Rightarrow> nat set" where
  "reservedRefs s = {r. \<exists>i re. core s r = Some (i, True, re)}"

definition active_ok :: "ActiveExecutions \<Rightarrow> bool" where
  "active_ok s \<longleftrightarrow>
     (\<forall>i r. jget (ae_active s) i = Some r \<longrightarrow> (\<exists>b c. core s r = Some (i, b, c))) \<and>
     (\<forall>r. core s r \<noteq> None \<longrightarrow> r < ae_next s) \<and>
     (\<forall>r i. core s r \<noteq> Some (i, True, True)) \<and>
     ae_acquired s = length (filter ad_reserved (ae_adding s)) + card (reservedRefs s)"

text \<open>An operation that keeps everything the invariant depends on, except that entries may go.\<close>

definition keeps :: "ActiveExecutions \<Rightarrow> ActiveExecutions \<Rightarrow> bool" where
  "keeps s t \<longleftrightarrow> core t = core s \<and> ae_next t = ae_next s \<and> ae_adding t = ae_adding s \<and> ae_acquired t = ae_acquired s \<and>
     (\<forall>i r. jget (ae_active t) i = Some r \<longrightarrow> jget (ae_active s) i = Some r)"

lemma keeps_refl [simp]: "keeps s s"
  by (simp add: keeps_def)

lemma keeps_trans [trans]: "keeps s t \<Longrightarrow> keeps t u \<Longrightarrow> keeps s u"
  unfolding keeps_def by simp

lemma keeps_ok: "keeps s t \<Longrightarrow> active_ok s \<Longrightarrow> active_ok t"
  unfolding keeps_def active_ok_def reservedRefs_def by (elim conjE) (intro conjI; simp only:; blast)

lemma change_fields [simp]:
  "ae_active (change s r f) = ae_active s" "ae_next (change s r f) = ae_next s" "ae_adding (change s r f) = ae_adding s"
  "ae_acquired (change s r f) = ae_acquired s" "ae_responseModes (change s r f) = ae_responseModes s"
  "ae_responses (change s r f) = ae_responses s" "ae_cancelled (change s r f) = ae_cancelled s"
  by (simp_all add: change_def split: option.split)

lemma change_objects [simp]:
  "map_of (ae_objects (change s r f)) q = (if q = r then map_option f (jget (ae_objects s) r) else jget (ae_objects s) q)"
  by (auto simp: change_def simp del: map_of_eq_Some_iff map_of_eq_None_iff split: option.split)

lemma change_keeps:
  "(\<And>x. ew_executionId (f x) = ew_executionId x \<and> ew_reserved (f x) = ew_reserved x \<and> ew_reacted (f x) = ew_reacted x) \<Longrightarrow>
    keeps s (change s r f)"
  by (auto simp: keeps_def core_def fun_eq_iff map_option.compositionality comp_def)

lemma settleResponse_fields [simp]:
  "ae_active (settleResponse s p q) = ae_active s" "ae_objects (settleResponse s p q) = ae_objects s"
  "ae_next (settleResponse s p q) = ae_next s" "ae_adding (settleResponse s p q) = ae_adding s"
  "ae_acquired (settleResponse s p q) = ae_acquired s"
  by (simp_all add: settleResponse_def split: option.split)

lemma settlePost_keeps: "keeps s (settlePost s r p)"
  unfolding settlePost_def by (rule change_keeps) simp

lemma removeExecution_keeps: "keeps s (removeExecution s i)"
  by (auto simp: keeps_def core_def removeExecution_def split: if_splits)

lemma stopActive_keeps: "keeps s (stopActive s i e)"
proof (cases "lookupExecution s i")
  case (Some rx)
  obtain r x where rx: "rx = (r, x)" by fastforce
  let ?s1 = "settleResponse s (ew_responsePromise x) (Rejected e)"
  have s1: "keeps s ?s1" by (simp add: keeps_def core_def fun_eq_iff)
  also have "keeps ?s1 (stopActive s i e)"
  proof (cases "ew_status x = Waiting")
    case True
    then have "stopActive s i e = removeExecution ?s1 i" by (simp add: stopActive_def Some rx Let_def)
    then show ?thesis by (simp only: removeExecution_keeps)
  next
    case False
    let ?s2 = "case ew_workflowExecution x of None \<Rightarrow> ?s1 | Some w \<Rightarrow> ?s1\<lparr>ae_cancelled := ae_cancelled ?s1 @ [w]\<rparr>"
    have "keeps ?s1 ?s2" by (simp add: keeps_def split: option.split)
    also have "keeps ?s2 (stopActive s i e)" using settlePost_keeps False by (simp add: stopActive_def Some rx Let_def)
    finally show ?thesis .
  qed
  finally show ?thesis .
qed (simp add: stopActive_def)

lemma shutdown_keeps: "keeps s (fst (shutdown s regular cancelAll))"
proof -
  have gone: "keeps u (u\<lparr>ae_active := jdel (ae_active u) i\<rparr>)" for u i
    by (auto simp: keeps_def core_def split: if_splits)
  have one: "keeps (fst st) (fst (shutdownStep b st i))" for b st i
    using gone stopActive_keeps by (auto simp: shutdownStep_def split: option.split prod.split)
  have "keeps (fst st) (fst (foldl (shutdownStep b) st is))" for b st "is"
  proof (induction "is" arbitrary: st)
    case (Cons i "is")
    show ?case unfolding foldl_Cons by (rule keeps_trans[OF one Cons.IH])
  qed simp
  from this[of "(s, [])"] show ?thesis by (simp add: shutdown_def)
qed

lemma other_keeps:
  "keeps s (or_unchanged s (attachWorkflowExecution s i w))" "keeps s (or_unchanged s (attachResponsePromise s i p))"
  "keeps s (or_unchanged s (setStatus s i status))" "keeps s (finalizeExecution s i d)"
  "keeps s (resolveResponsePromise s i j)" "keeps s (resolveExecutionResponsePromise s i)" "keeps s (setResponseMode s i m)"
  by (auto simp: or_unchanged_def attachWorkflowExecution_def attachResponsePromise_def setStatus_def finalizeExecution_def
      resolveResponsePromise_def resolveExecutionResponsePromise_def setResponseMode_def
      intro!: change_keeps settlePost_keeps split: sum.splits option.split) (auto simp: keeps_def core_def split: if_splits)

text \<open>The events that touch the reservations.\<close>

lemma addReserved_ok: "active_ok s \<Longrightarrow> active_ok (addReserved s i mode)"
  by (auto simp: active_ok_def addReserved_def Let_def core_def reservedRefs_def)

lemma filter_take_drop:
  assumes "k < length xs"
  shows "length (filter P xs) = length (filter P (take k xs @ drop (Suc k) xs)) + (if P (xs ! k) then 1 else 0)"
proof -
  have "xs = take k xs @ xs ! k # drop (Suc k) xs" using assms by (rule id_take_nth_drop)
  then have "length (filter P xs) = length (filter P (take k xs @ xs ! k # drop (Suc k) xs))" by simp
  then show ?thesis by simp
qed

lemma addFailed_ok:
  assumes "active_ok s" and "k < length (ae_adding s)"
  shows "active_ok (addFailed s k)"
  using assms(1) filter_take_drop[OF assms(2), of ad_reserved]
  by (auto simp: active_ok_def addFailed_def core_def reservedRefs_def)

lemma addRegistered_core:
  "core (addRegistered s k now) r =
     (if r = ae_next s then Some (ad_executionId (ae_adding s ! k), ad_reserved (ae_adding s ! k), False) else core s r)"
  by (simp add: addRegistered_def Let_def core_def)

lemma reservedRefs_finite: "finite (reservedRefs s)"
proof -
  have "reservedRefs s \<subseteq> dom (map_of (ae_objects s))" by (auto simp: reservedRefs_def core_def)
  then show ?thesis by (rule finite_subset) (rule finite_dom_map_of)
qed

lemma active_okD:
  assumes "active_ok s"
  shows "jget (ae_active s) i = Some r \<Longrightarrow> \<exists>b c. core s r = Some (i, b, c)"
    and "core s r \<noteq> None \<Longrightarrow> r < ae_next s" and "core s r \<noteq> Some (j, True, True)"
    and "ae_acquired s = length (filter ad_reserved (ae_adding s)) + card (reservedRefs s)"
  using assms by (simp_all add: active_ok_def)

lemma core_fresh: "active_ok s \<Longrightarrow> core s (ae_next s) = None"
  using active_okD(2) by (metis less_irrefl)

lemma addRegistered_ok:
  assumes "active_ok s" and "k < length (ae_adding s)"
  shows "active_ok (addRegistered s k now)"
proof -
  let ?t = "addRegistered s k now" and ?a = "ae_adding s ! k"
  have f: "ae_active ?t = jset (ae_active s) (ad_executionId ?a) (ae_next s)" "ae_next ?t = Suc (ae_next s)"
    "ae_adding ?t = take k (ae_adding s) @ drop (Suc k) (ae_adding s)" "ae_acquired ?t = ae_acquired s"
    by (simp_all add: addRegistered_def Let_def)
  have n: "ae_next s \<notin> reservedRefs s" using core_fresh[OF assms(1)] by (simp add: reservedRefs_def)
  have refs: "reservedRefs ?t = (if ad_reserved ?a then insert (ae_next s) (reservedRefs s) else reservedRefs s)"
    using n by (auto simp: reservedRefs_def addRegistered_core split: if_splits)
  show ?thesis unfolding active_ok_def
  proof (intro conjI allI impI)
    fix i r assume "jget (ae_active ?t) i = Some r"
    then show "\<exists>b c. core ?t r = Some (i, b, c)"
      using active_okD(1)[OF assms(1), of i r] core_fresh[OF assms(1)]
      by (auto simp: f(1) addRegistered_core split: if_splits)
  next
    fix r assume "core ?t r \<noteq> None"
    then show "r < ae_next ?t" using active_okD(2)[OF assms(1), of r] by (auto simp: f(2) addRegistered_core split: if_splits)
  next
    fix r i show "core ?t r \<noteq> Some (i, True, True)"
      using active_okD(3)[OF assms(1)] by (simp add: addRegistered_core)
  next
    show "ae_acquired ?t = length (filter ad_reserved (ae_adding ?t)) + card (reservedRefs ?t)"
      unfolding f refs active_okD(4)[OF assms(1)] filter_take_drop[OF assms(2), of ad_reserved]
      using n by (simp add: reservedRefs_finite)
  qed
qed

lemma reaction_fields:
  assumes "jget (ae_objects s) r = Some x"
  shows "core (reaction s r) q = (if q = r then Some (ew_executionId x, False, True) else core s q)"
    and "ae_active (reaction s r) = (if ew_status x = Waiting then ae_active s else jdel (ae_active s) (ew_executionId x))"
    and "ae_next (reaction s r) = ae_next s" and "ae_adding (reaction s r) = ae_adding s"
    and "ae_acquired (reaction s r) = ae_acquired s - (if ew_reserved x then 1 else 0)"
proof -
  have c: "core (change u r f) p = (if p = r then map_option (\<lambda>x. (ew_executionId (f x), ew_reserved (f x), ew_reacted (f x)))
      (jget (ae_objects u) r) else core u p)" for u f p
    by (simp add: core_def map_option.compositionality comp_def)
  have rm: "core (removeExecution u i) = core u" for u i by (simp add: core_def removeExecution_def fun_eq_iff)
  show "core (reaction s r) q = (if q = r then Some (ew_executionId x, False, True) else core s q)"
    by (simp add: reaction_def assms Let_def releaseReservation_def c rm del: map_of_eq_Some_iff)
  show "ae_active (reaction s r) = (if ew_status x = Waiting then ae_active s else jdel (ae_active s) (ew_executionId x))"
    "ae_next (reaction s r) = ae_next s" "ae_adding (reaction s r) = ae_adding s"
    "ae_acquired (reaction s r) = ae_acquired s - (if ew_reserved x then 1 else 0)"
    by (simp_all add: reaction_def assms Let_def releaseReservation_def removeExecution_def)
qed

lemma reaction_ok:
  assumes "active_ok s" and "jget (ae_objects s) r = Some x" and "\<not> ew_reacted x"
  shows "active_ok (reaction s r)"
proof -
  note f = reaction_fields[OF assms(2)] and ok = active_okD[OF assms(1)]
  have x: "core s r = Some (ew_executionId x, ew_reserved x, False)" using assms by (simp add: core_def)
  have refs: "reservedRefs (reaction s r) = reservedRefs s - {r}" by (auto simp: reservedRefs_def f(1) split: if_splits)
  have mem: "r \<in> reservedRefs s \<longleftrightarrow> ew_reserved x" by (auto simp: reservedRefs_def x)
  show ?thesis unfolding active_ok_def
  proof (intro conjI allI impI)
    fix i q assume "jget (ae_active (reaction s r)) i = Some q"
    then have "jget (ae_active s) i = Some q" unfolding f(2) by (auto split: if_splits)
    from ok(1)[OF this] show "\<exists>b c. core (reaction s r) q = Some (i, b, c)" using x unfolding f(1) by auto
  next
    fix q assume "core (reaction s r) q \<noteq> None"
    then show "q < ae_next (reaction s r)" using ok(2)[of q] x unfolding f(1,3) by (auto split: if_splits)
  next
    fix q i show "core (reaction s r) q \<noteq> Some (i, True, True)" using ok(3)[of q] unfolding f(1) by simp
  next
    have "0 < card (reservedRefs s)" if "ew_reserved x" using mem that by (auto simp: card_gt_0_iff reservedRefs_finite)
    then show "ae_acquired (reaction s r) = length (filter ad_reserved (ae_adding (reaction s r))) + card (reservedRefs (reaction s r))"
      unfolding f refs ok(4) card_Diff_singleton_if using mem by auto
  qed
qed

lemma active_step_ok:
  assumes "active_ok s" and "active_step s e = Some t"
  shows "active_ok t"
proof (cases e)
  case (Reacted r)
  with assms show ?thesis by (auto intro: reaction_ok simp del: map_of_eq_Some_iff split: option.splits if_splits)
next
  case (Reserved i mode)
  with assms addReserved_ok show ?thesis by auto
next
  case (AddFailed k)
  with assms addFailed_ok show ?thesis by (auto split: if_splits)
next
  case (Registered k now)
  with assms addRegistered_ok show ?thesis by (auto split: if_splits)
next
  case (Stop i err)
  with assms keeps_ok[OF stopActive_keeps] show ?thesis by auto
next
  case (Shutdown regular cancelAll)
  with assms keeps_ok[OF shutdown_keeps] show ?thesis by auto
qed (use assms other_keeps[THEN keeps_ok] in auto)

interpretation executions: step_system newActiveExecutions lives active_ok
  by unfold_locales (simp add: active_ok_def newActiveExecutions_def core_def reservedRefs_def,
    auto simp: lives_def intro: active_step_ok)

section \<open>Capacity is held by active executions only\<close>

definition unreacted_active :: "ActiveExecutions \<Rightarrow> bool" where
  "unreacted_active s \<longleftrightarrow> (\<forall>r i b. core s r = Some (i, b, False) \<longrightarrow> jget (ae_active s) i = Some r)"

lemma unreacted_lookup:
  assumes "unreacted_active s" and "core s r = Some (i, b, False)"
  shows "\<exists>x. lookupExecution s i = Some (r, x) \<and> \<not> ew_reacted x"
proof -
  have "jget (ae_active s) i = Some r" using assms by (simp add: unreacted_active_def)
  moreover obtain x where "jget (ae_objects s) r = Some x" "\<not> ew_reacted x" using assms(2) by (auto simp: core_def)
  ultimately show ?thesis by (simp add: lookupExecution_def del: map_of_eq_Some_iff)
qed

lemma or_unchanged_active:
  "ae_active (or_unchanged s (attachWorkflowExecution s i w)) = ae_active s"
  "ae_active (or_unchanged s (attachResponsePromise s i p)) = ae_active s"
  "ae_active (or_unchanged s (setStatus s i status)) = ae_active s"
  "ae_active (finalizeExecution s i d) = ae_active s"
  "ae_active (resolveResponsePromise s i j) = ae_active s"
  "ae_active (resolveExecutionResponsePromise s i) = ae_active s"
  "ae_active (setResponseMode s i m) = ae_active s"
  by (auto simp: or_unchanged_def attachWorkflowExecution_def attachResponsePromise_def setStatus_def finalizeExecution_def
      resolveResponsePromise_def resolveExecutionResponsePromise_def setResponseMode_def settlePost_def split: sum.split option.split)

lemma unreacted_same:
  "unreacted_active s \<Longrightarrow> keeps s t \<Longrightarrow> ae_active t = ae_active s \<Longrightarrow> unreacted_active t"
  by (simp add: unreacted_active_def keeps_def)

lemma stopActive_active:
  "ae_active (stopActive s i e) =
     (case lookupExecution s i of None \<Rightarrow> ae_active s
      | Some (_, x) \<Rightarrow> if ew_status x = Waiting then jdel (ae_active s) i else ae_active s)"
  by (auto simp: stopActive_def Let_def removeExecution_def settlePost_def split: option.split)

lemma unreacted_step:
  assumes "unreacted_active s" and "orderly s e" and "active_step s e = Some t"
  shows "unreacted_active t"
proof (cases e)
  case (Reacted r)
  with assms(3) obtain x where x: "jget (ae_objects s) r = Some x" "\<not> ew_reacted x" and t: "t = reaction s r"
    by (auto simp del: map_of_eq_Some_iff split: option.splits if_splits)
  note f = reaction_fields[OF x(1)]
  have "jget (ae_active s) (ew_executionId x) = Some r"
    using assms(1) x by (simp add: unreacted_active_def core_def del: map_of_eq_Some_iff)
  moreover have "jget (ae_active s) j = Some q" if "core s q = Some (j, b, False)" for q j b
    using assms(1) that unfolding unreacted_active_def by blast
  ultimately show ?thesis unfolding t unreacted_active_def f(1,2)
    by (fastforce simp del: map_of_eq_Some_iff split: if_splits)
next
  case (Stop i err)
  then have t: "t = stopActive s i err" using assms(3) by simp
  have k: "core t = core s" using stopActive_keeps[of s i err] by (simp add: t keeps_def)
  show ?thesis unfolding unreacted_active_def
  proof (intro allI impI)
    fix r j b assume c: "core t r = Some (j, b, False)"
    then have "core s r = Some (j, b, False)" using k by simp
    from unreacted_lookup[OF assms(1) this]
    obtain x where x: "lookupExecution s j = Some (r, x)" "\<not> ew_reacted x" by blast
    have "jget (ae_active s) j = Some r" using assms(1) c k by (simp add: unreacted_active_def)
    moreover have "j \<noteq> i \<or> ew_status x \<noteq> Waiting" using assms(2) x by (auto simp: orderly_def Stop)
    ultimately show "jget (ae_active t) j = Some r"
      using x(1) by (auto simp: t stopActive_active simp del: map_of_eq_Some_iff split: option.split)
  qed
next
  case (Registered k now)
  then have k: "k < length (ae_adding s)" and t: "t = addRegistered s k now" using assms(3) by (auto split: if_splits)
  show ?thesis unfolding unreacted_active_def
  proof (intro allI impI)
    fix r j b assume c: "core t r = Some (j, b, False)"
    show "jget (ae_active t) j = Some r"
    proof (cases "r = ae_next s")
      case True
      with c show ?thesis by (simp add: t addRegistered_core) (simp add: addRegistered_def Let_def)
    next
      case False
      with c have c': "core s r = Some (j, b, False)" by (simp add: t addRegistered_core)
      from unreacted_lookup[OF assms(1) c'] obtain x where "lookupExecution s j = Some (r, x)" "\<not> ew_reacted x" by blast
      with assms(2) have "j \<noteq> ad_executionId (ae_adding s ! k)" by (auto simp: orderly_def Registered)
      with assms(1) c' show ?thesis by (simp add: t addRegistered_def Let_def unreacted_active_def)
    qed
  qed
next
  case (Reserved i mode)
  with assms show ?thesis by (auto simp: unreacted_active_def addReserved_def Let_def)
next
  case (AddFailed k)
  with assms show ?thesis by (auto simp: unreacted_active_def addFailed_def split: if_splits)
next
  case (Shutdown regular cancelAll)
  with assms(2) show ?thesis by (simp add: orderly_def)
qed (use assms unreacted_same[OF _ other_keeps(1) or_unchanged_active(1)] unreacted_same[OF _ other_keeps(2) or_unchanged_active(2)]
    unreacted_same[OF _ other_keeps(3) or_unchanged_active(3)] unreacted_same[OF _ other_keeps(4) or_unchanged_active(4)]
    unreacted_same[OF _ other_keeps(5) or_unchanged_active(5)] unreacted_same[OF _ other_keeps(6) or_unchanged_active(6)]
    unreacted_same[OF _ other_keeps(7) or_unchanged_active(7)] in auto)

interpretation orderly_executions: step_system newActiveExecutions lives_orderly "\<lambda>s. active_ok s \<and> unreacted_active s"
  by unfold_locales (rule conjI[OF executions.inv_init], simp add: unreacted_active_def newActiveExecutions_def core_def,
    auto simp: lives_orderly_def intro: active_step_ok unreacted_step)

definition activeReserved :: "ActiveExecutions \<Rightarrow> string list" where
  "activeReserved s =
     filter (\<lambda>i. case lookupExecution s i of None \<Rightarrow> False | Some (_, x) \<Rightarrow> ew_reserved x) (jkeys (ae_active s))"

lemma jget_key: "jget m k = Some v \<Longrightarrow> k \<in> fst ` set m"
  by (force dest: map_of_SomeD)

lemma activeReserved_iff:
  "i \<in> set (activeReserved s) \<longleftrightarrow> (\<exists>r x. lookupExecution s i = Some (r, x) \<and> ew_reserved x)"
  by (auto simp: activeReserved_def lookupExecution_def simp del: map_of_eq_Some_iff split: option.splits dest: jget_key)

lemma activeReserved_refs:
  assumes "active_ok s" and "unreacted_active s"
  shows "card (set (activeReserved s)) = card (reservedRefs s)"
proof (rule bij_betw_same_card[of "\<lambda>i. the (jget (ae_active s) i)"], unfold bij_betw_def, intro conjI)
  have ref: "\<exists>r. jget (ae_active s) i = Some r \<and> (\<exists>re. core s r = Some (i, True, re))" if "i \<in> set (activeReserved s)" for i
  proof -
    obtain r x where l: "lookupExecution s i = Some (r, x)" "ew_reserved x" using \<open>i \<in> _\<close> unfolding activeReserved_iff by blast
    then have a: "jget (ae_active s) i = Some r" and o: "jget (ae_objects s) r = Some x"
      by (auto simp: lookupExecution_def simp del: map_of_eq_Some_iff split: option.splits)
    from active_okD(1)[OF assms(1) a] o l(2) a show ?thesis by (auto simp: core_def simp del: map_of_eq_Some_iff)
  qed
  show "inj_on (\<lambda>i. the (jget (ae_active s) i)) (set (activeReserved s))"
  proof (rule inj_onI)
    fix i j assume i: "i \<in> set (activeReserved s)" and j: "j \<in> set (activeReserved s)"
      and e: "the (jget (ae_active s) i) = the (jget (ae_active s) j)"
    from ref[OF i] ref[OF j] e show "i = j" by auto
  qed
  show "(\<lambda>i. the (jget (ae_active s) i)) ` set (activeReserved s) = reservedRefs s"
  proof (intro equalityI subsetI)
    fix r assume "r \<in> (\<lambda>i. the (jget (ae_active s) i)) ` set (activeReserved s)"
    then show "r \<in> reservedRefs s" using ref unfolding reservedRefs_def by fastforce
  next
    fix r assume "r \<in> reservedRefs s"
    then obtain i re where c: "core s r = Some (i, True, re)" unfolding reservedRefs_def by blast
    then have "core s r = Some (i, True, False)" using active_okD(3)[OF assms(1), of r i] by (cases re) auto
    then have a: "jget (ae_active s) i = Some r" using assms(2) unfolding unreacted_active_def by blast
    with c have "i \<in> set (activeReserved s)" unfolding activeReserved_iff
      by (auto simp: lookupExecution_def core_def simp del: map_of_eq_Some_iff)
    with a show "r \<in> (\<lambda>i. the (jget (ae_active s) i)) ` set (activeReserved s)" by (metis image_eqI option.sel)
  qed
qed

text \<open>C26: As long as a waiting execution is stopped or added again only after its run has ended, the capacity the
  process holds is that of the executions being added and of the active ones that reserved some: nothing else
  holds capacity, and without any of them all of it is released.\<close>

theorem capacity_held_by_active:
  assumes "lives_orderly\<^sup>*\<^sup>* newActiveExecutions s"
  shows "ae_acquired s = length (filter ad_reserved (ae_adding s)) + card (set (activeReserved s))"
  using orderly_executions.inv_reachable[OF assms] activeReserved_refs active_okD(4) by metis

section \<open>Cancelling while the run still ends\<close>

definition orphan :: "nat \<Rightarrow> ActiveExecutions \<Rightarrow> bool" where
  "orphan r s \<longleftrightarrow> (\<forall>i. jget (ae_active s) i \<noteq> Some r) \<and>
     (\<exists>x. jget (ae_objects s) r = Some x \<and> ew_postExecute x = Pending \<and> ew_reserved x)"

lemma lookupExecution_objects:
  "lookupExecution s i = Some (r, x) \<Longrightarrow> jget (ae_active s) i = Some r \<and> jget (ae_objects s) r = Some x"
  by (auto simp: lookupExecution_def simp del: map_of_eq_Some_iff split: option.splits)

lemma orphan_change: "orphan r s \<Longrightarrow> q \<noteq> r \<Longrightarrow> orphan r (change s q f)"
  by (simp add: orphan_def del: map_of_eq_Some_iff)

lemma orphan_same: "orphan r s \<Longrightarrow> ae_objects t = ae_objects s \<Longrightarrow>
    (\<And>i q. jget (ae_active t) i = Some q \<Longrightarrow> jget (ae_active s) i = Some q) \<Longrightarrow> orphan r t"
  by (auto simp: orphan_def simp del: map_of_eq_Some_iff)

lemma orphan_lookup: "orphan r s \<Longrightarrow> lookupExecution s i = Some (q, x) \<Longrightarrow> q \<noteq> r"
  using lookupExecution_objects unfolding orphan_def by blast

lemma orphan_response: "orphan r s \<Longrightarrow> orphan r (settleResponse s p v)"
  by (rule orphan_same) simp_all

lemma orphan_remove: "orphan r s \<Longrightarrow> orphan r (removeExecution s i)"
  by (rule orphan_same) (auto simp: removeExecution_def split: if_splits)

lemma orphan_stop:
  assumes "orphan r s"
  shows "orphan r (stopActive s i e)"
proof (cases "lookupExecution s i")
  case (Some qx)
  obtain q x where qx: "qx = (q, x)" by fastforce
  let ?s1 = "settleResponse s (ew_responsePromise x) (Rejected e)"
  let ?s2 = "case ew_workflowExecution x of None \<Rightarrow> ?s1 | Some w \<Rightarrow> ?s1\<lparr>ae_cancelled := ae_cancelled ?s1 @ [w]\<rparr>"
  have "orphan r ?s2" by (rule orphan_same[OF orphan_response[OF assms, of "ew_responsePromise x" "Rejected e"]])
      (auto split: option.split option.splits)
  then have "orphan r (settlePost ?s2 q (Rejected e))" unfolding settlePost_def
    using orphan_change orphan_lookup[OF assms Some[unfolded qx]] by blast
  with orphan_remove[OF orphan_response[OF assms]] show ?thesis by (simp add: stopActive_def Some qx Let_def)
qed (simp add: stopActive_def assms)

lemma orphan_shutdown: "orphan r s \<Longrightarrow> orphan r (fst (shutdown s regular cancelAll))"
proof -
  have gone: "orphan r u \<Longrightarrow> orphan r (u\<lparr>ae_active := jdel (ae_active u) i\<rparr>)" for u i
    by (rule orphan_same) (auto split: if_splits)
  have one: "orphan r (fst st) \<Longrightarrow> orphan r (fst (shutdownStep b st i))" for b st i
    using gone orphan_stop by (auto simp: shutdownStep_def split: option.split prod.split)
  have all: "orphan r (fst st) \<Longrightarrow> orphan r (fst (foldl (shutdownStep b) st is))" for b st "is"
    by (induction "is" arbitrary: st) (simp_all add: one)
  show "orphan r s \<Longrightarrow> ?thesis" using all[of "(s, [])"] by (simp add: shutdown_def)
qed

lemma orphan_others:
  assumes "orphan r s"
  shows "orphan r (or_unchanged s (attachWorkflowExecution s i w))" "orphan r (or_unchanged s (attachResponsePromise s i p))"
    "orphan r (or_unchanged s (setStatus s i status))" "orphan r (finalizeExecution s i d)"
    "orphan r (resolveResponsePromise s i j)" "orphan r (resolveExecutionResponsePromise s i)" "orphan r (setResponseMode s i m)"
  using assms orphan_lookup[OF assms]
  by (auto simp: or_unchanged_def attachWorkflowExecution_def attachResponsePromise_def setStatus_def finalizeExecution_def
      getExecutionOrFail_def settlePost_def resolveResponsePromise_def resolveExecutionResponsePromise_def
      intro!: orphan_change orphan_response split: sum.splits option.splits)
    (auto simp: orphan_def setResponseMode_def)

lemma orphan_below: "orphan r s \<Longrightarrow> active_ok s \<Longrightarrow> r < ae_next s"
  using active_okD(2)[of s r] by (auto simp: orphan_def core_def)

lemma orphan_step:
  assumes "orphan r s" and "active_ok s" and "active_step s e = Some t"
  shows "orphan r t"
proof (cases e)
  case (Reacted q)
  with assms(3) obtain x where x: "jget (ae_objects s) q = Some x" "ew_postExecute x \<noteq> Pending" and t: "t = reaction s q"
    by (auto simp del: map_of_eq_Some_iff split: option.splits if_splits)
  have q: "q \<noteq> r" using assms(1) x by (auto simp: orphan_def simp del: map_of_eq_Some_iff)
  have "orphan r ((change s q (\<lambda>x. x\<lparr>ew_reserved := False\<rparr>))\<lparr>ae_acquired := ae_acquired s - 1\<rparr>)"
    by (rule orphan_same[OF orphan_change[OF assms(1) q]]) simp_all
  with assms(1) have "orphan r (releaseReservation s q x)" by (simp add: releaseReservation_def)
  then show ?thesis unfolding t reaction_def x(1)
    by (simp add: Let_def orphan_change[OF _ q] orphan_remove)
next
  case (Registered k now)
  with assms(3) have t: "t = addRegistered s k now" by (auto split: if_splits)
  have "r \<noteq> ae_next s" using orphan_below[OF assms(1,2)] by simp
  with assms(1) show ?thesis
    by (auto simp: orphan_def t addRegistered_def Let_def simp del: map_of_eq_Some_iff split: if_splits)
next
  case (Reserved i mode)
  with assms show ?thesis by (auto intro: orphan_same simp: addReserved_def Let_def)
next
  case (AddFailed k)
  with assms show ?thesis by (auto intro: orphan_same simp: addFailed_def split: if_splits)
next
  case (Stop i err)
  with assms orphan_stop show ?thesis by auto
next
  case (Shutdown regular cancelAll)
  with assms orphan_shutdown show ?thesis by auto
qed (use assms orphan_others[OF assms(1)] in auto)

text \<open>C27: Cancelling an execution that has begun to wait, before its run has ended, leaks its capacity: the entry is
  deleted without settling the promise of the run, so that the end of the run finds no entry. Whatever happens next, the
  promise is never settled and the reserved capacity never released.\<close>

theorem cancel_leaks_capacity:
  assumes "lives\<^sup>*\<^sup>* newActiveExecutions s" and "lookupExecution s i = Some (r, x)"
    and "ew_status x = Waiting" and "ew_postExecute x = Pending" and "ew_reserved x"
    and "lives\<^sup>*\<^sup>* (stopActive s i e) t"
  shows "(\<exists>y. jget (ae_objects t) r = Some y \<and> ew_postExecute y = Pending \<and> ew_reserved y) \<and> 0 < ae_acquired t"
proof -
  have ok: "active_ok s" by (rule executions.inv_reachable[OF assms(1)])
  note l = lookupExecution_objects[OF assms(2)]
  have "jget (ae_active (removeExecution u i)) j \<noteq> Some r" if "ae_active u = ae_active s" for u j
  proof
    assume a: "jget (ae_active (removeExecution u i)) j = Some r"
    then have j: "j \<noteq> i" "jget (ae_active s) j = Some r" using that by (auto simp: removeExecution_def split: if_splits)
    from active_okD(1)[OF ok j(2)] active_okD(1)[OF ok conjunct1[OF l]] j(1) show False by auto
  qed
  then have "orphan r (stopActive s i e)"
    using l assms(3-5) by (simp add: orphan_def stopActive_def assms(2) Let_def removeExecution_def del: map_of_eq_Some_iff)
  moreover have "active_ok (stopActive s i e)" by (rule keeps_ok[OF stopActive_keeps ok])
  ultimately have start: "orphan r (stopActive s i e) \<and> active_ok (stopActive s i e)" by blast
  from assms(6) have "orphan r t \<and> active_ok t"
    by (induction rule: rtranclp_induct) (use start orphan_step active_step_ok in \<open>auto simp: lives_def\<close>)
  then have o: "orphan r t" and ok': "active_ok t" by blast+
  have "r \<in> reservedRefs t" using o by (auto simp: orphan_def reservedRefs_def core_def simp del: map_of_eq_Some_iff)
  then have "0 < card (reservedRefs t)" by (auto simp: card_gt_0_iff reservedRefs_finite)
  with active_okD(4)[OF ok'] o show ?thesis by (simp add: orphan_def del: map_of_eq_Some_iff)
qed

text \<open>A run of a webhook execution that begins to wait, is cancelled, and then ends.\<close>

definition waitingRun :: ActiveExecutions where
  "waitingRun =
     (let s = addRegistered (addReserved newActiveExecutions ''7'' Mode_webhook) 0 5
      in or_unchanged s (setStatus s ''7'' Waiting))"

lemma waitingRun_reachable: "lives_orderly\<^sup>*\<^sup>* newActiveExecutions waitingRun" "lives\<^sup>*\<^sup>* newActiveExecutions waitingRun"
proof -
  let ?a = "addReserved newActiveExecutions ''7'' Mode_webhook"
  let ?b = "addRegistered ?a 0 5"
  have a: "lives_orderly newActiveExecutions ?a"
    unfolding lives_orderly_def by (rule exI[of _ "Reserved ''7'' Mode_webhook"]) (simp add: orderly_def)
  have b: "lives_orderly ?a ?b"
    unfolding lives_orderly_def by (rule exI[of _ "Registered 0 5"])
      (simp add: orderly_def addReserved_def newActiveExecutions_def lookupExecution_def Let_def)
  have c: "lives_orderly ?b waitingRun" unfolding waitingRun_def Let_def lives_orderly_def
    by (intro exI[of _ "StatusSet ''7'' Waiting"]) (simp add: orderly_def)
  show "lives_orderly\<^sup>*\<^sup>* newActiveExecutions waitingRun" using a b c by simp
  then show "lives\<^sup>*\<^sup>* newActiveExecutions waitingRun"
    by (rule rtranclp_mono[THEN predicate2D, rotated]) (auto simp: lives_def lives_orderly_def)
qed

lemma capacity_held_by_active_witness:
  "ae_acquired waitingRun = 1 \<and> activeReserved waitingRun = [''7''] \<and>
   ae_acquired waitingRun = length (filter ad_reserved (ae_adding waitingRun)) + card (set (activeReserved waitingRun))"
  using capacity_held_by_active[OF waitingRun_reachable(1)] by (intro conjI) (code_simp, code_simp, simp)

lemma cancel_leaks_capacity_witness:
  "0 < ae_acquired (finalizeExecution (stopActive waitingRun ''7'' AssertionError) ''7'' (Some JNull))"
proof -
  obtain x where x: "lookupExecution waitingRun ''7'' = Some (0, x)" "ew_status x = Waiting" "ew_postExecute x = Pending" "ew_reserved x"
  proof
    show "lookupExecution waitingRun ''7'' = Some (0, snd (the (lookupExecution waitingRun ''7'')))" by code_simp
  qed code_simp+
  have "lives\<^sup>*\<^sup>* (stopActive waitingRun ''7'' AssertionError)
      (finalizeExecution (stopActive waitingRun ''7'' AssertionError) ''7'' (Some JNull))"
    unfolding lives_def by (intro r_into_rtranclp exI[of _ "Finalized ''7'' (Some JNull)"]) simp
  from cancel_leaks_capacity[OF waitingRun_reachable(2) x this] show ?thesis by blast
qed

end
