(* ===== verification/Node_Output.thy ===== *)
theory Node_Output
  imports Node_Scheduling
begin

text \<open>
  What \<^verbatim>\<open>WorkflowExecute\<close> (\<^verbatim>\<open>packages/core/src/execution-engine/workflow-execute.ts\<close>) does to the items
  a node gets and returns: the lineage stamped on its input, the choice of the input data it is called
  with, the pairing of its output items, the routing of items with errors to the error output, and the
  item of a node that always outputs data.

  A \<open>json\<close> object is the list of its properties. A hole of an array is the slot \<open>Undefined\<close>: \<^verbatim>\<open>map\<close>,
  \<^verbatim>\<open>filter\<close> and \<^verbatim>\<open>forEach\<close> leave it out, \<^verbatim>\<open>for ... of\<close> visits it.
\<close>

section \<open>Values\<close>

fun js_truthy :: "json \<Rightarrow> bool" where
  "js_truthy JNull = False"
| "js_truthy (JBool b) = b"
| "js_truthy (JNum n) = (n \<noteq> 0)"
| "js_truthy (JStr s) = (s \<noteq> [])"
| "js_truthy (JArr _) = True"
| "js_truthy (JObj _) = True"

text \<open>\<open>x.message\<close>.\<close>

fun messageOf :: "json \<Rightarrow> json option result" where
  "messageOf JNull = Inl TypeError"
| "messageOf (JObj m) = Inr (jget m ''message'')"
| "messageOf _ = Inr None"

text \<open>An object with the property \<^verbatim>\<open>error\<close>.\<close>

definition errorJson :: "json option \<Rightarrow> (string \<times> json) list" where
  "errorJson e = (case e of None \<Rightarrow> [] | Some v \<Rightarrow> [(''error'', v)])"

text \<open>\<open>{...a, ...b}\<close>.\<close>

definition spread :: "(string \<times> json) list \<Rightarrow> (string \<times> json) list \<Rightarrow> (string \<times> json) list" where
  "spread a b = foldl (\<lambda>m (k, v). jset m k v) a b"

text \<open>\<open>data.main\<close>, and \<open>data.main.length\<close> of data that may have no main input.\<close>

abbreviation mainData :: "ITaskDataConnections \<Rightarrow> INodeExecutionData list slot list option" where
  "mainData data \<equiv> jget data main_type"

definition slotLength :: "'a list slot \<Rightarrow> nat option" where
  "slotLength s = (case s of Value xs \<Rightarrow> Some (length xs) | _ \<Rightarrow> None)"

fun has_items :: "'a list slot \<Rightarrow> bool" where
  "has_items (Value xs) = (xs \<noteq> [])"
| "has_items _ = False"

section \<open>Input\<close>

definition resolveSourceOverwrite :: "INodeExecutionData \<Rightarrow> ITaskMetadata option \<Rightarrow> ISourceData option" where
  "resolveSourceOverwrite item metadata =
     (case metadata of
        None \<Rightarrow> None
      | Some m \<Rightarrow>
          if \<not> tm_preserveSourceOverwrite m then None
          else if tm_preservedSourceOverwrite m \<noteq> None then tm_preservedSourceOverwrite m
          else case ned_pairedItem item of Some (PairedObject p) \<Rightarrow> pi_sourceOverwrite p | _ \<Rightarrow> None)"

definition stampItem :: "ITaskMetadata option \<Rightarrow> nat \<Rightarrow> nat \<times> INodeExecutionData \<Rightarrow> INodeExecutionData" where
  "stampItem metadata inputIndex p =
     (snd p)\<lparr>ned_pairedItem := Some (PairedObject \<lparr>pi_item = fst p,
       pi_input = (if inputIndex = 0 then None else Some inputIndex),
       pi_sourceOverwrite = resolveSourceOverwrite (snd p) metadata\<rparr>)\<rparr>"

definition stampInput :: "ITaskMetadata option \<Rightarrow> nat \<times> INodeExecutionData list slot \<Rightarrow> INodeExecutionData list slot" where
  "stampInput metadata p =
     (case snd p of Value items \<Rightarrow> Value (map (stampItem metadata (fst p)) (List.enumerate 0 items)) | s \<Rightarrow> s)"

definition addPairedItemLineage :: "ITaskMetadata option \<Rightarrow> ITaskDataConnections \<Rightarrow> ITaskDataConnections" where
  "addPairedItemLineage metadata data =
     map (\<lambda>(connectionType, inputs). (connectionType, map (stampInput metadata) (List.enumerate 0 inputs))) data"

definition firstItemOnly :: "INodeExecutionData list slot \<Rightarrow> INodeExecutionData list slot" where
  "firstItemOnly input = (case input of Value items \<Rightarrow> Value (take 1 items) | s \<Rightarrow> s)"

definition handleExecuteOnce :: "INode \<Rightarrow> ITaskDataConnections \<Rightarrow> ITaskDataConnections" where
  "handleExecuteOnce node inputData =
     (if ns_executeOnce (node_settings node) = Some True
      then map (\<lambda>(connectionType, inputs). (connectionType, map firstItemOnly inputs)) inputData
      else inputData)"

text \<open>What the code asks of the type of a node. \<^verbatim>\<open>customOperation\<close> is what \<^verbatim>\<open>getCustomOperation\<close> finds for
  the node's parameters. The inputs of a description are a list or an expression; \<^verbatim>\<open>length\<close> is asked of
  either. The required inputs are those after the evaluation of an expression.\<close>

datatype InputsDescription = InputList nat | InputExpression string

fun inputsLength :: "InputsDescription \<Rightarrow> nat" where
  "inputsLength (InputList n) = n"
| "inputsLength (InputExpression e) = length e"

datatype RequiredInputs = InputAmount int | InputIndexes "nat list"

record RunnableType =
  rt_execute :: bool
  rt_customOperation :: bool
  rt_poll :: bool
  rt_trigger :: bool
  rt_supplyData :: bool
  rt_webhook :: bool
  rt_requestDefaults :: bool
  rt_inputs :: InputsDescription
  rt_requiredInputs :: "RequiredInputs option"
  rt_mainOutputs :: nat

text \<open>In the legacy order, the input whose data came back from a node further down.\<close>

fun loopInput :: "string \<Rightarrow> string list \<Rightarrow> ISourceData slot list \<Rightarrow> nat \<Rightarrow> INodeExecutionData list slot list \<Rightarrow>
    INodeExecutionData list slot option" where
  "loopInput name descendants sources i [] = None"
| "loopInput name descendants sources i (d # ds) =
     (if has_items d \<and> (case slot_get sources i of
           Value s \<Rightarrow> previousNode s = name \<or> previousNode s \<in> set descendants | _ \<Rightarrow> False)
      then Some d else loopInput name descendants sources (Suc i) ds)"

definition needsInputData :: "RunnableType \<Rightarrow> bool" where
  "needsInputData rt \<longleftrightarrow> rt_execute rt \<or> rt_customOperation rt \<or> (\<not> rt_poll rt \<and> \<not> rt_trigger rt \<and> \<not> rt_webhook rt)"

definition chosenInput :: "RunnableWorkflow \<Rightarrow> INode \<Rightarrow> INodeExecutionData list slot list \<Rightarrow>
    ITaskDataConnectionsSource option \<Rightarrow> INodeExecutionData list slot" where
  "chosenInput w node main source =
     (if \<not> isLegacyExecutionOrder w
      then (case find has_items main of Some d \<Rightarrow> d | None \<Rightarrow> slot_get main 0)
      else let sources = (case source of None \<Rightarrow> [] | Some s \<Rightarrow> (case jget s main_type of None \<Rightarrow> [] | Some l \<Rightarrow> l))
           in if \<not> has_items (slot_get main 0) \<and> slot_get sources 0 = Null
              then (case loopInput (node_name node)
                      (getChildNodes (connectionsBySourceNode w) (node_name node) main_type (-1)) sources 0 main of
                      Some d \<Rightarrow> d | None \<Rightarrow> slot_get main 0)
              else slot_get main 0)"

definition prepareConnectionInputData :: "RunnableWorkflow \<Rightarrow> RunnableType \<Rightarrow> INode \<Rightarrow> ITaskDataConnections \<Rightarrow>
    ITaskDataConnectionsSource option \<Rightarrow> INodeExecutionData list option" where
  "prepareConnectionInputData w rt node inputData source =
     (if needsInputData rt
      then case mainData inputData of
          None \<Rightarrow> None
        | Some main \<Rightarrow>
            if main = [] then None
            else (case chosenInput w node main source of
                Value items \<Rightarrow> if items = [] then None else Some items
              | _ \<Rightarrow> None)
      else Some [])"

section \<open>Output\<close>

text \<open>What an output has in common with the main input of its node: some of its arrays, as pairs of an output
  and an input index, or the whole array of outputs.\<close>

datatype sharing = SharedArrays "(nat \<times> nat) list" | SharedMain

text \<open>The output of a disabled node.\<close>

definition handleDisabledNode :: "ITaskDataConnections \<Rightarrow> bool \<Rightarrow> INodeExecutionData list slot list option \<times> sharing" where
  "handleDisabledNode inputData forwardAllOutputs =
     (case mainData inputData of
        None \<Rightarrow> (None, SharedArrays [])
      | Some main \<Rightarrow>
          if main = [] then (None, SharedArrays [])
          else if forwardAllOutputs then (Some main, SharedMain)
          else if slot_get main 0 = Null then (None, SharedArrays [])
          else (Some [slot_get main 0], SharedArrays [(0, 0)]))"

definition continuesOnError :: "INode \<Rightarrow> bool" where
  "continuesOnError node \<longleftrightarrow>
     ns_continueOnFail (node_settings node) = Some True \<or>
     ns_onError (node_settings node) \<in> {Some ''continueRegularOutput'', Some ''continueErrorOutput''}"

text \<open>\<open>isErrorValue(data?.[0]?.[0]?.json?.error)\<close>.\<close>

definition reportsFailure :: "INodeExecutionData list slot list option \<Rightarrow> bool" where
  "reportsFailure outs =
     (case outs of
        None \<Rightarrow> False
      | Some os \<Rightarrow>
          (case slot_get os 0 of
             Value (item # _) \<Rightarrow> (case jget (ned_json item) ''error'' of
                 None \<Rightarrow> False | Some v \<Rightarrow> v \<noteq> JNull \<and> v \<noteq> JBool False)
           | _ \<Rightarrow> False))"

subsection \<open>handleNodeErrorOutput\<close>

definition isErrorItem :: "INodeExecutionData \<Rightarrow> bool" where
  "isErrorItem item \<longleftrightarrow>
     (case ned_error item of Some e \<Rightarrow> js_truthy e | None \<Rightarrow> False) \<or>
     (case jget (ned_json item) ''error'' of
        None \<Rightarrow> False
      | Some e \<Rightarrow> js_truthy e \<and> set (jkeys (ned_json item)) \<subseteq> {''error'', ''message'', ''details''})"

fun firstPair :: "PairedItem option \<Rightarrow> IPairedItemData option" where
  "firstPair (Some (PairedObject p)) = Some p"
| "firstPair (Some (PairedArray (p # ps))) = Some p"
| "firstPair _ = None"

text \<open>\<open>executionData.source[main][index]\<close> when its \<^verbatim>\<open>previousNode\<close> is read.\<close>

definition sourceAt :: "ITaskDataConnectionsSource \<Rightarrow> nat \<Rightarrow> ISourceData result" where
  "sourceAt source i =
     bind_res (defined (jget source main_type)) (\<lambda>sources.
       case slot_get sources i of Value s \<Rightarrow> Inr s | _ \<Rightarrow> Inl TypeError)"

text \<open>The item put on the error output; \<open>pairedItem\<close> stands for \<^verbatim>\<open>$getPairedItem\<close> of the data proxy.\<close>

definition errorItem :: "(ISourceData \<Rightarrow> IPairedItemData \<Rightarrow> INodeExecutionData option result) \<Rightarrow>
    ITaskDataConnectionsSource option \<Rightarrow> INodeExecutionData \<Rightarrow> INodeExecutionData result" where
  "errorItem pairedItem source item =
     (case (source, firstPair (ned_pairedItem item)) of
        (Some s, Some p) \<Rightarrow>
          bind_res (sourceAt s (case pi_input p of None \<Rightarrow> 0 | Some i \<Rightarrow> i)) (\<lambda>sourceData.
            bind_res (pairedItem sourceData p) (\<lambda>found.
              Inr (case found of None \<Rightarrow> item
                | Some f \<Rightarrow> item\<lparr>ned_json := spread (ned_json f) (ned_json item)\<rparr>)))
      | _ \<Rightarrow> Inr item)"

text \<open>The items of one output: an error with the items not yet taken, or the items that stay and the error
  items found so far.\<close>

fun splitItems :: "(INodeExecutionData \<Rightarrow> INodeExecutionData result) \<Rightarrow> INodeExecutionData list \<Rightarrow>
    INodeExecutionData list \<Rightarrow> INodeExecutionData list \<Rightarrow>
    (js_error \<times> INodeExecutionData list) + (INodeExecutionData list \<times> INodeExecutionData list)" where
  "splitItems f [] ok errs = Inr (ok, errs)"
| "splitItems f (item # items) ok errs =
     (if isErrorItem item
      then case f item of Inl e \<Rightarrow> Inl (e, items) | Inr item' \<Rightarrow> splitItems f items ok (errs @ [item'])
      else splitItems f items (ok @ [item]) errs)"

text \<open>The loop over the outputs before the error output. \<open>drained\<close> says what is left of the array that was at
  an output.\<close>

type_synonym drained = "(nat \<times> INodeExecutionData list) list"

fun errorOutputLoop :: "(INodeExecutionData \<Rightarrow> INodeExecutionData result) \<Rightarrow> nat \<Rightarrow> nat \<Rightarrow>
    INodeExecutionData list slot list \<Rightarrow> INodeExecutionData list \<Rightarrow> drained \<Rightarrow>
    js_error option \<times> drained \<times> INodeExecutionData list slot list \<times> INodeExecutionData list" where
  "errorOutputLoop f i 0 outs errs drained = (None, drained, outs, errs)"
| "errorOutputLoop f i (Suc n) outs errs drained =
     (let items = slot_or (slot_get outs i) []
      in case splitItems f items [] errs of
          Inl (e, left) \<Rightarrow> (Some e, drained @ [(i, left)], outs, errs)
        | Inr (ok, errs') \<Rightarrow>
            errorOutputLoop f (Suc i) n (slot_set outs i (Value ok)) errs'
              (if items = [] then drained else drained @ [(i, [])]))"

definition handleNodeErrorOutput :: "(ISourceData \<Rightarrow> IPairedItemData \<Rightarrow> INodeExecutionData option result) \<Rightarrow>
    ITaskDataConnectionsSource option \<Rightarrow> nat \<Rightarrow> INodeExecutionData list slot list \<Rightarrow>
    js_error option \<times> drained \<times> INodeExecutionData list slot list" where
  "handleNodeErrorOutput pairedItem source mainOutputs outs =
     (case errorOutputLoop (errorItem pairedItem source) 0 (mainOutputs - 1) outs [] [] of
        (Some e, drained, outs', _) \<Rightarrow> (Some e, drained, outs')
      | (None, drained, outs', errs) \<Rightarrow>
          (None, drained, if mainOutputs = 0 then outs' else slot_set outs' (mainOutputs - 1) (Value errs)))"

text \<open>What the changes of the output do to an input that shares its arrays.\<close>

definition writeShared :: "sharing \<Rightarrow> drained \<Rightarrow> INodeExecutionData list slot list \<Rightarrow> ITaskDataConnections \<Rightarrow>
    ITaskDataConnections" where
  "writeShared shared drained outs data =
     (case (shared, mainData data) of
        (_, None) \<Rightarrow> data
      | (SharedMain, Some _) \<Rightarrow> jset data main_type outs
      | (SharedArrays pairs, Some main) \<Rightarrow> jset data main_type
          (foldl (\<lambda>m (out, input). case jget drained out of
              None \<Rightarrow> m | Some left \<Rightarrow> slot_set m input (Value left)) main pairs))"

subsection \<open>assignPairedItems\<close>

abbreviation pairedWith :: "nat \<Rightarrow> PairedItem" where
  "pairedWith i \<equiv> PairedObject \<lparr>pi_item = i, pi_input = None, pi_sourceOverwrite = None\<rparr>"

text \<open>The items of one output, and whether the loop is left because an item cannot be paired.\<close>

fun pairItems :: "(nat \<Rightarrow> PairedItem option) \<Rightarrow> nat \<Rightarrow> INodeExecutionData list \<Rightarrow> bool \<times> INodeExecutionData list" where
  "pairItems pairing i [] = (False, [])"
| "pairItems pairing i (item # items) =
     (if ned_pairedItem item = None \<and> pairing i = None then (True, item # items)
      else let (stop, items') = pairItems pairing (Suc i) items
           in (stop, (if ned_pairedItem item = None then item\<lparr>ned_pairedItem := pairing i\<rparr> else item) # items'))"

fun pairOutputs :: "(nat \<Rightarrow> PairedItem option) \<Rightarrow> INodeExecutionData list slot list \<Rightarrow>
    js_error option \<times> INodeExecutionData list slot list" where
  "pairOutputs pairing [] = (None, [])"
| "pairOutputs pairing (Null # outs) = (let (e, outs') = pairOutputs pairing outs in (e, Null # outs'))"
| "pairOutputs pairing (Undefined # outs) = (Some TypeError, Undefined # outs)"
| "pairOutputs pairing (Value items # outs) =
     (let (stop, items') = pairItems pairing 0 items
      in if stop then (None, Value items' # outs)
         else let (e, outs') = pairOutputs pairing outs in (e, Value items' # outs'))"

definition pairingOf :: "INodeExecutionData list slot list \<Rightarrow> INodeExecutionData list slot list \<Rightarrow>
    (nat \<Rightarrow> PairedItem option) result" where
  "pairingOf main outs =
     (let inputItems = (if length main = 1 then slotLength (slot_get main 0) else None);
          isSingleInputAndOutput = (inputItems = Some 1)
      in if length outs = 1 \<and> length main = 1 \<and> slotLength (slot_get outs 0) = None then Inl TypeError
         else let isSameNumberOfItems = (length outs = 1 \<and> length main = 1 \<and> inputItems = slotLength (slot_get outs 0));
                  isSingleOutput = (length outs = 1 \<and> slotLength (slot_get outs 0) = Some 1 \<and>
                    (case inputItems of None \<Rightarrow> False | Some k \<Rightarrow> k > 1))
              in Inr (\<lambda>i. if isSingleInputAndOutput then Some (pairedWith 0)
                          else if isSameNumberOfItems then Some (pairedWith i)
                          else if isSingleOutput then Some (pairedWith 0) else None))"

definition assignPairedItems :: "ITaskDataConnections \<Rightarrow> INodeExecutionData list slot list option \<Rightarrow>
    js_error option \<times> INodeExecutionData list slot list option" where
  "assignPairedItems data nodeSuccessData =
     (case nodeSuccessData of
        None \<Rightarrow> (None, None)
      | Some outs \<Rightarrow>
          if outs = [] then (None, Some outs)
          else case mainData data of
              None \<Rightarrow> (Some TypeError, Some outs)
            | Some main \<Rightarrow>
                (case pairingOf main outs of
                   Inl e \<Rightarrow> (Some e, Some outs)
                 | Inr pairing \<Rightarrow> (let (e, outs') = pairOutputs pairing outs in (e, Some outs'))))"

subsection \<open>ensureAlwaysOutputData and normalizeNodeErrors\<close>

definition inputPairs :: "INodeExecutionData list slot list \<Rightarrow> IPairedItemData list" where
  "inputPairs main = concat (map (\<lambda>(inputIndex, inputData).
     map (\<lambda>itemIndex. \<lparr>pi_item = itemIndex, pi_input = Some inputIndex, pi_sourceOverwrite = None\<rparr>)
       [0..<length (slot_or inputData [])]) (List.enumerate 0 main))"

definition ensureAlwaysOutputData :: "INode \<Rightarrow> ITaskDataConnections \<Rightarrow> INodeExecutionData list slot list option \<Rightarrow>
    INodeExecutionData list slot list option result" where
  "ensureAlwaysOutputData node data nodeSuccessData =
     (if (case nodeSuccessData of None \<Rightarrow> False | Some outs \<Rightarrow> has_items (slot_get outs 0)) then Inr nodeSuccessData
      else if ns_alwaysOutputData (node_settings node) \<noteq> Some True then Inr nodeSuccessData
      else bind_res (defined (mainData data)) (\<lambda>main.
        Inr (Some (slot_set (case nodeSuccessData of None \<Rightarrow> [] | Some outs \<Rightarrow> outs) 0
          (Value [\<lparr>ned_json = [], ned_pairedItem = Some (PairedArray (inputPairs main)), ned_error = None\<rparr>])))))"

definition normalizeItem :: "INodeExecutionData \<Rightarrow> INodeExecutionData result" where
  "normalizeItem item =
     (case (jget (ned_json item) ''$error'', jget (ned_json item) ''$json'') of
        (Some e, Some _) \<Rightarrow>
          bind_res (messageOf e) (\<lambda>m. Inr (item\<lparr>ned_error := Some e, ned_json := errorJson m\<rparr>))
      | _ \<Rightarrow> (case ned_error item of
            None \<Rightarrow> Inr item
          | Some e \<Rightarrow> bind_res (messageOf e) (\<lambda>m. Inr (item\<lparr>ned_json := errorJson m\<rparr>))))"

fun map_res :: "('a \<Rightarrow> 'b result) \<Rightarrow> 'a list \<Rightarrow> 'b list result" where
  "map_res f [] = Inr []"
| "map_res f (x # xs) = bind_res (f x) (\<lambda>y. bind_res (map_res f xs) (\<lambda>ys. Inr (y # ys)))"

definition normalizeOutput :: "INodeExecutionData list slot \<Rightarrow> INodeExecutionData list slot result" where
  "normalizeOutput s = (case s of Value items \<Rightarrow> map_sum id Value (map_res normalizeItem items) | _ \<Rightarrow> Inl TypeError)"

definition normalizeNodeErrors :: "INodeExecutionData list slot list option \<Rightarrow> INodeExecutionData list slot list result" where
  "normalizeNodeErrors nodeSuccessData =
     bind_res (defined nodeSuccessData) (map_res normalizeOutput)"

end
