(* ===== verification/Engine_Request.thy ===== *)
theory Engine_Request
  imports Node_Output
begin

text \<open>
  \<^verbatim>\<open>packages/core/src/execution-engine/requests-response.ts\<close>: a node, such as an agent, may return a request
  to run other nodes, its tools. \<^verbatim>\<open>handleRequest\<close> writes a placeholder run for every tool into the run data
  and says which nodes go on the stack: the tools, and below them the node itself, which resumes with their
  results. The tools' node objects get the connection type their output is logged to; they are shared by
  the workflow and the stack.
\<close>

record EngineRequest =
  er_actions :: "EngineAction list"
  er_metadata :: json

record EngineResponse =
  rs_actionResponses :: "(ITaskData \<times> EngineAction) list"
  rs_metadata :: json

definition makeEngineResponse :: EngineResponse where
  "makeEngineResponse = \<lparr>rs_actionResponses = [], rs_metadata = JObj []\<rparr>"

record NodeToBeExecuted =
  nb_connection :: IConnection
  nb_parentOutputIndex :: nat
  nb_parentNode :: string
  nb_parentOutputData :: "INodeExecutionData list slot list option"
  nb_runIndex :: nat
  nb_nodeRunIndex :: nat
  nb_metadata :: "ITaskMetadata option"

definition no_metadata :: ITaskMetadata where
  "no_metadata = \<lparr>tm_subNodeActions = None, tm_subNodeMetadata = JObj [], tm_preserveSourceOverwrite = False,
     tm_preservedSourceOverwrite = None, tm_nodeWasResumed = False, tm_forwardAllOutputs = False,
     tm_resumeError = None\<rparr>"

text \<open>The state the preparation of the actions changes, and what it collects.\<close>

record Preparation =
  pr_workflow :: RunnableWorkflow
  pr_sched :: Scheduling
  pr_nodes :: "NodeToBeExecuted list"
  pr_actions :: "(EngineAction \<times> string \<times> nat) list"

definition source_data :: "string \<Rightarrow> nat \<Rightarrow> nat \<Rightarrow> ISourceData" where
  "source_data n out run = \<lparr>previousNode = n, previousNodeOutput = Some out, previousNodeRun = Some run\<rparr>"

definition buildParentOutputData :: "(string \<times> json) list \<Rightarrow> nat \<Rightarrow> nat \<Rightarrow> string \<Rightarrow>
    INodeExecutionData list slot list" where
  "buildParentOutputData j parentRunIndex parentOutputIndex parentSourceNode =
     [Value [\<lparr>ned_json = j, ned_pairedItem = Some (PairedObject \<lparr>pi_item = parentRunIndex,
        pi_input = Some parentOutputIndex,
        pi_sourceOverwrite = Some (source_data parentSourceNode parentOutputIndex parentRunIndex)\<rparr>),
        ned_error = None\<rparr>]]"

text \<open>The placeholder run and its index.\<close>

definition initializeNodeRunData :: "IRunData \<Rightarrow> string \<Rightarrow> string \<Rightarrow> nat \<Rightarrow> nat \<Rightarrow> string option \<Rightarrow> nat \<Rightarrow>
    INodeExecutionData list slot list \<Rightarrow> IRunData \<times> nat" where
  "initializeNodeRunData runData nodeName parentNode parentOutputIndex parentRunIndex parentNodeName runIndex
     displayOutputData =
     (let nodeRunData = (case jget runData nodeName of None \<Rightarrow> [] | Some runs \<Rightarrow> runs)
      in (jset runData nodeName (nodeRunData @ [\<lparr>td_executionIndex = Some 0,
            td_source = [Value (source_data parentNode parentOutputIndex
              (if parentNodeName \<noteq> None \<and> parentNodeName \<noteq> Some [] then parentRunIndex else runIndex))],
            td_data = None, td_error = None, td_executionStatus = None,
            td_inputOverride = Some [(ai_tool_type, displayOutputData)], td_metadata = None\<rparr>]),
          length nodeRunData))"

text \<open>\<open>executionData.source?.main?.[i]\<close>.\<close>

definition sourceEntry :: "ITaskDataConnectionsSource option \<Rightarrow> nat \<Rightarrow> ISourceData option" where
  "sourceEntry source i =
     Option.bind source (\<lambda>s. Option.bind (jget s main_type) (\<lambda>sources.
       case slot_get sources i of Value d \<Rightarrow> Some d | _ \<Rightarrow> None))"

text \<open>\<open>node.rewireOutputLogTo = type\<close> on a node of the workflow, seen by the stack entries that hold the same
  object.\<close>

definition rewireLog :: "string \<Rightarrow> connection_type \<Rightarrow> RunnableWorkflow \<Rightarrow> Scheduling \<Rightarrow> RunnableWorkflow \<times> Scheduling" where
  "rewireLog name t w st =
     (case jget (wf_nodes w) name of
        None \<Rightarrow> (w, st)
      | Some node \<Rightarrow>
          let node' = node\<lparr>node_rewireOutputLogTo := Some t\<rparr>
          in (w\<lparr>wf_nodes := jset (wf_nodes w) name node'\<rparr>,
              st\<lparr>sc_stack := map (\<lambda>item. if si_node item = Some node then item\<lparr>si_node := Some node'\<rparr> else item)
                 (sc_stack st)\<rparr>))"

text \<open>One action. A parent whose recorded runs are an empty array counts as run 0, where the code has -1.\<close>

definition prepareAction :: "INode \<Rightarrow> nat \<Rightarrow> StackItem \<Rightarrow> EngineAction \<Rightarrow> Preparation \<Rightarrow>
    (js_error \<times> Preparation) + Preparation" where
  "prepareAction currentNode runIndex item action p =
     (let parentSourceData = sourceEntry (si_source item) runIndex;
          defaultParentOutputIndex = (case Option.bind parentSourceData previousNodeOutput of None \<Rightarrow> 0 | Some i \<Rightarrow> i);
          defaultParentSourceNode = (case parentSourceData of None \<Rightarrow> node_name currentNode | Some s \<Rightarrow> previousNode s)
      in if jget (wf_nodes (pr_workflow p)) (ea_nodeName action) = None
         then Inl (UnexpectedError ''Workflow does not contain a node with the name'', p)
         else
         let (w, st) = rewireLog (ea_nodeName action) (ea_type action) (pr_workflow p) (pr_sched p);
             ownParent = (ea_parentNodeName action \<noteq> None \<and> ea_parentNodeName action \<noteq> Some []);
             parentNode = (case ea_parentNodeName action of None \<Rightarrow> node_name currentNode | Some n \<Rightarrow> n);
             parentRunIndex = (if ownParent
               then (case jget (sc_runData st) parentNode of None \<Rightarrow> 1 | Some runs \<Rightarrow> length runs) - 1
               else (case Option.bind parentSourceData previousNodeRun of None \<Rightarrow> 0 | Some r \<Rightarrow> r));
             itemIndex = (case ea_itemIndex action of None \<Rightarrow> 0 | Some i \<Rightarrow> i);
             agentJson = (case mainData (si_data item) of
                 None \<Rightarrow> []
               | Some main \<Rightarrow> (case slot_get main 0 of
                     Value items \<Rightarrow> if itemIndex < length items then ned_json (items ! itemIndex) else []
                   | _ \<Rightarrow> []));
             mergedJson = jset (spread agentJson (ea_input action)) ''toolCallId'' (JStr (ea_id action));
             (runData, nodeRunIndex) = initializeNodeRunData (sc_runData st) (ea_nodeName action) parentNode
               defaultParentOutputIndex parentRunIndex (ea_parentNodeName action) runIndex
               (buildParentOutputData (spread [] (ea_input action)) parentRunIndex defaultParentOutputIndex
                 defaultParentSourceNode)
         in Inr \<lparr>pr_workflow = w, pr_sched = st\<lparr>sc_runData := runData\<rparr>,
              pr_nodes = pr_nodes p @ [\<lparr>
                nb_connection = \<lparr>con_node = ea_nodeName action, con_type = ea_type action, con_index = 0\<rparr>,
                nb_parentOutputIndex = 0, nb_parentNode = parentNode,
                nb_parentOutputData = Some (buildParentOutputData mergedJson parentRunIndex
                  defaultParentOutputIndex defaultParentSourceNode),
                nb_runIndex = (if ownParent then parentRunIndex else runIndex), nb_nodeRunIndex = nodeRunIndex,
                nb_metadata = Some (no_metadata\<lparr>tm_preserveSourceOverwrite := True,
                  tm_preservedSourceOverwrite := Some
                    (case Option.bind (si_metadata item) tm_preservedSourceOverwrite of
                       Some s \<Rightarrow> s
                     | None \<Rightarrow> source_data defaultParentSourceNode defaultParentOutputIndex parentRunIndex)\<rparr>)\<rparr>],
              pr_actions = pr_actions p @ [(action, ea_nodeName action, nodeRunIndex)]\<rparr>)"

definition prepareRequestedNodesForExecution :: "INode \<Rightarrow> nat \<Rightarrow> StackItem \<Rightarrow> EngineRequest \<Rightarrow> RunnableWorkflow \<Rightarrow>
    Scheduling \<Rightarrow> (js_error \<times> Preparation) + Preparation" where
  "prepareRequestedNodesForExecution currentNode runIndex item request w st =
     fold_res (prepareAction currentNode runIndex item) (er_actions request)
       \<lparr>pr_workflow = w, pr_sched = st, pr_nodes = [], pr_actions = []\<rparr>"

text \<open>The entry that lets the requesting node resume; none without a parent node.\<close>

definition prepareRequestingNodeForResuming :: "INode \<Rightarrow> nat \<Rightarrow> StackItem \<Rightarrow> EngineRequest \<Rightarrow>
    (EngineAction \<times> string \<times> nat) list \<Rightarrow> NodeToBeExecuted option" where
  "prepareRequestingNodeForResuming currentNode runIndex item request actions =
     (case sourceEntry (si_source item) 0 of
        None \<Rightarrow> None
      | Some s \<Rightarrow>
          if previousNode s = [] then None
          else let kept = (case si_metadata item of
                 None \<Rightarrow> None
               | Some m \<Rightarrow> if tm_preserveSourceOverwrite m then tm_preservedSourceOverwrite m else None)
            in Some \<lparr>nb_connection = \<lparr>con_node = node_name currentNode, con_type = ai_tool_type, con_index = 0\<rparr>,
                 nb_parentOutputIndex = 0, nb_parentNode = previousNode s,
                 nb_parentOutputData = mainData (si_data item), nb_runIndex = runIndex, nb_nodeRunIndex = runIndex,
                 nb_metadata = Some (no_metadata\<lparr>tm_nodeWasResumed := True,
                   tm_subNodeActions := Some actions, tm_subNodeMetadata := er_metadata request,
                   tm_preserveSourceOverwrite := (kept \<noteq> None), tm_preservedSourceOverwrite := kept\<rparr>)\<rparr>)"

definition handleRequest :: "INode \<Rightarrow> nat \<Rightarrow> StackItem \<Rightarrow> EngineRequest \<Rightarrow> RunnableWorkflow \<Rightarrow> Scheduling \<Rightarrow>
    (js_error \<times> RunnableWorkflow \<times> Scheduling) + (NodeToBeExecuted list \<times> RunnableWorkflow \<times> Scheduling)" where
  "handleRequest currentNode runIndex item request w st =
     (case prepareRequestedNodesForExecution currentNode runIndex item request w st of
        Inl (e, p) \<Rightarrow> Inl (e, pr_workflow p, pr_sched p)
      | Inr p \<Rightarrow>
          (case prepareRequestingNodeForResuming currentNode runIndex item request (pr_actions p) of
             None \<Rightarrow> Inr ([], pr_workflow p, pr_sched p)
           | Some agent \<Rightarrow> Inr (agent # (if wf_executionOrder w = Some ''v1'' then rev (pr_nodes p) else pr_nodes p),
               pr_workflow p, pr_sched p)))"

text \<open>\<^verbatim>\<open>WorkflowExecute.handleEngineRequest\<close>.\<close>

definition handleEngineRequest :: "INode \<Rightarrow> nat \<Rightarrow> StackItem \<Rightarrow> EngineRequest \<Rightarrow> RunnableWorkflow \<Rightarrow> Scheduling \<Rightarrow>
    (js_error \<times> RunnableWorkflow \<times> Scheduling) + (RunnableWorkflow \<times> Scheduling)" where
  "handleEngineRequest currentNode runIndex item request w0 st0 =
     (case handleRequest currentNode runIndex item request w0 st0 of
        Inl (e, w, st) \<Rightarrow> Inl (e, w, st)
      | Inr (nodes, w, st) \<Rightarrow>
          (case fold_res (\<lambda>n s. addNodeToBeExecuted w (nb_connection n) (nb_parentOutputIndex n) (nb_parentNode n)
                  (nb_parentOutputData n) (nb_runIndex n) (Some (nb_nodeRunIndex n)) (nb_metadata n) s) nodes st of
             Inl e \<Rightarrow> Inl (e, w, st)
           | Inr st' \<Rightarrow> Inr (w, st')))"

text \<open>\<^verbatim>\<open>WorkflowExecute.collectSubNodeResults\<close>.\<close>

definition collectSubNodeResults :: "StackItem \<Rightarrow> IRunData \<Rightarrow> EngineResponse \<Rightarrow> EngineResponse" where
  "collectSubNodeResults item runData response =
     (case si_metadata item of
        None \<Rightarrow> response
      | Some m \<Rightarrow>
          (case tm_subNodeActions m of
             None \<Rightarrow> response
           | Some actions \<Rightarrow> \<lparr>
               rs_actionResponses = rs_actionResponses response @ List.map_filter (\<lambda>(action, nodeName, i).
                 case jget runData nodeName of
                   None \<Rightarrow> None
                 | Some runs \<Rightarrow> if i < length runs then Some (runs ! i, action) else None) actions,
               rs_metadata = tm_subNodeMetadata m\<rparr>))"

end
