(* ===== verification/Waiting_Revival.thy ===== *)
theory Waiting_Revival
  imports Node_Output
begin

text \<open>
  The end of an iteration of \<^verbatim>\<open>processRunExecutionData\<close>: when the stack is empty and nodes still wait for
  inputs, the first of them that may run without the missing ones goes on the stack; entries without any
  item are removed. \<open>types\<close> is the look-up of the type of a node.
\<close>

section \<open>The entry that is taken\<close>

text \<open>\<^verbatim>\<open>Object.keys(...).sort()\<close> compares the indices as strings of decimal digits.\<close>

fun digits :: "nat \<Rightarrow> nat list" where
  "digits n = (if n < 10 then [n] else digits (n div 10) @ [n mod 10])"

declare digits.simps [simp del]

fun before :: "nat list \<Rightarrow> nat list \<Rightarrow> bool" where
  "before _ [] = False"
| "before [] (_ # _) = True"
| "before (x # xs) (y # ys) = (x < y \<or> x = y \<and> before xs ys)"

fun firstKey :: "nat list \<Rightarrow> nat option" where
  "firstKey [] = None"
| "firstKey (k # ks) = (case firstKey ks of
      None \<Rightarrow> Some k | Some k' \<Rightarrow> Some (if before (digits k') (digits k) then k' else k))"

definition allInputsRequired :: "RequiredInputs option \<Rightarrow> InputsDescription \<Rightarrow> bool" where
  "allInputsRequired required inputs =
     (case required of
        None \<Rightarrow> False
      | Some (InputAmount k) \<Rightarrow> k = int (inputsLength inputs)
      | Some (InputIndexes xs) \<Rightarrow> length xs = inputsLength inputs)"

definition inputsWithData :: "INodeExecutionData list slot list \<Rightarrow> nat list" where
  "inputsWithData row = filter (\<lambda>i. slotLength (row ! i) \<noteq> None) [0..<length row]"

definition requiredDataMissing :: "RequiredInputs option \<Rightarrow> INodeExecutionData list slot list \<Rightarrow> bool" where
  "requiredDataMissing required row =
     (case required of
        None \<Rightarrow> False
      | Some (InputAmount k) \<Rightarrow> int (length (inputsWithData row)) < k
      | Some (InputIndexes xs) \<Rightarrow> \<not> set xs \<subseteq> set (inputsWithData row))"

fun emptyIfNull :: "INodeExecutionData list slot \<Rightarrow> INodeExecutionData list slot" where
  "emptyIfNull Null = Value []"
| "emptyIfNull s = s"

definition padInputs :: "nat \<Rightarrow> INodeExecutionData list slot list \<Rightarrow> INodeExecutionData list slot list" where
  "padInputs n row = row @ replicate (n - length row) (Value [])"

section \<open>One waiting node\<close>

datatype Revival =
    Skipped
  | Removed Scheduling
  | Scheduled Scheduling

definition removeWaiting :: "string \<Rightarrow> nat \<Rightarrow> Scheduling \<Rightarrow> Scheduling result" where
  "removeWaiting node index st =
     bind_res (defined (jget (sc_waiting st) node)) (\<lambda>obj.
       bind_res (defined (sc_waitingSource st)) (\<lambda>sources.
         bind_res (defined (jget sources node)) (\<lambda>sourceObj.
           let obj' = jdel obj index
           in Inr (if obj' = []
                   then st\<lparr>sc_waiting := jdel (sc_waiting st) node, sc_waitingSource := Some (jdel sources node)\<rparr>
                   else st\<lparr>sc_waiting := jset (sc_waiting st) node obj',
                           sc_waitingSource := Some (jset sources node (jdel sourceObj index))\<rparr>))))"

definition pushRevived :: "RunnableWorkflow \<Rightarrow> RunnableType \<Rightarrow> string \<Rightarrow> nat \<Rightarrow> INodeExecutionData list slot list \<Rightarrow>
    Scheduling \<Rightarrow> Scheduling result" where
  "pushRevived w rt node index row st =
     bind_res (defined (sc_waitingSource st)) (\<lambda>sources. bind_res (defined (jget sources node)) (\<lambda>sourceObj.
       Inr (st\<lparr>sc_stack := sc_stack st @ [\<lparr>si_node = jget (wf_nodes w) node,
         si_data = [(main_type, padInputs (inputsLength (rt_inputs rt)) row)],
         si_source = jget sourceObj index, si_runIndex = None, si_metadata = None\<rparr>]\<rparr>)))"

definition reviveNode :: "(INode \<Rightarrow> RunnableType option) \<Rightarrow> RunnableWorkflow \<Rightarrow> string list \<Rightarrow> string \<Rightarrow> Scheduling \<Rightarrow>
    Revival result" where
  "reviveNode types w waitingNodes nodeName st =
     (case jget (wf_nodes w) nodeName of
        None \<Rightarrow> Inr Skipped
      | Some checkNode \<Rightarrow> bind_res (defined (types checkNode)) (\<lambda>rt.
          let required = (if isLegacyExecutionOrder w then None else rt_requiredInputs rt)
          in if allInputsRequired required (rt_inputs rt) then Inr Skipped
             else if list_ex (\<lambda>p. p \<in> set waitingNodes)
                 (getParentNodes (connectionsByDestinationNode w) nodeName main_type (-1)) then Inr Skipped
             else bind_res (defined (jget (sc_waiting st) nodeName)) (\<lambda>obj.
               bind_res (defined (firstKey (jkeys obj))) (\<lambda>index.
                 bind_res (waitingRow (sc_waiting st) nodeName index) (\<lambda>row.
                   if requiredDataMissing required row then Inr Skipped
                   else let taskDataMain = map emptyIfNull row
                     in if list_ex has_items taskDataMain
                        then bind_res (pushRevived w rt nodeName index taskDataMain st) (\<lambda>st'.
                          map_sum id Scheduled (removeWaiting nodeName index st'))
                        else map_sum id Removed (removeWaiting nodeName index st))))))"

section \<open>The search\<close>

definition entryCount :: "Scheduling \<Rightarrow> nat" where
  "entryCount st = sum_list (map (\<lambda>(n, obj). Suc (length obj)) (sc_waiting st))"

lemma length_jset_present:
  "jget m k \<noteq> None \<Longrightarrow> length (jset m k v) = length m" for m :: "('k, 'v) jsmap"
  by (induction m) auto

lemma sum_jset:
  fixes f :: "'k \<times> 'v \<Rightarrow> nat"
  assumes "jget m k = Some v"
  shows "sum_list (map f (jset m k v')) + f (k, v) = sum_list (map f m) + f (k, v')"
  using assms by (induction m) (auto split: if_splits)

lemma sum_jdel:
  fixes f :: "'k \<times> 'v \<Rightarrow> nat"
  assumes "jget m k = Some v"
  shows "sum_list (map f (jdel m k)) + f (k, v) \<le> sum_list (map f m)"
  using assms
proof (induction m)
  case (Cons x m)
  show ?case
  proof (cases "fst x = k")
    case True
    have "sum_list (map f (jdel m k)) \<le> sum_list (map f m)"
      by (induction m) (auto simp: AList.delete_eq)
    with True Cons.prems show ?thesis by (cases x) (auto simp: AList.delete_eq)
  next
    case False
    with Cons show ?thesis by (cases x) (auto simp: AList.delete_eq)
  qed
qed simp

lemma removeWaiting_entryCount:
  assumes "removeWaiting n k st = Inr st'" and "jget (sc_waiting st) n = Some obj" and "jget obj k \<noteq> None"
  shows "entryCount st' < entryCount st"
proof -
  let ?f = "\<lambda>(n :: string, obj :: (nat, ITaskDataConnections) jsmap). Suc (length obj)"
  obtain e where e: "jget obj k = Some e" using assms(3) by blast
  have len: "length (jdel obj k) < length obj"
    using sum_jdel[OF e, of "\<lambda>_. 1"] by (simp add: sum_list_triv)
  have "sum_list (map ?f (jdel (sc_waiting st) n)) + ?f (n, obj) \<le> sum_list (map ?f (sc_waiting st))"
    using assms(2) by (rule sum_jdel)
  moreover have "sum_list (map ?f (jset (sc_waiting st) n (jdel obj k))) + ?f (n, obj) =
      sum_list (map ?f (sc_waiting st)) + ?f (n, jdel obj k)"
    using assms(2) by (rule sum_jset)
  ultimately show ?thesis
    using assms(1,2) len
    by (auto simp: removeWaiting_def entryCount_def Let_def bind_res_def defined_def split: option.splits if_splits)
qed

lemma reviveNode_Removed:
  assumes "reviveNode types w ns n st = Inr (Removed st')"
  obtains obj k row where "removeWaiting n k st = Inr st'" and "jget (sc_waiting st) n = Some obj"
    and "jget obj k \<noteq> None" and "waitingRow (sc_waiting st) n k = Inr row" and "\<not> list_ex has_items (map emptyIfNull row)"
proof -
  have "\<exists>obj k row. removeWaiting n k st = Inr st' \<and> jget (sc_waiting st) n = Some obj \<and> jget obj k \<noteq> None \<and>
      waitingRow (sc_waiting st) n k = Inr row \<and> \<not> list_ex has_items (map emptyIfNull row)"
    using assms
    by (auto simp: reviveNode_def waitingRow_def bind_res_def defined_def Let_def map_sum_def
        split: option.splits sum.splits if_splits)
  then show thesis using that by blast
qed

lemma reviveNode_decreases:
  "reviveNode types w ns n st = Inr (Removed st') \<Longrightarrow> entryCount st' < entryCount st"
  by (elim reviveNode_Removed) (rule removeWaiting_entryCount)

text \<open>The loop over the waiting nodes: \<open>rest\<close> are those not looked at yet.\<close>

function reviveLoop :: "(INode \<Rightarrow> RunnableType option) \<Rightarrow> RunnableWorkflow \<Rightarrow> string list \<Rightarrow> string list \<Rightarrow> Scheduling \<Rightarrow>
    Scheduling result" where
  "reviveLoop types w waitingNodes [] st = Inr st"
| "reviveLoop types w waitingNodes (n # rest) st =
     (case reviveNode types w waitingNodes n st of
        Inl e \<Rightarrow> Inl e
      | Inr Skipped \<Rightarrow> reviveLoop types w waitingNodes rest st
      | Inr (Removed st') \<Rightarrow> reviveLoop types w (jkeys (sc_waiting st')) (jkeys (sc_waiting st')) st'
      | Inr (Scheduled st') \<Rightarrow> Inr st')"
  by pat_completeness auto
termination
  by (relation "measures [\<lambda>(types, w, ns, rest, st). entryCount st, \<lambda>(types, w, ns, rest, st). length rest]")
    (auto dest: reviveNode_decreases)

definition reviveWaiting :: "(INode \<Rightarrow> RunnableType option) \<Rightarrow> RunnableWorkflow \<Rightarrow> Scheduling \<Rightarrow> Scheduling result" where
  "reviveWaiting types w st =
     (if sc_stack st = [] \<and> sc_waiting st \<noteq> []
      then reviveLoop types w (jkeys (sc_waiting st)) (jkeys (sc_waiting st)) st else Inr st)"

end
