(* ===== verification/Execution_Loop.thy ===== *)
theory Execution_Loop
  imports Engine_Request Waiting_Revival Start_Node
begin

text \<open>
  The loop of an execution: \<^verbatim>\<open>processRunExecutionData\<close> of
  \<^verbatim>\<open>packages/core/src/execution-engine/workflow-execute.ts\<close> with the methods it calls. An iteration takes
  the first entry off the stack, runs its node with retries, records the run, puts the nodes it leads to
  on the stack and, when the stack is empty, a node that still waits for inputs.

  The code of a node type, \<^verbatim>\<open>$getPairedItem\<close> and the clock are the record \<open>Engine\<close> over a state \<open>'w\<close> of the
  outside world; a node may set \<^verbatim>\<open>waitTill\<close> and change run data. Lifecycle hooks are a log of events and do not
  throw. Left out: hints, close functions, binary data, dynamic credentials, tracing tags, the error report,
  the pauses between tries and the times of a run.
\<close>

section \<open>The engine\<close>

datatype CallKind = ExecuteCall | PollCall | TriggerCall | DeclarativeCall

record NodeCall =
  nc_kind :: CallKind
  nc_node :: INode
  nc_inputData :: ITaskDataConnections
  nc_connectionInputData :: "INodeExecutionData list"
  nc_source :: "ITaskDataConnectionsSource option"
  nc_metadata :: "ITaskMetadata option"
  nc_runIndex :: nat
  nc_runData :: IRunData
  nc_responses :: "EngineResponse option"

datatype NodeReply =
    Output "INodeExecutionData list slot list option" sharing
  | Request EngineRequest
  | Throws ExecutionError

record CallEffects =
  ce_waitTill :: "nat option"
  ce_runData :: IRunData

record 'w Engine =
  en_nodeType :: "INode \<Rightarrow> RunnableType option"
  en_call :: "NodeCall \<Rightarrow> 'w \<Rightarrow> NodeReply \<times> CallEffects \<times> 'w"
  en_pairedItem :: "ISourceData \<Rightarrow> IPairedItemData \<Rightarrow> INodeExecutionData option result"
  en_timedOut :: "'w \<Rightarrow> bool"
  en_canceled :: "'w \<Rightarrow> bool"
  en_manual :: bool

text \<open>\<^verbatim>\<open>startData\<close>: the destination and the nodes that may run.\<close>

record StartData =
  sd_destinationNode :: "string option"
  sd_runNodeFilter :: "string list option"

datatype HookEvent =
    NodeExecuteBefore string
  | NodeExecuteAfter string ITaskData
  | SendErrorChunk string nat

text \<open>What the loop changes: \<^verbatim>\<open>runExecutionData\<close>, the workflow's node objects, the fields of
  \<^verbatim>\<open>WorkflowExecute\<close> and the local variables that live longer than an iteration. The string
  \<^verbatim>\<open>name:runIndex\<close> that recognises an endless loop is the pair.\<close>

record 'w LoopState =
  ls_workflow :: RunnableWorkflow
  ls_sched :: Scheduling
  ls_pinData :: IPinData
  ls_lastNodeExecuted :: "string option"
  ls_error :: "ExecutionError option"
  ls_waitTill :: "nat option"
  ls_executionIndex :: nat
  ls_status :: string
  ls_timedOut :: bool
  ls_executionError :: "ExecutionError option"
  ls_lastTry :: "(string \<times> nat) option"
  ls_events :: "HookEvent list"
  ls_world :: 'w

definition setRunData :: "IRunData \<Rightarrow> 'w LoopState \<Rightarrow> 'w LoopState" where
  "setRunData runData st = st\<lparr>ls_sched := (ls_sched st)\<lparr>sc_runData := runData\<rparr>\<rparr>"

abbreviation runDataOf :: "'w LoopState \<Rightarrow> IRunData" where
  "runDataOf st \<equiv> sc_runData (ls_sched st)"

definition emit :: "HookEvent \<Rightarrow> 'w LoopState \<Rightarrow> 'w LoopState" where
  "emit e st = st\<lparr>ls_events := ls_events st @ [e]\<rparr>"

fun error_of :: "js_error \<Rightarrow> ExecutionError" where
  "error_of AssertionError = \<lparr>err_name = ''AssertionError'', err_message = []\<rparr>"
| "error_of TypeError = \<lparr>err_name = ''TypeError'', err_message = []\<rparr>"
| "error_of (UserError m) = \<lparr>err_name = ''UserError'', err_message = m\<rparr>"
| "error_of (OperationalError m) = \<lparr>err_name = ''OperationalError'', err_message = m\<rparr>"
| "error_of (UnexpectedError m) = \<lparr>err_name = ''UnexpectedError'', err_message = m\<rparr>"
| "error_of ExecutionAlreadyResumingError = \<lparr>err_name = ''ExecutionAlreadyResumingError'', err_message = []\<rparr>"
| "error_of (JsError m) = \<lparr>err_name = ''Error'', err_message = m\<rparr>"

section \<open>runNode\<close>

definition rethrowNodeError :: "ExecutionError \<Rightarrow> ExecutionError" where
  "rethrowNodeError e =
     (if err_name e = ''NodeOperationError'' \<or> err_name e = ''NodeApiError'' then e
      else \<lparr>err_name = ''Error'', err_message = err_message e\<rparr>)"

definition resumedErrorOutput :: "ITaskDataConnections \<Rightarrow> ExecutionError \<Rightarrow> INodeExecutionData list slot list" where
  "resumedErrorOutput inputData e =
     [Value [\<lparr>ned_json = errorJson (Some (JStr (err_message e))),
        ned_pairedItem = Some (PairedArray (map (\<lambda>i. \<lparr>pi_item = i, pi_input = None, pi_sourceOverwrite = None\<rparr>)
          [0..<length (slot_or (slot_get (case mainData inputData of None \<Rightarrow> [] | Some m \<Rightarrow> m) 0) [])])),
        ned_error = None\<rparr>]]"

text \<open>The call of the node's own code. Arrays the executeOnce copy of the input made are not those of the
  stack entry.\<close>

fun unshare :: "bool \<Rightarrow> NodeReply \<Rightarrow> NodeReply" where
  "unshare True (Output outs _) = Output outs (SharedArrays [])"
| "unshare _ reply = reply"

definition callNode :: "'w Engine \<Rightarrow> NodeCall \<Rightarrow> 'w LoopState \<Rightarrow> NodeReply \<times> 'w LoopState" where
  "callNode en call st =
     (case en_call en call (ls_world st) of
        (reply, fx, world) \<Rightarrow>
          (reply, setRunData (ce_runData fx) (st\<lparr>ls_world := world,
             ls_waitTill := (case ce_waitTill fx of None \<Rightarrow> ls_waitTill st | Some t \<Rightarrow> Some t)\<rparr>)))"

definition dispatchNode :: "'w Engine \<Rightarrow> RunnableType \<Rightarrow> NodeCall \<Rightarrow> 'w LoopState \<Rightarrow> NodeReply \<times> 'w LoopState" where
  "dispatchNode en rt call st =
     (let passOn = (Output (mainData (nc_inputData call)) SharedMain, st)
      in if rt_execute rt \<or> rt_customOperation rt then callNode en (call\<lparr>nc_kind := ExecuteCall\<rparr>) st
         else if rt_poll rt then (if en_manual en then callNode en (call\<lparr>nc_kind := PollCall\<rparr>) st else passOn)
         else if rt_trigger rt then (if en_manual en then callNode en (call\<lparr>nc_kind := TriggerCall\<rparr>) st else passOn)
         else if rt_supplyData rt then (Throws (error_of (UnexpectedError ''supplyData but no execute'')), st)
         else if rt_webhook rt \<and> \<not> rt_requestDefaults rt then passOn
         else callNode en (call\<lparr>nc_kind := DeclarativeCall\<rparr>) st)"

definition runNode :: "'w Engine \<Rightarrow> StackItem \<Rightarrow> INode \<Rightarrow> nat \<Rightarrow> EngineResponse option \<Rightarrow> 'w LoopState \<Rightarrow>
    NodeReply \<times> 'w LoopState" where
  "runNode en item node runIndex responses st =
     (case Option.bind (si_metadata item) tm_resumeError of
        Some e \<Rightarrow>
          (if continuesOnError node then Output (Some (resumedErrorOutput (si_data item) e)) (SharedArrays [])
           else Throws (rethrowNodeError e), st)
      | None \<Rightarrow>
          if is_disabled node
          then (case handleDisabledNode (si_data item)
                  (case si_metadata item of None \<Rightarrow> False | Some m \<Rightarrow> tm_forwardAllOutputs m) of
                  (outs, shared) \<Rightarrow> (Output outs shared, st))
          else (case en_nodeType en node of
              None \<Rightarrow> (Throws (error_of TypeError), st)
            | Some rt \<Rightarrow>
                (case prepareConnectionInputData (ls_workflow st) rt node (si_data item) (si_source item) of
                   None \<Rightarrow> (Output None (SharedArrays []), st)
                 | Some connectionInputData \<Rightarrow>
                     (case (if ls_lastNodeExecuted st = Some (node_name node) then ls_error st else None) of
                        Some e \<Rightarrow> (Throws (rethrowNodeError e), st)
                      | None \<Rightarrow>
                          (case dispatchNode en rt \<lparr>nc_kind = ExecuteCall, nc_node = node,
                              nc_inputData = handleExecuteOnce node (si_data item),
                              nc_connectionInputData = connectionInputData, nc_source = si_source item,
                              nc_metadata = si_metadata item, nc_runIndex = runIndex, nc_runData = runDataOf st,
                              nc_responses = responses\<rparr> st of
                             (reply, st') \<Rightarrow>
                               (unshare (ns_executeOnce (node_settings node) = Some True) reply, st'))))))"


section \<open>One iteration: before the node runs\<close>

definition computeRunIndex :: "StackItem \<Rightarrow> INode \<Rightarrow> IRunData \<Rightarrow> nat" where
  "computeRunIndex item node runData =
     (case si_runIndex item of
        Some i \<Rightarrow> i
      | None \<Rightarrow> (case jget runData (node_name node) of None \<Rightarrow> 0 | Some runs \<Rightarrow> length runs))"

text \<open>\<open>[maxTries, waitBetweenTries]\<close>.\<close>

definition orDefault :: "int option \<Rightarrow> int \<Rightarrow> int" where
  "orDefault x d = (case x of None \<Rightarrow> d | Some v \<Rightarrow> if v = 0 then d else v)"

definition getRetryParams :: "StackItem \<Rightarrow> INode \<Rightarrow> nat \<times> nat" where
  "getRetryParams item node =
     (if ns_retryOnFail (node_settings node) \<noteq> Some True \<or> Option.bind (si_metadata item) tm_resumeError \<noteq> None
      then (1, 0)
      else (nat (min 5 (max 2 (orDefault (ns_maxTries (node_settings node)) 3))),
            nat (min 5000 (max 0 (orDefault (ns_waitBetweenTries (node_settings node)) 1000)))))"

definition isNodeFilteredOut :: "StartData \<Rightarrow> string \<Rightarrow> bool" where
  "isNodeFilteredOut sd name = (case sd_runNodeFilter sd of None \<Rightarrow> False | Some names \<Rightarrow> name \<notin> set names)"

text \<open>The loop over the inputs of the node; an entry without the data goes to the end of the stack.\<close>

fun inputDataReady :: "RunnableWorkflow \<Rightarrow> string \<Rightarrow> ITaskDataConnections \<Rightarrow> nat \<Rightarrow> nat \<Rightarrow> bool" where
  "inputDataReady w name data i 0 = True"
| "inputDataReady w name data i (Suc n) =
     (if getHighestNode (Workflow.truncate w) name (Some i) = [] then True
      else case mainData data of
          None \<Rightarrow> False
        | Some main \<Rightarrow>
            if isLegacyExecutionOrder w \<and> (length main < i \<or> slot_get main i = Null) then False
            else inputDataReady w name data (Suc i) n)"

definition ensureInputData :: "RunnableWorkflow \<Rightarrow> INode \<Rightarrow> StackItem \<Rightarrow> Scheduling \<Rightarrow> bool \<times> Scheduling" where
  "ensureInputData w node item st =
     (if inputDataReady w (node_name node) (si_data item) 0 (numberOfInputs w (node_name node)) then (True, st)
      else (False, st\<lparr>sc_stack := sc_stack st @ [item]\<rparr>))"

definition getPinnedOutput :: "IPinData \<Rightarrow> INode \<Rightarrow> INodeExecutionData list slot list option" where
  "getPinnedOutput pinData node =
     (if is_disabled node then None
      else map_option (\<lambda>items. [Value items]) (jget pinData (node_name node)))"

section \<open>One iteration: the tries\<close>

text \<open>What the tries of an iteration share: the entry, \<^verbatim>\<open>nodeSuccessData\<close>, the responses collected for the
  node and the state of the loop.\<close>

record 'w TryState =
  ts_item :: StackItem
  ts_data :: "INodeExecutionData list slot list option"
  ts_responses :: EngineResponse
  ts_loop :: "'w LoopState"

datatype TryEnd =
    Produced
  | Requeued
  | Ended
  | Raised ExecutionError

definition replyFailed :: "NodeReply \<Rightarrow> bool" where
  "replyFailed reply = (case reply of Output outs _ \<Rightarrow> reportsFailure outs | _ \<Rightarrow> False)"

text \<open>The loop \<^verbatim>\<open>while (nodeFailed && tryIndex !== maxTries - 1)\<close>; the number is the distance of \<^verbatim>\<open>tryIndex\<close> to
  \<^verbatim>\<open>maxTries - 1\<close>. A try that throws leaves it as it is.\<close>

fun softRetries :: "'w Engine \<Rightarrow> StackItem \<Rightarrow> INode \<Rightarrow> nat \<Rightarrow> nat \<Rightarrow> NodeReply \<Rightarrow> 'w LoopState \<Rightarrow>
    NodeReply \<times> nat \<times> 'w LoopState" where
  "softRetries en item node runIndex 0 reply st = (reply, 0, st)"
| "softRetries en item node runIndex (Suc left) reply st =
     (if replyFailed reply
      then (case runNode en item node runIndex None st of
          (Throws e, st') \<Rightarrow> (Throws e, Suc left, st')
        | (reply', st') \<Rightarrow> softRetries en item node runIndex left reply' st')
      else (reply, Suc left, st))"

definition processNodeOutput :: "'w Engine \<Rightarrow> INode \<Rightarrow> INodeExecutionData list slot list option \<Rightarrow> sharing \<Rightarrow>
    StackItem \<Rightarrow> js_error option \<times> StackItem \<times> INodeExecutionData list slot list option" where
  "processNodeOutput en node data shared item =
     (case data of
        None \<Rightarrow> (None, item, None)
      | Some outs \<Rightarrow>
          if ns_onError (node_settings node) \<noteq> Some ''continueErrorOutput'' then (None, item, Some outs)
          else case en_nodeType en node of
              None \<Rightarrow> (Some TypeError, item, Some outs)
            | Some rt \<Rightarrow>
                (case handleNodeErrorOutput (en_pairedItem en) (si_source item) (rt_mainOutputs rt) outs of
                   (e, drained, outs') \<Rightarrow>
                     (e, item\<lparr>si_data := writeShared shared drained outs' (si_data item)\<rparr>, Some outs')))"

text \<open>The part of a try after \<^verbatim>\<open>nodeSuccessData\<close> is set. Pinned items are those of the pin data.\<close>

definition writePinned :: "bool \<Rightarrow> INode \<Rightarrow> INodeExecutionData list slot list option \<Rightarrow> IPinData \<Rightarrow> IPinData" where
  "writePinned pinned node data pinData =
     (case data of
        Some [Value items] \<Rightarrow> if pinned then jset pinData (node_name node) items else pinData
      | _ \<Rightarrow> pinData)"

definition completeTry :: "bool \<Rightarrow> sharing \<Rightarrow> INode \<Rightarrow> 'w TryState \<Rightarrow> TryEnd \<times> 'w TryState" where
  "completeTry pinned shared node ts =
     (case assignPairedItems (si_data (ts_item ts)) (ts_data ts) of
        (e, data) \<Rightarrow>
          let st = (ts_loop ts)\<lparr>ls_pinData := writePinned pinned node data (ls_pinData (ts_loop ts))\<rparr>;
              ts1 = ts\<lparr>ts_data := data, ts_loop := st\<rparr>
          in (case e of
              Some err \<Rightarrow> (Raised (error_of err), ts1)
            | None \<Rightarrow>
                let ts2 = (if data = None then ts1
                      else ts1\<lparr>ts_loop := st\<lparr>ls_lastNodeExecuted := Some (node_name node)\<rparr>\<rparr>)
                in (case ensureAlwaysOutputData node (si_data (ts_item ts)) data of
                    Inl err \<Rightarrow> (Raised (error_of err), ts2)
                  | Inr data' \<Rightarrow>
                      let item = (case (shared, data') of
                            (SharedMain, Some outs) \<Rightarrow>
                              (ts_item ts)\<lparr>si_data := writeShared shared [] outs (si_data (ts_item ts))\<rparr>
                          | _ \<Rightarrow> ts_item ts);
                          ts3 = ts2\<lparr>ts_data := data', ts_item := item\<rparr>
                      in if data' = None \<and> ls_waitTill st = None then (Ended, ts3) else (Produced, ts3))))"

text \<open>What a reply that was not a failure leads to.\<close>

definition handleReply :: "'w Engine \<Rightarrow> INode \<Rightarrow> nat \<Rightarrow> NodeReply \<Rightarrow> 'w TryState \<Rightarrow> TryEnd \<times> 'w TryState" where
  "handleReply en node runIndex reply ts =
     (case reply of
        Throws e \<Rightarrow> (Raised e, ts)
      | Request r \<Rightarrow>
          (case handleEngineRequest node runIndex (ts_item ts) r (ls_workflow (ts_loop ts)) (ls_sched (ts_loop ts)) of
             Inl (e, w, sc) \<Rightarrow>
               (Raised (error_of e), ts\<lparr>ts_loop := (ts_loop ts)\<lparr>ls_workflow := w, ls_sched := sc\<rparr>\<rparr>)
           | Inr (w, sc) \<Rightarrow> (Requeued, ts\<lparr>ts_loop := (ts_loop ts)\<lparr>ls_workflow := w, ls_sched := sc\<rparr>\<rparr>))
      | Output outs shared \<Rightarrow>
          (case processNodeOutput en node outs shared (ts_item ts) of
             (Some e, item, _) \<Rightarrow> (Raised (error_of e), ts\<lparr>ts_item := item\<rparr>)
           | (None, item, data) \<Rightarrow> completeTry False shared node (ts\<lparr>ts_item := item, ts_data := data\<rparr>)))"

definition attempt :: "'w Engine \<Rightarrow> INode \<Rightarrow> nat \<Rightarrow> nat \<Rightarrow> 'w TryState \<Rightarrow> TryEnd \<times> nat \<times> 'w TryState" where
  "attempt en node runIndex left ts =
     (case getPinnedOutput (ls_pinData (ts_loop ts)) node of
        Some outs \<Rightarrow>
          (case completeTry True (SharedArrays []) node (ts\<lparr>ts_data := Some outs\<rparr>) of (end, ts') \<Rightarrow> (end, left, ts'))
      | None \<Rightarrow>
          let responses = collectSubNodeResults (ts_item ts) (runDataOf (ts_loop ts)) (ts_responses ts);
              (reply, st) = runNode en (ts_item ts) node runIndex (Some responses) (ts_loop ts);
              (reply', left', st') = softRetries en (ts_item ts) node runIndex left reply st
          in (case handleReply en node runIndex reply' (ts\<lparr>ts_responses := responses, ts_loop := st'\<rparr>) of
                (end, ts') \<Rightarrow> (end, left', ts')))"

definition reportNodeExecutionError :: "INode \<Rightarrow> 'w LoopState \<Rightarrow> 'w LoopState" where
  "reportNodeExecutionError node st = st\<lparr>ls_lastNodeExecuted := Some (node_name node)\<rparr>"

lemma softRetries_left: "fst (snd (softRetries en item node runIndex left reply st)) \<le> left"
proof (induction left arbitrary: reply st)
  case (Suc left)
  obtain reply' st' where r: "runNode en item node runIndex None st = (reply', st')" by fastforce
  from Suc[of reply' st'] r show ?case by (cases reply') auto
qed simp

lemma attempt_left:
  assumes "attempt en node runIndex left ts = (end, left', ts')"
  shows "left' \<le> left"
proof (cases "getPinnedOutput (ls_pinData (ts_loop ts)) node")
  case None
  obtain reply st where r: "runNode en (ts_item ts) node runIndex
      (Some (collectSubNodeResults (ts_item ts) (runDataOf (ts_loop ts)) (ts_responses ts))) (ts_loop ts) = (reply, st)"
    by fastforce
  obtain reply' left'' st' where s: "softRetries en (ts_item ts) node runIndex left reply st = (reply', left'', st')"
    by (rule prod_cases3)
  from assms None r s have "left' = left''" by (simp add: attempt_def Let_def split: prod.splits)
  with softRetries_left[of en "ts_item ts" node runIndex left reply st] s show ?thesis by simp
next
  case (Some outs)
  with assms show ?thesis by (simp add: attempt_def split: prod.splits)
qed

text \<open>The loop \<^verbatim>\<open>for (let tryIndex = 0; tryIndex < maxTries; tryIndex++)\<close>, from a try on that has \<open>left\<close> more behind
  it. The error is the one of the last try when it raised one.\<close>

function tryLoop :: "'w Engine \<Rightarrow> INode \<Rightarrow> nat \<Rightarrow> nat \<Rightarrow> 'w TryState \<Rightarrow> TryEnd \<times> 'w TryState" where
  "tryLoop en node runIndex left ts =
     (case attempt en node runIndex left ts of
        (Raised e, left', ts') \<Rightarrow>
          let ts'' = ts'\<lparr>ts_loop := reportNodeExecutionError node (ts_loop ts')\<rparr>
          in if left' = 0 then (Raised e, ts'') else tryLoop en node runIndex (left' - 1) ts''
      | (end, left', ts') \<Rightarrow> (end, ts'))"
  by pat_completeness auto
termination
  by (relation "measure (\<lambda>(en, node, runIndex, left, ts). left)") (auto dest!: attempt_left[OF sym])

declare tryLoop.simps [simp del]


section \<open>One iteration: after the node ran\<close>

definition sourceOf :: "StackItem \<Rightarrow> ISourceData slot list" where
  "sourceOf item = (case si_source item of None \<Rightarrow> []
     | Some s \<Rightarrow> (case jget s main_type of None \<Rightarrow> [] | Some sources \<Rightarrow> sources))"

text \<open>\<^verbatim>\<open>createTaskStartedData\<close> took the index and the source before the node ran.\<close>

definition createTaskData :: "nat \<Rightarrow> ISourceData slot list \<Rightarrow> StackItem \<Rightarrow> nat option \<Rightarrow> ITaskData" where
  "createTaskData executionIndex source item waitTill =
     \<lparr>td_executionIndex = Some executionIndex, td_source = source, td_data = None, td_error = None,
      td_executionStatus = Some (if waitTill = None then ''success'' else ''waiting''),
      td_inputOverride = None, td_metadata = si_metadata item\<rparr>"

text \<open>\<open>Object.assign(old, new)\<close>: data, error and input override are properties of the new record only when set.\<close>

definition assignTask :: "ITaskData \<Rightarrow> ITaskData \<Rightarrow> ITaskData" where
  "assignTask old new =
     \<lparr>td_executionIndex = td_executionIndex new, td_source = td_source new,
      td_data = (if td_data new = None then td_data old else td_data new),
      td_error = (if td_error new = None then td_error old else td_error new),
      td_executionStatus = td_executionStatus new,
      td_inputOverride = (if td_inputOverride new = None then td_inputOverride old else td_inputOverride new),
      td_metadata = td_metadata new\<rparr>"

definition upsertTaskData :: "IRunData \<Rightarrow> string \<Rightarrow> nat \<Rightarrow> ITaskData \<Rightarrow> IRunData" where
  "upsertTaskData runData name runIndex taskData =
     (let runs = (case jget runData name of None \<Rightarrow> [] | Some rs \<Rightarrow> rs)
      in jset runData name (if runIndex < length runs
           then runs[runIndex := assignTask (runs ! runIndex) taskData] else runs @ [taskData]))"

definition recordedOverride :: "IRunData \<Rightarrow> string \<Rightarrow> nat \<Rightarrow> ITaskDataConnections" where
  "recordedOverride runData name runIndex =
     (case jget runData name of
        None \<Rightarrow> []
      | Some runs \<Rightarrow> if runIndex < length runs
          then (case td_inputOverride (runs ! runIndex) of None \<Rightarrow> [] | Some d \<Rightarrow> d) else [])"

text \<open>\<^verbatim>\<open>rewireOutputLog\<close>, and the same for a failed tool.\<close>

definition rewireOutputLog :: "INode \<Rightarrow> IRunData \<Rightarrow> nat \<Rightarrow> INodeExecutionData list slot list \<Rightarrow> ITaskData \<Rightarrow> ITaskData" where
  "rewireOutputLog node runData runIndex outs taskData =
     (case node_rewireOutputLogTo node of
        None \<Rightarrow> taskData
      | Some t \<Rightarrow> taskData\<lparr>td_inputOverride := Some (recordedOverride runData (node_name node) runIndex),
          td_data := Some [(t, outs)]\<rparr>)"

definition pushExecutionStack :: "StackItem \<Rightarrow> 'w LoopState \<Rightarrow> 'w LoopState" where
  "pushExecutionStack item st = st\<lparr>ls_sched := (ls_sched st)\<lparr>sc_stack := item # sc_stack (ls_sched st)\<rparr>\<rparr>"

definition errorOutput :: "ExecutionError \<Rightarrow> INodeExecutionData list slot list" where
  "errorOutput e = [Value [plain_item (errorJson (Some (JStr (err_message e))))]]"

definition continuesAfterError :: "INode \<Rightarrow> bool" where
  "continuesAfterError node \<longleftrightarrow>
     continuesOnError node \<or>
     (node_rewireOutputLogTo node = Some ai_tool_type \<and> ns_onError (node_settings node) \<noteq> Some ''stopWorkflow'')"

text \<open>The output of a node that failed and continues.\<close>

definition outputAfterError :: "INode \<Rightarrow> ITaskDataConnections \<Rightarrow> ExecutionError \<Rightarrow>
    INodeExecutionData list slot list option \<Rightarrow> INodeExecutionData list slot list option" where
  "outputAfterError node data e nodeSuccessData =
     (if node_rewireOutputLogTo node = Some ai_tool_type then Some (errorOutput e)
      else case mainData data of
          None \<Rightarrow> nodeSuccessData
        | Some main \<Rightarrow> if main \<noteq> [] \<and> slot_get main 0 \<noteq> Null then Some [slot_get main 0] else nodeSuccessData)"

text \<open>\<^verbatim>\<open>handleNodeExecutionError\<close>: whether the loop goes on, the output, the record and the state.\<close>

definition handleNodeExecutionError :: "'w Engine \<Rightarrow> INode \<Rightarrow> StackItem \<Rightarrow> ITaskData \<Rightarrow> ExecutionError \<Rightarrow>
    INodeExecutionData list slot list option \<Rightarrow> nat \<Rightarrow> 'w LoopState \<Rightarrow>
    bool \<times> INodeExecutionData list slot list option \<times> ITaskData \<times> 'w LoopState" where
  "handleNodeExecutionError en node item taskData0 e nodeSuccessData runIndex st0 =
     (let taskData = taskData0\<lparr>td_error := Some (err_message e), td_executionStatus := Some ''error''\<rparr>;
          st = emit (SendErrorChunk (node_name node) runIndex) st0
      in if continuesAfterError node
         then (True, outputAfterError node (si_data item) e nodeSuccessData, taskData, st)
         else let taskData' = rewireOutputLog node (runDataOf st) runIndex (errorOutput e) taskData;
                  st1 = pushExecutionStack item
                    (setRunData (upsertTaskData (runDataOf st) (node_name node) runIndex taskData') st)
              in (False, nodeSuccessData, taskData',
                  if en_canceled en (ls_world st1) then st1
                  else emit (NodeExecuteAfter (node_name node) taskData') st1))"

subsection \<open>The nodes that come next\<close>

definition outputConnections :: "RunnableWorkflow \<Rightarrow> string \<Rightarrow> (nat \<times> IConnection) list" where
  "outputConnections w name =
     (case Option.bind (jget (connectionsBySourceNode w) name) (\<lambda>types. jget types main_type) of
        None \<Rightarrow> []
      | Some rows \<Rightarrow> concat (map (\<lambda>(i, row). map (Pair i) (slot_or row [])) (List.enumerate 0 rows)))"

definition delivers :: "RunnableWorkflow \<Rightarrow> INodeExecutionData list slot list \<Rightarrow> nat \<times> IConnection \<Rightarrow> bool" where
  "delivers w outs p =
     (case slot_get outs (fst p) of
        Value items \<Rightarrow> items \<noteq> [] \<or> (con_index (snd p) > 0 \<and> isLegacyExecutionOrder w)
      | _ \<Rightarrow> False)"

text \<open>The position of the target; the comparison asks only whether it is negative, so it orders by \<open>y\<close> and then
  \<open>x\<close>, both descending, and keeps the order of equal positions.\<close>

definition positionOf :: "RunnableWorkflow \<Rightarrow> nat \<times> IConnection \<Rightarrow> int \<times> int" where
  "positionOf w p = (case jget (wf_nodes w) (con_node (snd p)) of None \<Rightarrow> (0, 0) | Some node \<Rightarrow> node_position node)"

definition sortNodesToAdd :: "RunnableWorkflow \<Rightarrow> (nat \<times> IConnection) list \<Rightarrow> (nat \<times> IConnection) list" where
  "sortNodesToAdd w xs = sort_key (\<lambda>p. - snd (positionOf w p)) (sort_key (\<lambda>p. - fst (positionOf w p)) xs)"

definition addNext :: "RunnableWorkflow \<Rightarrow> string \<Rightarrow> INodeExecutionData list slot list \<Rightarrow> nat \<Rightarrow> nat \<times> IConnection \<Rightarrow>
    Scheduling \<Rightarrow> Scheduling result" where
  "addNext w name outs runIndex p st =
     addNodeToBeExecuted w (snd p) (fst p) name (Some outs) runIndex None None st"

definition destinationMissing :: js_error where
  "destinationMissing = UnexpectedError ''Destination node not found''"

definition legacyNext :: "RunnableWorkflow \<Rightarrow> string \<Rightarrow> INodeExecutionData list slot list \<Rightarrow> nat \<Rightarrow> nat \<times> IConnection \<Rightarrow>
    Scheduling \<Rightarrow> Scheduling result" where
  "legacyNext w name outs runIndex p st =
     (if jget (wf_nodes w) (con_node (snd p)) = None then Inl destinationMissing
      else if delivers w outs p then addNext w name outs runIndex p st else Inr st)"

definition scheduleChildren :: "RunnableWorkflow \<Rightarrow> string \<Rightarrow> INodeExecutionData list slot list \<Rightarrow> nat \<Rightarrow>
    Scheduling \<Rightarrow> Scheduling result" where
  "scheduleChildren w name outs runIndex st =
     (if isLegacyExecutionOrder w
      then fold_res (legacyNext w name outs runIndex) (outputConnections w name) st
      else if list_ex (\<lambda>p. jget (wf_nodes w) (con_node (snd p)) = None) (outputConnections w name)
      then Inl destinationMissing
      else fold_res (addNext w name outs runIndex)
        (sortNodesToAdd w (filter (delivers w outs) (outputConnections w name))) st)"

section \<open>The loop\<close>

datatype 'w StepEnd =
    Continue "'w LoopState"
  | Stop "'w LoopState"
  | Threw ExecutionError "'w LoopState"

text \<open>Recording the output and going on.\<close>

definition goOn :: "'w Engine \<Rightarrow> StartData \<Rightarrow> INode \<Rightarrow> StackItem \<Rightarrow> nat \<Rightarrow> ITaskData \<Rightarrow>
    INodeExecutionData list slot list option \<Rightarrow> 'w LoopState \<Rightarrow> 'w StepEnd" where
  "goOn en sd node item runIndex taskData0 nodeSuccessData st0 =
     (case normalizeNodeErrors nodeSuccessData of
        Inl e \<Rightarrow> Threw (error_of e) st0
      | Inr outs \<Rightarrow>
          let taskData = rewireOutputLog node (runDataOf st0) runIndex outs
                (taskData0\<lparr>td_data := Some [(main_type, outs)]\<rparr>);
              st = setRunData (upsertTaskData (runDataOf st0) (node_name node) runIndex taskData) st0;
              after = emit (NodeExecuteAfter (node_name node) taskData)
          in if ls_waitTill st \<noteq> None then Stop (pushExecutionStack item (after st))
             else if sd_destinationNode sd = Some (node_name node) then Continue (after st)
             else (case scheduleChildren (ls_workflow st) (node_name node) outs runIndex (ls_sched st) of
                 Inl e \<Rightarrow> Threw (error_of e) st
               | Inr sc \<Rightarrow>
                   let st' = after (st\<lparr>ls_sched := sc\<rparr>)
                   in (case reviveWaiting (en_nodeType en) (ls_workflow st') sc of
                       Inl e \<Rightarrow> Threw (error_of e) st'
                     | Inr sc' \<Rightarrow> Continue (st'\<lparr>ls_sched := sc'\<rparr>))))"

definition finishTries :: "'w Engine \<Rightarrow> StartData \<Rightarrow> INode \<Rightarrow> nat \<Rightarrow> nat \<Rightarrow> ISourceData slot list \<Rightarrow>
    ExecutionError option \<Rightarrow> 'w TryState \<Rightarrow> 'w StepEnd" where
  "finishTries en sd node runIndex executionIndex source executionError ts =
     (let st = (ts_loop ts)\<lparr>ls_executionError := executionError\<rparr>;
          st1 = (if jget (runDataOf st) (node_name node) = None
            then setRunData (jset (runDataOf st) (node_name node) []) st else st);
          taskData = createTaskData executionIndex source (ts_item ts) (ls_waitTill st1)
      in (case executionError of
          None \<Rightarrow> goOn en sd node (ts_item ts) runIndex taskData (ts_data ts) st1
        | Some e \<Rightarrow>
            (case handleNodeExecutionError en node (ts_item ts) taskData e (ts_data ts) runIndex st1 of
               (True, data, taskData', st2) \<Rightarrow> goOn en sd node (ts_item ts) runIndex taskData' data st2
             | (False, _, _, st2) \<Rightarrow> Stop st2)))"

definition runTries :: "'w Engine \<Rightarrow> StartData \<Rightarrow> INode \<Rightarrow> StackItem \<Rightarrow> nat \<Rightarrow> nat \<Rightarrow> 'w LoopState \<Rightarrow> 'w StepEnd" where
  "runTries en sd node item runIndex executionIndex st =
     (case tryLoop en node runIndex (fst (getRetryParams item node) - 1)
         \<lparr>ts_item = item, ts_data = None, ts_responses = makeEngineResponse, ts_loop = st\<rparr> of
        (Produced, ts) \<Rightarrow> finishTries en sd node runIndex executionIndex (sourceOf item) None ts
      | (Raised e, ts) \<Rightarrow> finishTries en sd node runIndex executionIndex (sourceOf item) (Some e) ts
      | (_, ts) \<Rightarrow> Continue (ts_loop ts))"

text \<open>\<^verbatim>\<open>shouldStopExecuting\<close> with the callback of the cancellation.\<close>

definition shouldStopExecuting :: "'w Engine \<Rightarrow> 'w LoopState \<Rightarrow> bool \<times> 'w LoopState" where
  "shouldStopExecuting en st =
     (let st1 = (if en_canceled en (ls_world st) then st\<lparr>ls_status := ''canceled''\<rparr> else st);
          st2 = (if en_timedOut en (ls_world st) then st1\<lparr>ls_status := ''canceled'', ls_timedOut := True\<rparr> else st1)
      in (ls_status st2 = ''canceled'', st2))"

text \<open>An iteration with the entry that was taken off the stack.\<close>

definition runItem :: "'w Engine \<Rightarrow> StartData \<Rightarrow> StackItem \<Rightarrow> 'w LoopState \<Rightarrow> 'w StepEnd" where
  "runItem en sd item0 st0 =
     (let executionIndex = ls_executionIndex st0;
          item = item0\<lparr>si_data := addPairedItemLineage (si_metadata item0) (si_data item0)\<rparr>;
          st = st0\<lparr>ls_executionIndex := Suc executionIndex, ls_executionError := None\<rparr>
      in (case si_node item of
          None \<Rightarrow> Threw (error_of TypeError) st
        | Some node \<Rightarrow>
            let runIndex = computeRunIndex item node (runDataOf st); currentTry = (node_name node, runIndex)
            in if ls_lastTry st = Some currentTry
               then Threw (error_of (UserError ''Stopped execution because it seems to be in an endless loop'')) st
               else if isNodeFilteredOut sd (node_name node) then Continue st
               else (case ensureInputData (ls_workflow st) node item (ls_sched st) of
                   (False, sc) \<Rightarrow> Continue (st\<lparr>ls_sched := sc, ls_lastTry := Some currentTry\<rparr>)
                 | (True, _) \<Rightarrow>
                     runTries en sd node item runIndex executionIndex
                       (if (case si_metadata item of None \<Rightarrow> False | Some m \<Rightarrow> tm_nodeWasResumed m) then st
                        else emit (NodeExecuteBefore (node_name node)) st))))"

definition loopStep :: "'w Engine \<Rightarrow> StartData \<Rightarrow> 'w LoopState \<Rightarrow> 'w StepEnd" where
  "loopStep en sd st =
     (case shouldStopExecuting en st of
        (True, st') \<Rightarrow> Stop st'
      | (False, st') \<Rightarrow>
          (case sc_stack (ls_sched st') of
             [] \<Rightarrow> Stop st'
           | item # rest \<Rightarrow> runItem en sd item (st'\<lparr>ls_sched := (ls_sched st')\<lparr>sc_stack := rest\<rparr>\<rparr>)))"

partial_function (option) runLoop :: "'w Engine \<Rightarrow> StartData \<Rightarrow> 'w LoopState \<Rightarrow> 'w StepEnd option" where
  "runLoop en sd st =
     (if sc_stack (ls_sched st) = [] then Some (Stop st)
      else case loopStep en sd st of
          Continue st' \<Rightarrow> runLoop en sd st'
        | r \<Rightarrow> Some r)"


section \<open>Around the loop\<close>

text \<open>\<^verbatim>\<open>handleWaitingState\<close>. The entries that hold the same node object see it disabled; after an execution has
  been loaded again the workflow has node objects of its own.\<close>

definition disableFirst :: "StackItem list \<Rightarrow> StackItem list result" where
  "disableFirst stack =
     (case stack of
        [] \<Rightarrow> Inl TypeError
      | item # _ \<Rightarrow>
          if Option.bind (si_metadata item) tm_resumeError \<noteq> None then Inr stack
          else bind_res (defined (si_node item)) (\<lambda>node.
            Inr (map (\<lambda>i. if si_node i = Some node then i\<lparr>si_node := Some (node\<lparr>node_disabled := Some True\<rparr>)\<rparr> else i)
              stack)))"

definition handleWaitingState :: "'w LoopState \<Rightarrow> 'w LoopState result" where
  "handleWaitingState st =
     (if ls_waitTill st = None then Inr st
      else bind_res (disableFirst (sc_stack (ls_sched st))) (\<lambda>stack.
        bind_res (defined (ls_lastNodeExecuted st)) (\<lambda>name.
          bind_res (defined (jget (runDataOf st) name)) (\<lambda>runs.
            Inr (setRunData (jset (runDataOf st) name (butlast runs))
              (st\<lparr>ls_waitTill := None, ls_sched := (ls_sched st)\<lparr>sc_stack := stack\<rparr>\<rparr>))))))"

text \<open>The result of an execution.\<close>

record 'w Run =
  run_status :: string
  run_error :: "ExecutionError option"
  run_waitTill :: "nat option"
  run_finished :: bool
  run_state :: "'w LoopState"

fun contains :: "string \<Rightarrow> string \<Rightarrow> bool" where
  "contains needle [] = (needle = [])"
| "contains needle (c # cs) = (take (length needle) (c # cs) = needle \<or> contains needle cs)"

definition cancelError :: "bool \<Rightarrow> ExecutionError" where
  "cancelError timedOut =
     (if timedOut then \<lparr>err_name = ''TimeoutExecutionCancelledError'', err_message = ''The execution was cancelled because it timed out''\<rparr>
      else \<lparr>err_name = ''ManualExecutionCancelledError'', err_message = ''The execution was cancelled manually''\<rparr>)"

definition processSuccessExecution :: "'w LoopState \<Rightarrow> ExecutionError option \<Rightarrow> 'w Run" where
  "processSuccessExecution st executionError =
     (case executionError of
        Some e \<Rightarrow>
          \<lparr>run_status = (if contains ''canceled'' (err_message e) \<or> contains ''Cancelled'' (err_name e)
             then ''canceled'' else ''error''),
           run_error = Some e, run_waitTill = None, run_finished = False, run_state = st\<rparr>
      | None \<Rightarrow>
          (case ls_waitTill st of
             Some t \<Rightarrow> \<lparr>run_status = ''waiting'', run_error = ls_error st, run_waitTill = Some t,
               run_finished = False, run_state = st\<rparr>
           | None \<Rightarrow> \<lparr>run_status = ''success'', run_error = ls_error st, run_waitTill = None,
               run_finished = True, run_state = st\<rparr>))"

definition finishRun :: "'w Engine \<Rightarrow> 'w StepEnd \<Rightarrow> 'w Run" where
  "finishRun en r =
     (case r of
        Threw e st \<Rightarrow> \<lparr>run_status = ls_status st, run_error = Some e, run_waitTill = None, run_finished = False,
          run_state = st\<rparr>
      | Continue st \<Rightarrow> processSuccessExecution st (ls_executionError st)
      | Stop st \<Rightarrow> processSuccessExecution st
          (if (ls_status st = ''canceled'' \<or> en_canceled en (ls_world st)) \<and> ls_executionError st = None
           then Some (cancelError (ls_timedOut st)) else ls_executionError st))"

definition processRunExecutionData :: "'w Engine \<Rightarrow> StartData \<Rightarrow> 'w LoopState \<Rightarrow> 'w Run option result" where
  "processRunExecutionData en sd st =
     map_sum id (\<lambda>st'. map_option (finishRun en) (runLoop en sd st'))
       (handleWaitingState (st\<lparr>ls_status := ''running''\<rparr>))"

text \<open>\<^verbatim>\<open>run\<close>: the nodes that may run and the first entry of the stack.\<close>

definition runFilter :: "RunnableWorkflow \<Rightarrow> string \<Rightarrow> bool \<Rightarrow> string list \<Rightarrow> string list" where
  "runFilter w destination inclusive additional =
     (let parents = getParentNodes (connectionsByDestinationNode w) destination main_type (-1)
      in foldl set_add [] (parents
           @ concat (map (\<lambda>n. getParentNodes (connectionsByDestinationNode w) n ''ALL_NON_MAIN'' (-1)) (destination # parents))
           @ (if inclusive then [destination] else []) @ additional))"

definition initialState :: "RunnableWorkflow \<Rightarrow> INode \<Rightarrow> ITaskDataConnections option \<Rightarrow> IPinData \<Rightarrow> 'w \<Rightarrow> 'w LoopState" where
  "initialState w startNode triggerData pinData world =
     \<lparr>ls_workflow = w,
      ls_sched = \<lparr>sc_stack = [\<lparr>si_node = Some startNode,
          si_data = (case triggerData of None \<Rightarrow> [(main_type, [Value [empty_item]])] | Some d \<Rightarrow> d),
          si_source = None, si_runIndex = None, si_metadata = None\<rparr>],
        sc_waiting = [], sc_waitingSource = Some [], sc_runData = []\<rparr>,
      ls_pinData = pinData, ls_lastNodeExecuted = None, ls_error = None, ls_waitTill = None, ls_executionIndex = 0,
      ls_status = ''running'', ls_timedOut = False, ls_executionError = None, ls_lastTry = None, ls_events = [],
      ls_world = world\<rparr>"

definition startRun :: "INodeTypes \<Rightarrow> 'w Engine \<Rightarrow> RunnableWorkflow \<Rightarrow> INode option \<Rightarrow> (string \<times> bool) option \<Rightarrow> string list \<Rightarrow>
    ITaskDataConnections option \<Rightarrow> IPinData \<Rightarrow> 'w \<Rightarrow> 'w Run option result" where
  "startRun nodeTypes en w startNode destination additional triggerData pinData world =
     bind_res (case startNode of Some n \<Rightarrow> Inr (Some n)
         | None \<Rightarrow> getStartNode nodeTypes (Workflow.truncate w) (map_option fst destination)) (\<lambda>found.
       case found of
         None \<Rightarrow> Inl (UserError ''No node to start the workflow from could be found'')
       | Some node \<Rightarrow> processRunExecutionData en
           \<lparr>sd_destinationNode = map_option fst destination,
            sd_runNodeFilter = map_option (\<lambda>(d, inclusive). runFilter w d inclusive additional) destination\<rparr>
           (initialState w node triggerData pinData world))"


declare runLoop.simps [code]

end
