(* ===== verification/Pending_Work.thy ===== *)
theory Pending_Work
  imports Waiting_Revival
begin

text \<open>
  What \<^verbatim>\<open>addNodeToBeExecuted\<close> and the revival of waiting nodes do to the work that is still to be done, whatever
  the waiting list looks like: they keep the run data, and in the order \<open>v1\<close> a delivery adds at most one
  piece of work, for its target. The work is the multiset of the nodes of the stack entries and of the waiting
  entries.
\<close>

section \<open>Pending work\<close>

definition stackNodes :: "StackItem list \<Rightarrow> string multiset" where
  "stackNodes stack = mset (List.map_filter (\<lambda>i. map_option node_name (si_node i)) stack)"

definition waitingWork :: "IWaitingForExecution \<Rightarrow> string multiset" where
  "waitingWork waiting = sum_list (map (\<lambda>(n, obj). replicate_mset (length obj) n) waiting)"

definition pending :: "Scheduling \<Rightarrow> string multiset" where
  "pending st = stackNodes (sc_stack st) + waitingWork (sc_waiting st)"

text \<open>Every entry of the stack has data on the main connection.\<close>

definition stack_ready :: "StackItem list \<Rightarrow> bool" where
  "stack_ready stack \<longleftrightarrow> list_all (\<lambda>i. mainData (si_data i) \<noteq> None) stack"

definition well_named :: "RunnableWorkflow \<Rightarrow> bool" where
  "well_named w \<longleftrightarrow> (\<forall>n node. jget (wf_nodes w) n = Some node \<longrightarrow> node_name node = n)"

lemma stackNodes_simps [simp]:
  "stackNodes [] = {#}"
  "stackNodes (xs @ ys) = stackNodes xs + stackNodes ys"
  "stackNodes (i # xs) = (case si_node i of None \<Rightarrow> stackNodes xs | Some n \<Rightarrow> add_mset (node_name n) (stackNodes xs))"
  by (auto simp: stackNodes_def List.map_filter_def split: option.splits)

lemma stack_ready_simps [simp]:
  "stack_ready []" "stack_ready (xs @ ys) \<longleftrightarrow> stack_ready xs \<and> stack_ready ys"
  "stack_ready (i # xs) \<longleftrightarrow> mainData (si_data i) \<noteq> None \<and> stack_ready xs"
  by (simp_all add: stack_ready_def)

lemma stackNodes_node:
  assumes "well_named w"
  shows "stackNodes [i\<lparr>si_node := jget (wf_nodes w) n\<rparr>] \<subseteq># {#n#}"
  using assms by (auto simp: well_named_def split: option.splits)

lemma replicate_mset_add: "replicate_mset (m + n) x = replicate_mset m x + replicate_mset n x"
  by (induction m) auto

lemma sum_jset_gen:
  fixes f :: "'k \<times> 'v \<Rightarrow> 'a::comm_monoid_add"
  assumes "jget m k = Some v"
  shows "sum_list (map f (jset m k v')) + f (k, v) = sum_list (map f m) + f (k, v')"
  using assms by (induction m) (auto split: if_splits simp: ac_simps)

lemma sum_jset_new:
  fixes f :: "'k \<times> 'v \<Rightarrow> 'a::comm_monoid_add"
  assumes "jget m k = None"
  shows "sum_list (map f (jset m k v)) = sum_list (map f m) + f (k, v)"
  using assms by (induction m) (auto split: if_splits simp: ac_simps)

lemma sum_jdel_subset:
  fixes f :: "'k \<times> 'v \<Rightarrow> 'a multiset"
  assumes "jget m k = Some v"
  shows "sum_list (map f (jdel m k)) + f (k, v) \<subseteq># sum_list (map f m)"
  using assms
proof (induction m)
  case (Cons x m)
  have sub: "sum_list (map f (jdel m k)) \<subseteq># sum_list (map f m)"
    by (induction m) (auto simp: AList.delete_eq intro: subset_mset.add_mono subset_mset.order_trans)
  show ?case
  proof (cases "fst x = k")
    case True
    with Cons.prems sub show ?thesis by (cases x) (auto simp: AList.delete_eq ac_simps)
  next
    case False
    with Cons show ?thesis by (cases x) (auto simp: AList.delete_eq ac_simps)
  qed
qed simp

lemma waitingWork_jset:
  assumes "jget waiting n = Some obj"
  shows "waitingWork (jset waiting n obj') + replicate_mset (length obj) n =
    waitingWork waiting + replicate_mset (length obj') n"
  using sum_jset_gen[OF assms, of "\<lambda>(n, obj). replicate_mset (length obj) n"] by (simp add: waitingWork_def)

lemma waitingWork_same_length:
  assumes "jget waiting n = Some obj" and "length obj' = length obj"
  shows "waitingWork (jset waiting n obj') = waitingWork waiting"
  using waitingWork_jset[OF assms(1), of obj'] assms(2) by simp

lemma waitingWork_new:
  "jget waiting n = None \<Longrightarrow> waitingWork (jset waiting n obj) = waitingWork waiting + replicate_mset (length obj) n"
  using sum_jset_new[of waiting n "\<lambda>(n, obj). replicate_mset (length obj) n" obj] by (simp add: waitingWork_def)

lemma length_jset_le: "length (jset m k v) \<le> Suc (length m)"
  by (induction m) auto

lemma length_jset_ge: "length m \<le> length (jset m k v)"
  by (induction m) auto

lemma length_jdel_less: "jget m k \<noteq> None \<Longrightarrow> length (jdel m k) < length m"
  using sum_jdel[of m k _ "\<lambda>_. 1"] by (auto simp: sum_list_triv)

lemma waitingWork_remove:
  assumes "jget waiting n = Some obj" and "jget obj k \<noteq> None"
  shows "add_mset n (waitingWork (jset waiting n (jdel obj k))) \<subseteq># waitingWork waiting"
    and "add_mset n (waitingWork (jdel waiting n)) \<subseteq># waitingWork waiting"
proof -
  obtain d where d: "length obj = length (jdel obj k) + Suc d"
    using length_jdel_less[OF assms(2)] less_imp_Suc_add by fastforce
  have "waitingWork (jset waiting n (jdel obj k)) + replicate_mset (Suc d) n + replicate_mset (length (jdel obj k)) n =
      waitingWork waiting + replicate_mset (length (jdel obj k)) n"
    using waitingWork_jset[OF assms(1), of "jdel obj k"] unfolding d replicate_mset_add by (simp add: ac_simps)
  then have "waitingWork (jset waiting n (jdel obj k)) + replicate_mset (Suc d) n = waitingWork waiting" by simp
  then show "add_mset n (waitingWork (jset waiting n (jdel obj k))) \<subseteq># waitingWork waiting"
    by (metis mset_subset_eq_add_left replicate_mset_Suc union_mset_add_mset_left union_mset_add_mset_right)
  have "waitingWork (jdel waiting n) + replicate_mset (length obj) n \<subseteq># waitingWork waiting"
    using sum_jdel_subset[OF assms(1), of "\<lambda>(n, obj). replicate_mset (length obj) n"] by (simp add: waitingWork_def)
  moreover have "add_mset n (waitingWork (jdel waiting n)) \<subseteq># waitingWork (jdel waiting n) + replicate_mset (length obj) n"
    unfolding d by simp
  ultimately show "add_mset n (waitingWork (jdel waiting n)) \<subseteq># waitingWork waiting"
    by (rule subset_mset.order_trans[rotated])
qed

section \<open>addNodeToBeExecuted\<close>

lemma bind_res_Inr_iff [simp]: "bind_res m f = Inr y \<longleftrightarrow> (\<exists>x. m = Inr x \<and> f x = Inr y)"
  by (auto simp: bind_res_def split: sum.splits)

lemma map_sum_Inr_iff [simp]: "map_sum f g m = Inr y \<longleftrightarrow> (\<exists>x. m = Inr x \<and> g x = y)"
  by (cases m) auto

lemma defined_Inr_iff [simp]: "defined x = Inr v \<longleftrightarrow> x = Some v"
  by (auto simp: defined_def split: option.splits)

text \<open>What a step of the function may do: the run data stays, the entries of the stack stay, and the pending
  work grows at most by the given nodes.\<close>

definition grows :: "string multiset \<Rightarrow> Scheduling \<Rightarrow> Scheduling \<Rightarrow> bool" where
  "grows ns st st' \<longleftrightarrow> sc_runData st' = sc_runData st \<and> pending st' \<subseteq># ns + pending st \<and>
     (stack_ready (sc_stack st) \<longrightarrow> stack_ready (sc_stack st'))"

lemma grows_refl: "grows {#} st st"
  by (simp add: grows_def)

lemma grows_trans: "grows ms st st' \<Longrightarrow> grows ns st' st'' \<Longrightarrow> grows (ms + ns) st st''"
  unfolding grows_def
  by (metis (no_types, lifting) add.assoc add.commute subset_mset.add_left_mono subset_mset.order_trans)

lemma waitingEntry_grows:
  assumes "waitingEntry w c st = Inr (st', index, was)"
  shows "grows {#con_node c#} st st' \<and> sc_stack st' = sc_stack st"
proof -
  let ?n = "con_node c"
  let ?st1 = "if sc_waitingSource st = None then st\<lparr>sc_waitingSource := Some []\<rparr> else st"
  let ?st2 = "if jget (sc_waiting st) ?n \<noteq> None then ?st1
    else ?st1\<lparr>sc_waiting := jset (sc_waiting ?st1) ?n [],
      sc_waitingSource := map_option (\<lambda>s. jset s ?n []) (sc_waitingSource ?st1)\<rparr>"
  have "\<exists>obj. jget (sc_waiting ?st2) ?n = Some obj" by (cases "jget (sc_waiting st) ?n") auto
  then obtain obj where obj: "jget (sc_waiting ?st2) ?n = Some obj" ..
  have w2: "waitingWork (sc_waiting ?st2) = waitingWork (sc_waiting st)"
    using waitingWork_new[of "sc_waiting st" ?n "[]"] by auto
  define s2 where "s2 = ?st2"
  have "waitingEntry w c st = bind_res (firstMissing obj (sort (jkeys obj)) (con_index c)) (\<lambda>found. case found of
      Some index \<Rightarrow> Inr (s2, index, jget (sc_waiting ?st1) ?n \<noteq> None)
    | None \<Rightarrow> Inr (prepareWaitingToExecution ?n (numberOfInputs w ?n) (length obj) s2, length obj,
        jget (sc_waiting ?st1) ?n \<noteq> None))"
    using obj unfolding s2_def waitingEntry_def Let_def
    by (cases "jget (sc_waiting st) ?n"; cases "sc_waitingSource st") simp_all
  with assms have "st' = s2 \<or> st' = prepareWaitingToExecution ?n (numberOfInputs w ?n) (length obj) s2"
    by (auto split: option.splits)
  then have "st' = ?st2 \<or> st' = prepareWaitingToExecution ?n (numberOfInputs w ?n) (length obj) ?st2"
    unfolding s2_def .
  then show ?thesis
  proof
    assume "st' = ?st2"
    with w2 show ?thesis by (auto simp: grows_def pending_def)
  next
    assume st': "st' = prepareWaitingToExecution ?n (numberOfInputs w ?n) (length obj) ?st2"
    let ?obj' = "jset obj (length obj) [(main_type, replicate (numberOfInputs w ?n) (Null :: INodeExecutionData list slot))]"
    have e: "sc_waiting st' = jset (sc_waiting ?st2) ?n ?obj'" "sc_stack st' = sc_stack st" "sc_runData st' = sc_runData st"
      using st' obj by (auto simp: prepareWaitingToExecution_def Let_def)
    obtain d where d: "length ?obj' = length obj + d" "d \<le> 1"
    proof -
      have "length obj \<le> length ?obj'" by (rule length_jset_ge)
      moreover have "length ?obj' \<le> Suc (length obj)" by (rule length_jset_le)
      ultimately show thesis using that[of "length ?obj' - length obj"] by simp
    qed
    have "waitingWork (sc_waiting st') + replicate_mset (length obj) ?n =
        waitingWork (sc_waiting st) + replicate_mset (length obj + d) ?n"
      using waitingWork_jset[OF obj, of ?obj'] unfolding w2 e(1) d(1) .
    then have "waitingWork (sc_waiting st') = waitingWork (sc_waiting st) + replicate_mset d ?n"
      unfolding replicate_mset_add by (metis add.assoc add.commute add_right_cancel)
    moreover have "replicate_mset d ?n \<subseteq># {#?n#}" using d(2) by (cases d) auto
    ultimately show ?thesis using e by (auto simp: grows_def pending_def)
  qed
qed

lemma setWaiting_length:
  assumes "setWaiting waiting n k i v = Inr waiting'"
  shows "waitingWork waiting' = waitingWork waiting"
proof -
  obtain obj entry row where "jget waiting n = Some obj" "jget obj k = Some entry" "jget entry main_type = Some row"
    "waiting' = jset waiting n (jset obj k (jset entry main_type (slot_set row i v)))"
    using assms by (auto simp: setWaiting_def)
  then show ?thesis by (simp add: waitingWork_same_length length_jset_present)
qed

lemma fillWaiting_grows:
  assumes "fillWaiting c index outputIndex parent d runIndex st = Inr st'"
  shows "grows {#} st st' \<and> sc_stack st' = sc_stack st"
proof -
  obtain v waiting sources where w: "setWaiting (sc_waiting st) (con_node c) index (con_index c) v = Inr waiting"
    "st' = st\<lparr>sc_waiting := waiting, sc_waitingSource := Some sources\<rparr>"
    using assms by (auto simp: fillWaiting_def Let_def split: prod.splits)
  with setWaiting_length[OF w(1)] show ?thesis by (simp add: grows_def pending_def)
qed

lemma enqueueItem_simps [simp]:
  "stackNodes (sc_stack (enqueueItem w i st)) = stackNodes [i] + stackNodes (sc_stack st)"
  "sc_waiting (enqueueItem w i st) = sc_waiting st" "sc_runData (enqueueItem w i st) = sc_runData st"
  "sc_waitingSource (enqueueItem w i st) = sc_waitingSource st"
  "stack_ready (sc_stack (enqueueItem w i st)) \<longleftrightarrow> mainData (si_data i) \<noteq> None \<and> stack_ready (sc_stack st)"
  by (auto simp: enqueueItem_def split: option.splits)

lemma stackNodes_item:
  assumes "well_named w" and "si_node i = jget (wf_nodes w) n"
  shows "stackNodes [i] \<subseteq># {#n#}"
  using assms by (auto simp: well_named_def split: option.splits)

lemma releaseWaiting_grows:
  assumes "releaseWaiting w n k st = Inr st'" and "waitingRow (sc_waiting st) n k = Inr row" and "well_named w"
  shows "grows {#} st st'"
proof -
  obtain obj e where o: "jget (sc_waiting st) n = Some obj" "jget obj k = Some e" "jget e main_type = Some row"
    using assms(2) by (auto simp: waitingRow_def)
  obtain sourceObj sources where sr: "sc_waitingSource st = Some sources" "jget sources n = Some sourceObj"
    using assms(1) by (auto simp: releaseWaiting_def)
  let ?i = "\<lparr>si_node = jget (wf_nodes w) n, si_data = e, si_source = jget sourceObj k, si_runIndex = None, si_metadata = None\<rparr>"
  have i: "stackNodes [?i] \<subseteq># {#n#}" using assms(3) by (rule stackNodes_item) simp
  define st1 where "st1 = enqueueItem w ?i st"
  have eq: "st' = (if jdel obj k = []
      then st1\<lparr>sc_waiting := jdel (sc_waiting st) n, sc_waitingSource := Some (jdel sources n)\<rparr>
      else st1\<lparr>sc_waiting := jset (sc_waiting st) n (jdel obj k),
        sc_waitingSource := Some (jset sources n (jdel sourceObj k))\<rparr>)"
    using assms(1) o(1,2) sr unfolding releaseWaiting_def st1_def Let_def by (simp split del: if_split)
  have st': "sc_stack st' = sc_stack st1" "sc_runData st' = sc_runData st1"
    "sc_waiting st' = jset (sc_waiting st) n (jdel obj k) \<or> sc_waiting st' = jdel (sc_waiting st) n"
    using eq by (simp_all split: if_splits)
  have "add_mset n (waitingWork (sc_waiting st')) \<subseteq># waitingWork (sc_waiting st)"
    using waitingWork_remove[OF o(1), of k] o(2) st'(3) by auto
  moreover have "stackNodes [?i] + waitingWork (sc_waiting st') \<subseteq># add_mset n (waitingWork (sc_waiting st'))"
    using subset_mset.add_right_mono[OF i, of "waitingWork (sc_waiting st')"] by simp
  ultimately have "stackNodes [?i] + waitingWork (sc_waiting st') \<subseteq># waitingWork (sc_waiting st)"
    by (rule subset_mset.order_trans[rotated])
  then have "pending st' \<subseteq># pending st"
    unfolding pending_def st'(1) st1_def enqueueItem_simps
    by (metis (no_types, lifting) add.assoc add.commute subset_mset.add_left_mono)
  moreover have "stack_ready (sc_stack st) \<longrightarrow> stack_ready (sc_stack st')"
    unfolding st'(1) st1_def enqueueItem_simps using o(3) by simp
  moreover have "sc_runData st' = sc_runData st" unfolding st'(2) st1_def by simp
  ultimately show ?thesis by (simp add: grows_def)
qed

lemma siblingStep_v1:
  "siblingStep w parent outputIndex d runIndex outs i st = Inr st' \<Longrightarrow> \<not> isLegacyExecutionOrder w \<Longrightarrow> st' = st"
  by (auto simp: siblingStep_def split: if_splits)

lemma addSiblings_v1_same:
  assumes "addSiblings w n parent outputIndex d runIndex st = Inr st'" and "\<not> isLegacyExecutionOrder w"
  shows "st' = st"
proof -
  obtain outs rows where "fold_res (siblingStep w parent outputIndex d runIndex outs) (concat (map (\<lambda>conns. slot_or conns []) rows)) st = Inr st'"
    using assms(1) by (auto simp: addSiblings_def)
  then show ?thesis by (rule fold_res_inv[where P = "\<lambda>s. s = st"]) (auto dest: siblingStep_v1[OF _ assms(2)])
qed

lemma keepWaiting_grows:
  assumes "keepWaiting w c k outputIndex d st = Inr st'"
  shows "grows {#} st st' \<and> sc_stack st' = sc_stack st"
proof -
  let ?n = "con_node c"
  obtain row where row: "waitingRow (sc_waiting st) ?n k = Inr row" using assms by (auto simp: keepWaiting_def)
  then obtain obj e where o: "jget (sc_waiting st) ?n = Some obj" "jget obj k = Some e" by (auto simp: waitingRow_def)
  have "\<exists>e1 e2. sc_waiting st' = jset (jset (sc_waiting st) ?n (jset obj k e1)) ?n (jset (jset obj k e1) k e2) \<and>
      sc_stack st' = sc_stack st \<and> sc_runData st' = sc_runData st"
    using assms row o by (auto simp: keepWaiting_def Let_def prepareWaitingToExecution_def)
  moreover have "waitingWork (jset (jset (sc_waiting st) ?n (jset obj k e1)) ?n (jset (jset obj k e1) k e2)) =
      waitingWork (sc_waiting st)" for e1 e2
    using o waitingWork_same_length[of "jset (sc_waiting st) ?n (jset obj k e1)" ?n "jset obj k e1" "jset (jset obj k e1) k e2"]
      waitingWork_same_length[of "sc_waiting st" ?n obj "jset obj k e1"]
    by (simp add: length_jset_present)
  ultimately show ?thesis by (auto simp: grows_def pending_def)
qed

text \<open>A delivery adds at most one piece of work, for its target.\<close>

lemma addNodeToBeExecuted_grows:
  assumes "addNodeToBeExecuted w c outputIndex parent d runIndex newRunIndex metadata st = Inr st'"
    and "well_named w" and "\<not> isLegacyExecutionOrder w"
  shows "grows {#con_node c#} st st'"
proof (cases "numberOfInputs w (con_node c) > 1")
  case False
  show ?thesis
  proof (cases "jget (wf_nodes w) (con_node c)")
    case None
    with False assms(1) show ?thesis by (auto simp: addNodeToBeExecuted_def grows_def)
  next
    case (Some node)
    let ?i = "directItem w c outputIndex parent d runIndex newRunIndex metadata"
    have "stackNodes [?i] \<subseteq># {#con_node c#}" using assms(2) by (rule stackNodes_item) (simp add: directItem_def)
    moreover have "st' = enqueueItem w ?i st" using False Some assms(1) by (simp add: addNodeToBeExecuted_def)
    moreover have "mainData (si_data ?i) \<noteq> None" by (simp add: directItem_def)
    ultimately show ?thesis
      unfolding grows_def pending_def by (simp add: ac_simps del: stackNodes_simps(3))
  qed
next
  case True
  obtain st1 index was st2 row where r: "waitingEntry w c st = Inr (st1, index, was)"
    "fillWaiting c index outputIndex parent d runIndex st1 = Inr st2" "waitingRow (sc_waiting st2) (con_node c) index = Inr row"
    "(if \<not> list_ex is_null row then releaseWaiting w (con_node c) index st2
      else bind_res (if was then Inr st2 else addSiblings w (con_node c) parent outputIndex d runIndex st2)
        (keepWaiting w c index outputIndex d)) = Inr st'"
    using assms(1) True by (auto simp: addNodeToBeExecuted_def split: prod.splits)
  have "grows {#con_node c#} st st2"
    using grows_trans[of "{#con_node c#}" st st1 "{#}" st2] waitingEntry_grows[OF r(1)] fillWaiting_grows[OF r(2)] by simp
  moreover have "grows {#} st2 st'"
  proof (cases "list_ex is_null row")
    case True
    with r(4) obtain st3 where s: "(if was then Inr st2 else addSiblings w (con_node c) parent outputIndex d runIndex st2) = Inr st3"
      "keepWaiting w c index outputIndex d st3 = Inr st'" by auto
    then have "st3 = st2" using addSiblings_v1_same[OF _ assms(3)] by (auto split: if_splits)
    with s(2) keepWaiting_grows show ?thesis by blast
  next
    case False
    with r(4) have "releaseWaiting w (con_node c) index st2 = Inr st'" by simp
    from releaseWaiting_grows[OF this r(3) assms(2)] show ?thesis .
  qed
  ultimately show ?thesis using grows_trans[of "{#con_node c#}" st st2 "{#}" st'] by simp
qed

text \<open>In either order the run data stays, and a new entry of the stack has no run index of its own.\<close>

definition fresh_stack :: "StackItem list \<Rightarrow> bool" where
  "fresh_stack stack \<longleftrightarrow> list_all (\<lambda>i. si_runIndex i = None) stack"

definition calm :: "Scheduling \<Rightarrow> Scheduling \<Rightarrow> bool" where
  "calm st st' \<longleftrightarrow> sc_runData st' = sc_runData st \<and> (fresh_stack (sc_stack st) \<longrightarrow> fresh_stack (sc_stack st'))"

lemma fresh_stack_simps [simp]:
  "fresh_stack []" "fresh_stack (xs @ ys) \<longleftrightarrow> fresh_stack xs \<and> fresh_stack ys"
  "fresh_stack (i # xs) \<longleftrightarrow> si_runIndex i = None \<and> fresh_stack xs"
  by (simp_all add: fresh_stack_def)

lemma calm_refl: "calm st st" by (simp add: calm_def)

lemma calm_trans: "calm st st' \<Longrightarrow> calm st' st'' \<Longrightarrow> calm st st''" by (auto simp: calm_def)

lemma calm_enqueueItem: "calm st (enqueueItem w i st) \<longleftrightarrow> (fresh_stack (sc_stack st) \<longrightarrow> si_runIndex i = None)"
  by (auto simp: calm_def enqueueItem_def)

lemma releaseWaiting_calm:
  assumes "releaseWaiting w n k st = Inr st'"
  shows "calm st st'"
proof -
  obtain i waiting sources where "st' = (enqueueItem w i st)\<lparr>sc_waiting := waiting, sc_waitingSource := sources\<rparr>" "si_runIndex i = None"
    using assms unfolding releaseWaiting_def Let_def bind_res_Inr_iff defined_Inr_iff
    by (elim exE conjE) (auto split: if_splits)
  then show ?thesis by (simp add: calm_def enqueueItem_def)
qed

lemma addEmptyItem_calm: "addEmptyItem w parent outputIndex runIndex n st = Inr st' \<Longrightarrow> calm st st'"
  unfolding addEmptyItem_def bind_res_Inr_iff
  by (elim exE conjE) (auto simp: calm_enqueueItem calm_refl split: if_splits)

lemma siblingStep_calm:
  assumes "siblingStep w parent outputIndex d runIndex outs i st = Inr st'"
  shows "calm st st'"
proof -
  have "st' = st \<or> (\<exists>n. addEmptyItem w parent outputIndex runIndex n st = Inr st')"
    using assms unfolding siblingStep_def
    by (auto simp del: not_None_eq split: if_splits option.splits)
  then show ?thesis by (auto dest: addEmptyItem_calm simp: calm_refl)
qed

lemma addSiblings_calm:
  assumes "addSiblings w n parent outputIndex d runIndex st = Inr st'"
  shows "calm st st'"
proof -
  obtain outs rows where "fold_res (siblingStep w parent outputIndex d runIndex outs)
      (concat (map (\<lambda>conns. slot_or conns []) rows)) st = Inr st'"
    using assms by (auto simp: addSiblings_def)
  then show ?thesis
    by (rule fold_res_inv[where P = "calm st"]) (auto intro: calm_refl dest: siblingStep_calm calm_trans)
qed

lemma addNodeToBeExecuted_calm:
  assumes "addNodeToBeExecuted w c outputIndex parent d runIndex None metadata st = Inr st'"
  shows "calm st st'"
proof (cases "numberOfInputs w (con_node c) > 1")
  case False
  with assms show ?thesis
    by (auto simp: addNodeToBeExecuted_def calm_refl calm_enqueueItem directItem_def split: if_splits)
next
  case True
  obtain st1 index was st2 row where r: "waitingEntry w c st = Inr (st1, index, was)"
    "fillWaiting c index outputIndex parent d runIndex st1 = Inr st2" "waitingRow (sc_waiting st2) (con_node c) index = Inr row"
    "(if \<not> list_ex is_null row then releaseWaiting w (con_node c) index st2
      else bind_res (if was then Inr st2 else addSiblings w (con_node c) parent outputIndex d runIndex st2)
        (keepWaiting w c index outputIndex d)) = Inr st'"
    using assms True by (auto simp: addNodeToBeExecuted_def split: prod.splits)
  have "calm st st2"
    using waitingEntry_grows[OF r(1)] fillWaiting_grows[OF r(2)] by (simp add: grows_def calm_def)
  moreover have "calm st2 st'"
  proof (cases "list_ex is_null row")
    case True
    with r(4) obtain st3 where s: "(if was then Inr st2 else addSiblings w (con_node c) parent outputIndex d runIndex st2) = Inr st3"
      "keepWaiting w c index outputIndex d st3 = Inr st'" by auto
    from s(1) have "calm st2 st3" by (auto split: if_splits simp: calm_refl dest: addSiblings_calm)
    with keepWaiting_grows[OF s(2)] show ?thesis by (simp add: grows_def calm_def)
  next
    case False
    with r(4) show ?thesis by (auto dest: releaseWaiting_calm)
  qed
  ultimately show ?thesis by (rule calm_trans)
qed

section \<open>The revival of waiting nodes\<close>

lemma removeWaiting_runData: "removeWaiting n k st = Inr st' \<Longrightarrow> sc_runData st' = sc_runData st \<and> sc_stack st' = sc_stack st"
  unfolding removeWaiting_def Let_def bind_res_Inr_iff defined_Inr_iff
  by (elim exE conjE) (auto split: if_splits)

lemma removeWaiting_work:
  assumes "removeWaiting n k st = Inr st'" and "jget (sc_waiting st) n = Some obj" and "jget obj k \<noteq> None"
  shows "add_mset n (waitingWork (sc_waiting st')) \<subseteq># waitingWork (sc_waiting st)"
proof -
  have "sc_waiting st' = jset (sc_waiting st) n (jdel obj k) \<or> sc_waiting st' = jdel (sc_waiting st) n"
    using assms(1,2) unfolding removeWaiting_def Let_def bind_res_Inr_iff defined_Inr_iff
    by (elim exE conjE) (auto split: if_splits)
  with waitingWork_remove[OF assms(2,3)] show ?thesis by auto
qed

lemma reviveNode_Scheduled:
  assumes "reviveNode types w ns n st = Inr (Scheduled st')"
  obtains obj k row rt st1 where "pushRevived w rt n k row st = Inr st1" and "removeWaiting n k st1 = Inr st'"
    and "jget (sc_waiting st) n = Some obj" and "jget obj k \<noteq> None"
proof -
  have "\<exists>obj k row rt st1. pushRevived w rt n k row st = Inr st1 \<and> removeWaiting n k st1 = Inr st' \<and>
      jget (sc_waiting st) n = Some obj \<and> jget obj k \<noteq> None"
    using assms unfolding reviveNode_def
    by (auto simp: waitingRow_def Let_def split: option.splits if_splits) blast+
  then show thesis using that by blast
qed

lemma pushRevived_simps:
  assumes "pushRevived w rt n k row st = Inr st'"
  shows "sc_runData st' = sc_runData st" and "sc_waiting st' = sc_waiting st"
    and "\<exists>i. sc_stack st' = sc_stack st @ [i] \<and> si_node i = jget (wf_nodes w) n \<and> mainData (si_data i) \<noteq> None \<and>
      si_runIndex i = None"
  using assms by (auto simp: pushRevived_def)

lemma reviveNode_grows:
  assumes "reviveNode types w ns n st = Inr r" and "well_named w" and "r = Removed st' \<or> r = Scheduled st'"
  shows "grows {#} st st'"
  using assms(3)
proof
  assume "r = Removed st'"
  with assms(1) obtain obj k where r: "removeWaiting n k st = Inr st'" "jget (sc_waiting st) n = Some obj" "jget obj k \<noteq> None"
    by (metis reviveNode_Removed)
  have "waitingWork (sc_waiting st') \<subseteq># add_mset n (waitingWork (sc_waiting st'))" by simp
  also have "\<dots> \<subseteq># waitingWork (sc_waiting st)" using r by (rule removeWaiting_work)
  finally show ?thesis using removeWaiting_runData[OF r(1)] by (simp add: grows_def pending_def)
next
  assume "r = Scheduled st'"
  with assms(1) obtain obj k row rt st1 where r: "pushRevived w rt n k row st = Inr st1" "removeWaiting n k st1 = Inr st'"
    "jget (sc_waiting st) n = Some obj" "jget obj k \<noteq> None"
    by (metis reviveNode_Scheduled)
  note p = pushRevived_simps[OF r(1)]
  obtain i where i: "sc_stack st1 = sc_stack st @ [i]" "si_node i = jget (wf_nodes w) n" "mainData (si_data i) \<noteq> None"
    using p(3) by blast
  have "add_mset n (waitingWork (sc_waiting st')) \<subseteq># waitingWork (sc_waiting st)"
    using removeWaiting_work[OF r(2)] p(2) r(3,4) by simp
  moreover have "stackNodes [i] + waitingWork (sc_waiting st') \<subseteq># add_mset n (waitingWork (sc_waiting st'))"
    using subset_mset.add_right_mono[OF stackNodes_item[OF assms(2) i(2)], of "waitingWork (sc_waiting st')"] by simp
  ultimately have "stackNodes [i] + waitingWork (sc_waiting st') \<subseteq># waitingWork (sc_waiting st)"
    by (rule subset_mset.order_trans[rotated])
  then have "pending st' \<subseteq># pending st"
    using removeWaiting_runData[OF r(2)] i(1)
    by (simp add: pending_def add.assoc del: stackNodes_simps(3))
  with removeWaiting_runData[OF r(2)] p(1) i show ?thesis by (simp add: grows_def)
qed

lemma reviveNode_calm:
  assumes "reviveNode types w ns n st = Inr r" and "r = Removed st' \<or> r = Scheduled st'"
  shows "calm st st'"
  using assms(2)
proof
  assume "r = Removed st'"
  with assms(1) obtain k where "removeWaiting n k st = Inr st'" by (metis reviveNode_Removed)
  from removeWaiting_runData[OF this] show ?thesis by (simp add: calm_def)
next
  assume "r = Scheduled st'"
  with assms(1) obtain k rt row st1 where r: "pushRevived w rt n k row st = Inr st1" "removeWaiting n k st1 = Inr st'"
    by (metis reviveNode_Scheduled)
  from pushRevived_simps[OF r(1)] removeWaiting_runData[OF r(2)] show ?thesis by (auto simp: calm_def)
qed

lemma reviveLoop_inv:
  assumes step: "\<And>ns n r t t'. reviveNode types w ns n t = Inr r \<Longrightarrow> r = Removed t' \<or> r = Scheduled t' \<Longrightarrow> P t \<Longrightarrow> P t'"
  shows "reviveLoop types w ns rest st = Inr st' \<Longrightarrow> P st \<Longrightarrow> P st'"
proof (induction "(st, rest)" arbitrary: st rest ns
    rule: wf_induct_rule[OF wf_measures[of "[\<lambda>(st, rest). entryCount st, \<lambda>(st, rest). length rest]"]])
  case 1
  show ?case
  proof (cases rest)
    case Nil
    with 1 show ?thesis by simp
  next
    case (Cons n rest')
    obtain r where r: "reviveNode types w ns n st = Inr r" using 1(2) Cons by (auto split: sum.splits)
    show ?thesis
    proof (cases r)
      case Skipped
      with 1 Cons r show ?thesis by auto
    next
      case (Removed t)
      with r have "entryCount t < entryCount st" by (auto dest: reviveNode_decreases)
      moreover have "P t" using step[OF r] Removed 1(3) by blast
      ultimately show ?thesis using 1(1)[of t "jkeys (sc_waiting t)" "jkeys (sc_waiting t)"] 1(2) Cons r Removed by auto
    next
      case (Scheduled t)
      then have "P t" using step[OF r] 1(3) by blast
      with 1(2) Cons r Scheduled show ?thesis by auto
    qed
  qed
qed

lemma reviveWaiting_calm:
  assumes "reviveWaiting types w st = Inr st'"
  shows "calm st st'"
proof (cases "sc_stack st = [] \<and> sc_waiting st \<noteq> []")
  case True
  then have "reviveLoop types w (jkeys (sc_waiting st)) (jkeys (sc_waiting st)) st = Inr st'"
    using assms by (simp add: reviveWaiting_def)
  then show ?thesis by (rule reviveLoop_inv[rotated]) (auto intro: calm_refl dest: reviveNode_calm calm_trans)
next
  case False
  with assms show ?thesis by (auto simp: reviveWaiting_def calm_refl)
qed

lemma reviveWaiting_grows:
  assumes "reviveWaiting types w st = Inr st'" and "well_named w"
  shows "grows {#} st st'"
proof (cases "sc_stack st = [] \<and> sc_waiting st \<noteq> []")
  case True
  then have "reviveLoop types w (jkeys (sc_waiting st)) (jkeys (sc_waiting st)) st = Inr st'"
    using assms(1) by (simp add: reviveWaiting_def)
  then show ?thesis
  proof (rule reviveLoop_inv[rotated])
    fix ns n r t t'
    assume "reviveNode types w ns n t = Inr r" "r = Removed t' \<or> r = Scheduled t'" "grows {#} st t"
    then show "grows {#} st t'" using reviveNode_grows[OF _ assms(2)] grows_trans[of "{#}" st t "{#}" t'] by simp
  qed (rule grows_refl)
next
  case False
  with assms(1) show ?thesis by (auto simp: reviveWaiting_def grows_refl)
qed

end
