(* ===== verification/Execution_Loop_Laws.thy ===== *)
theory Execution_Loop_Laws
  imports Execution_Loop Pending_Work
begin

text \<open>
  What an iteration of the loop keeps, whatever the nodes do.
\<close>

section \<open>What the tries of a node change\<close>

text \<open>An engine whose nodes ask for no other nodes, and whose calls change run data only within a relation.\<close>

definition quiet :: "'w Engine \<Rightarrow> bool" where
  "quiet en \<longleftrightarrow> (\<forall>call w r. fst (en_call en call w) \<noteq> Request r)"

definition calls_within :: "(IRunData \<Rightarrow> IRunData \<Rightarrow> bool) \<Rightarrow> 'w Engine \<Rightarrow> bool" where
  "calls_within R en \<longleftrightarrow> (\<forall>call w. R (nc_runData call) (ce_runData (fst (snd (en_call en call w)))))"

text \<open>The tries change the pin data, the last executed node, \<^verbatim>\<open>waitTill\<close>, the outside world and, within the
  relation, the run data.\<close>

definition frame :: "(IRunData \<Rightarrow> IRunData \<Rightarrow> bool) \<Rightarrow> 'w LoopState \<Rightarrow> 'w LoopState \<Rightarrow> bool" where
  "frame R st st' \<longleftrightarrow> R (runDataOf st) (runDataOf st') \<and>
     (\<exists>p l t w r. st' = setRunData r (st\<lparr>ls_pinData := p, ls_lastNodeExecuted := l, ls_waitTill := t, ls_world := w\<rparr>))"

lemma frame_refl: "reflp R \<Longrightarrow> frame R st st"
  unfolding frame_def setRunData_def
  by (auto simp: reflp_def intro!: exI[of _ "ls_pinData st"] exI[of _ "ls_lastNodeExecuted st"]
      exI[of _ "ls_waitTill st"] exI[of _ "ls_world st"] exI[of _ "runDataOf st"])

lemma frame_trans: "transp R \<Longrightarrow> frame R st st' \<Longrightarrow> frame R st' st'' \<Longrightarrow> frame R st st''"
  unfolding frame_def setRunData_def by (auto dest: transpD) blast

lemma frame_pin: "reflp R \<Longrightarrow> frame R st (st\<lparr>ls_pinData := p\<rparr>)"
  unfolding frame_def setRunData_def
  by (auto simp: reflp_def intro!: exI[of _ p] exI[of _ "ls_lastNodeExecuted st"]
      exI[of _ "ls_waitTill st"] exI[of _ "ls_world st"] exI[of _ "runDataOf st"])

lemma frame_last: "reflp R \<Longrightarrow> frame R st (st\<lparr>ls_lastNodeExecuted := l\<rparr>)"
  unfolding frame_def setRunData_def
  by (auto simp: reflp_def intro!: exI[of _ "ls_pinData st"] exI[of _ l]
      exI[of _ "ls_waitTill st"] exI[of _ "ls_world st"] exI[of _ "runDataOf st"])

lemma frame_fields:
  assumes "frame R st st'"
  shows "ls_workflow st' = ls_workflow st" and "sc_stack (ls_sched st') = sc_stack (ls_sched st)"
    and "sc_waiting (ls_sched st') = sc_waiting (ls_sched st)"
    and "sc_waitingSource (ls_sched st') = sc_waitingSource (ls_sched st)"
    and "ls_executionIndex st' = ls_executionIndex st" and "ls_events st' = ls_events st"
    and "ls_lastTry st' = ls_lastTry st" and "ls_error st' = ls_error st" and "ls_status st' = ls_status st"
    and "R (runDataOf st) (runDataOf st')"
  using assms by (auto simp: frame_def setRunData_def)

lemma callNode_frame:
  assumes "calls_within R en" and "nc_runData call = runDataOf st"
  shows "frame R st (snd (callNode en call st))"
proof -
  obtain reply fx w where c: "en_call en call (ls_world st) = (reply, fx, w)" by (rule prod_cases3)
  with assms have "R (runDataOf st) (ce_runData fx)" unfolding calls_within_def by (metis fst_conv snd_conv)
  with c show ?thesis
    unfolding callNode_def frame_def setRunData_def
    by (auto intro!: exI[of _ "ls_pinData st"] exI[of _ "ls_lastNodeExecuted st"] exI[of _ w]
        exI[of _ "case ce_waitTill fx of None \<Rightarrow> ls_waitTill st | Some t \<Rightarrow> Some t"] exI[of _ "ce_runData fx"])
qed

lemma callNode_quiet: "quiet en \<Longrightarrow> fst (callNode en call st) \<noteq> Request r"
  unfolding quiet_def callNode_def by (auto split: prod.splits) (metis fst_conv)

lemma dispatchNode_cases:
  "(\<exists>call'. nc_runData call' = nc_runData call \<and> dispatchNode en rt call st = callNode en call' st) \<or>
   (\<exists>reply. dispatchNode en rt call st = (reply, st) \<and> (\<forall>r. reply \<noteq> Request r))"
  unfolding dispatchNode_def Let_def by (auto intro: exI[of _ "call\<lparr>nc_kind := _\<rparr>"])

text \<open>A run of a node is one call of its code, or none.\<close>

lemma runNode_cases:
  "(\<exists>call share. nc_runData call = runDataOf st \<and>
      runNode en item node runIndex responses st =
        (unshare share (fst (callNode en call st)), snd (callNode en call st))) \<or>
   (\<exists>reply. runNode en item node runIndex responses st = (reply, st) \<and> (\<forall>r. reply \<noteq> Request r))"
proof (cases "\<exists>rt conn. Option.bind (si_metadata item) tm_resumeError = None \<and> \<not> is_disabled node \<and>
    en_nodeType en node = Some rt \<and>
    prepareConnectionInputData (ls_workflow st) rt node (si_data item) (si_source item) = Some conn \<and>
    (if ls_lastNodeExecuted st = Some (node_name node) then ls_error st else None) = None")
  case True
  then obtain rt conn where c: "Option.bind (si_metadata item) tm_resumeError = None" "\<not> is_disabled node"
    "en_nodeType en node = Some rt"
    "prepareConnectionInputData (ls_workflow st) rt node (si_data item) (si_source item) = Some conn"
    "(if ls_lastNodeExecuted st = Some (node_name node) then ls_error st else None) = None" by blast
  let ?call = "\<lparr>nc_kind = ExecuteCall, nc_node = node, nc_inputData = handleExecuteOnce node (si_data item),
      nc_connectionInputData = conn, nc_source = si_source item, nc_metadata = si_metadata item,
      nc_runIndex = runIndex, nc_runData = runDataOf st, nc_responses = responses\<rparr>"
  let ?share = "ns_executeOnce (node_settings node) = Some True"
  have r: "runNode en item node runIndex responses st =
      (case dispatchNode en rt ?call st of (reply, st') \<Rightarrow> (unshare ?share reply, st'))"
    unfolding runNode_def using c by (simp del: split_paired_Ex)
  have u: "\<forall>r. unshare ?share reply \<noteq> Request r" if "\<forall>r. reply \<noteq> Request r" for reply
    using that by (cases reply; cases ?share) auto
  from dispatchNode_cases[of ?call en rt st] show ?thesis
  proof (elim disjE exE conjE)
    fix call' assume "nc_runData call' = nc_runData ?call" "dispatchNode en rt ?call st = callNode en call' st"
    with r show ?thesis by (intro disjI1 exI[of _ call'] exI[of _ ?share]) (auto split: prod.splits)
  next
    fix reply assume "dispatchNode en rt ?call st = (reply, st)" "\<forall>r. reply \<noteq> Request r"
    with r u show ?thesis by (intro disjI2) auto
  qed
next
  case False
  then show ?thesis
    unfolding runNode_def
    by (auto split: option.splits prod.splits if_splits)
qed


lemma unshare_Request: "unshare share reply = Request r \<longleftrightarrow> reply = Request r"
  by (cases reply; cases share) auto

text \<open>The facts about the tries are stated once, for an engine that asks for no nodes.\<close>

definition lawful :: "(IRunData \<Rightarrow> IRunData \<Rightarrow> bool) \<Rightarrow> 'w Engine \<Rightarrow> bool" where
  "lawful R en \<longleftrightarrow> quiet en \<and> calls_within R en \<and> reflp R \<and> transp R"

lemma runNode_frame:
  assumes "lawful R en" and "runNode en item node runIndex responses st = (reply, st')"
  shows "frame R st st'" and "reply \<noteq> Request r"
proof -
  have "frame R st st' \<and> (\<forall>r. reply \<noteq> Request r)"
    using runNode_cases[of st en item node runIndex responses]
  proof (elim disjE exE conjE)
    fix call share
    assume c: "nc_runData call = runDataOf st" "runNode en item node runIndex responses st =
        (unshare share (fst (callNode en call st)), snd (callNode en call st))"
    have "frame R st (snd (callNode en call st))"
      using assms(1) c(1) by (auto simp: lawful_def intro: callNode_frame)
    moreover have "fst (callNode en call st) \<noteq> Request r" for r
      using assms(1) by (auto simp: lawful_def dest: callNode_quiet)
    ultimately show ?thesis using c(2) assms(2) by (simp add: unshare_Request)
  next
    fix reply' assume "runNode en item node runIndex responses st = (reply', st)" "\<forall>r. reply' \<noteq> Request r"
    with assms show ?thesis by (auto simp: lawful_def intro: frame_refl)
  qed
  then show "frame R st st'" and "reply \<noteq> Request r" by auto
qed

lemma softRetries_frame:
  assumes "lawful R en" and "softRetries en item node runIndex left reply st = (reply', left', st')"
    and "\<forall>r. reply \<noteq> Request r"
  shows "frame R st st' \<and> (\<forall>r. reply' \<noteq> Request r)"
  using assms(2,3)
proof (induction left arbitrary: reply st)
  case 0
  with assms(1) show ?case by (auto simp: lawful_def intro: frame_refl)
next
  case (Suc left)
  show ?case
  proof (cases "replyFailed reply")
    case True
    obtain reply1 st1 where r: "runNode en item node runIndex None st = (reply1, st1)" by fastforce
    have f: "frame R st st1" "\<forall>r. reply1 \<noteq> Request r"
      using runNode_frame[OF assms(1) r] by auto
    show ?thesis
    proof (cases "\<exists>e. reply1 = Throws e")
      case True
      with Suc.prems \<open>replyFailed reply\<close> r f show ?thesis by auto
    next
      case False
      with Suc.prems \<open>replyFailed reply\<close> r have "softRetries en item node runIndex left reply1 st1 = (reply', left', st')"
        by (cases reply1) auto
      with Suc.IH f have "frame R st1 st' \<and> (\<forall>r. reply' \<noteq> Request r)" by blast
      with f show ?thesis using assms(1) frame_trans[of R st st1 st'] by (auto simp: lawful_def)
    qed
  next
    case False
    with Suc.prems assms(1) show ?thesis by (auto simp: lawful_def intro: frame_refl)
  qed
qed

text \<open>The entry keeps its node, its source, its run index and its metadata.\<close>

definition same_item :: "StackItem \<Rightarrow> StackItem \<Rightarrow> bool" where
  "same_item i j \<longleftrightarrow> (\<exists>d. j = i\<lparr>si_data := d\<rparr>)"

lemma same_item_refl [simp]: "same_item i i" "same_item i (i\<lparr>si_data := d\<rparr>)"
  unfolding same_item_def by (auto intro: exI[of _ "si_data i"])

lemma same_item_trans: "same_item i j \<Longrightarrow> same_item j k \<Longrightarrow> same_item i k"
  unfolding same_item_def by auto

definition try_frame :: "(IRunData \<Rightarrow> IRunData \<Rightarrow> bool) \<Rightarrow> 'w TryState \<Rightarrow> 'w TryState \<Rightarrow> bool" where
  "try_frame R ts ts' \<longleftrightarrow> frame R (ts_loop ts) (ts_loop ts') \<and> same_item (ts_item ts) (ts_item ts')"

lemma completeTry_frame:
  assumes "lawful R en" and "completeTry pinned shared node ts = (end, ts')"
  shows "try_frame R ts ts' \<and> end \<noteq> Requeued"
proof -
  obtain e data where a: "assignPairedItems (si_data (ts_item ts)) (ts_data ts) = (e, data)" by fastforce
  let ?st = "(ts_loop ts)\<lparr>ls_pinData := writePinned pinned node data (ls_pinData (ts_loop ts))\<rparr>"
  have R: "reflp R" "transp R" using assms(1) by (auto simp: lawful_def)
  have f: "frame R (ts_loop ts) ?st" "frame R (ts_loop ts) (?st\<lparr>ls_lastNodeExecuted := l\<rparr>)" for l
    using R frame_pin frame_last frame_trans by blast+
  have "ts_loop ts' \<in> {?st, ?st\<lparr>ls_lastNodeExecuted := Some (node_name node)\<rparr>} \<and> same_item (ts_item ts) (ts_item ts')
      \<and> end \<noteq> Requeued"
    using assms(2) a
    by (auto simp: completeTry_def Let_def split: option.splits sum.splits sharing.splits if_splits)
  with f show ?thesis by (auto simp: try_frame_def)
qed

lemma handleReply_frame:
  assumes "lawful R en" and "handleReply en node runIndex reply ts = (end, ts')" and "\<forall>r. reply \<noteq> Request r"
  shows "try_frame R ts ts' \<and> end \<noteq> Requeued"
proof (cases reply)
  case (Output outs shared)
  obtain e item data where p: "processNodeOutput en node outs shared (ts_item ts) = (e, item, data)"
    by (rule prod_cases3)
  have item: "same_item (ts_item ts) item"
    using p by (auto simp: processNodeOutput_def split: option.splits if_splits prod.splits)
  show ?thesis
  proof (cases e)
    case None
    with p Output assms(2) have "completeTry False shared node (ts\<lparr>ts_item := item, ts_data := data\<rparr>) = (end, ts')"
      by (simp add: handleReply_def)
    from completeTry_frame[OF assms(1) this] item show ?thesis
      by (auto simp: try_frame_def intro: same_item_trans)
  next
    case (Some err)
    with p Output assms(1,2) item show ?thesis
      by (auto simp: handleReply_def try_frame_def lawful_def intro: frame_refl)
  qed
next
  case (Throws e)
  with assms(1,2) show ?thesis by (auto simp: handleReply_def try_frame_def lawful_def intro: frame_refl)
qed (use assms(3) in auto)

lemma attempt_frame:
  assumes "lawful R en" and "attempt en node runIndex left ts = (end, left', ts')"
  shows "try_frame R ts ts' \<and> end \<noteq> Requeued"
proof (cases "getPinnedOutput (ls_pinData (ts_loop ts)) node")
  case None
  let ?responses = "collectSubNodeResults (ts_item ts) (runDataOf (ts_loop ts)) (ts_responses ts)"
  obtain reply st where r: "runNode en (ts_item ts) node runIndex (Some ?responses) (ts_loop ts) = (reply, st)"
    by fastforce
  obtain reply' left'' st' where s: "softRetries en (ts_item ts) node runIndex left reply st = (reply', left'', st')"
    by (rule prod_cases3)
  have f: "frame R (ts_loop ts) st'" "\<forall>r. reply' \<noteq> Request r"
    using runNode_frame[OF assms(1) r] softRetries_frame[OF assms(1) s] assms(1) frame_trans[of R "ts_loop ts" st st']
    by (auto simp: lawful_def)
  from assms(2) None r s
  have "handleReply en node runIndex reply' (ts\<lparr>ts_responses := ?responses, ts_loop := st'\<rparr>) = (end, ts')"
    by (auto simp: attempt_def Let_def split: prod.splits)
  from handleReply_frame[OF assms(1) this f(2)] f(1) assms(1) frame_trans[of R "ts_loop ts" st' "ts_loop ts'"]
  show ?thesis by (auto simp: try_frame_def lawful_def)
next
  case (Some outs)
  with assms(2) have "completeTry True (SharedArrays []) node (ts\<lparr>ts_data := Some outs\<rparr>) = (end, ts')"
    by (auto simp: attempt_def split: prod.splits)
  from completeTry_frame[OF assms(1) this] show ?thesis by (simp add: try_frame_def)
qed

lemma try_frame_trans: "transp R \<Longrightarrow> try_frame R a b \<Longrightarrow> try_frame R b c \<Longrightarrow> try_frame R a c"
  unfolding try_frame_def by (meson frame_trans same_item_trans)

lemma tryLoop_frame:
  assumes "lawful R en" and "tryLoop en node runIndex left ts = (end, ts')"
  shows "try_frame R ts ts' \<and> end \<noteq> Requeued"
  using assms(2)
proof (induction left arbitrary: ts rule: less_induct)
  case (less left)
  obtain end1 left1 ts1 where a: "attempt en node runIndex left ts = (end1, left1, ts1)" by (rule prod_cases3)
  have f: "try_frame R ts ts1" "end1 \<noteq> Requeued" "left1 \<le> left"
    using attempt_frame[OF assms(1) a] attempt_left[OF a] by auto
  show ?case
  proof (cases "\<exists>e. end1 = Raised e")
    case True
    then obtain e where e: "end1 = Raised e" by blast
    let ?ts = "ts1\<lparr>ts_loop := reportNodeExecutionError node (ts_loop ts1)\<rparr>"
    have "try_frame R ts1 ?ts"
      using assms(1) by (auto simp: try_frame_def reportNodeExecutionError_def lawful_def intro: frame_last)
    with f have f': "try_frame R ts ?ts" using assms(1) by (auto simp: lawful_def intro: try_frame_trans)
    show ?thesis
    proof (cases "left1 = 0")
      case True
      with less.prems a e f' show ?thesis by (auto simp: tryLoop.simps[of _ _ _ left] Let_def)
    next
      case False
      with less.prems a e have "tryLoop en node runIndex (left1 - 1) ?ts = (end, ts')"
        by (simp add: tryLoop.simps[of _ _ _ left] Let_def)
      from less.IH[OF _ this] False f(3) have "try_frame R ?ts ts' \<and> end \<noteq> Requeued" by simp
      with f' assms(1) show ?thesis by (auto simp: lawful_def intro: try_frame_trans)
    qed
  next
    case False
    with less.prems a f show ?thesis by (cases end1) (auto simp: tryLoop.simps[of _ _ _ left])
  qed
qed

section \<open>What an iteration changes\<close>

lemma setRunData_simps [simp]:
  "runDataOf (setRunData r st) = r" "ls_workflow (setRunData r st) = ls_workflow st"
  "sc_stack (ls_sched (setRunData r st)) = sc_stack (ls_sched st)"
  "sc_waiting (ls_sched (setRunData r st)) = sc_waiting (ls_sched st)"
  "sc_waitingSource (ls_sched (setRunData r st)) = sc_waitingSource (ls_sched st)"
  "ls_executionIndex (setRunData r st) = ls_executionIndex st" "ls_waitTill (setRunData r st) = ls_waitTill st"
  "ls_lastTry (setRunData r st) = ls_lastTry st" "ls_world (setRunData r st) = ls_world st"
  "ls_executionError (setRunData r st) = ls_executionError st" "ls_lastNodeExecuted (setRunData r st) = ls_lastNodeExecuted st"
  "ls_events (setRunData r st) = ls_events st" "ls_status (setRunData r st) = ls_status st"
  by (simp_all add: setRunData_def)

lemma emit_simps [simp]:
  "ls_workflow (emit e st) = ls_workflow st" "ls_sched (emit e st) = ls_sched st"
  "ls_executionIndex (emit e st) = ls_executionIndex st" "ls_waitTill (emit e st) = ls_waitTill st"
  "ls_lastTry (emit e st) = ls_lastTry st" "ls_world (emit e st) = ls_world st"
  "ls_executionError (emit e st) = ls_executionError st" "ls_lastNodeExecuted (emit e st) = ls_lastNodeExecuted st"
  "ls_status (emit e st) = ls_status st" "ls_events (emit e st) = ls_events st @ [e]"
  by (simp_all add: emit_def)

lemma pushExecutionStack_simps [simp]:
  "ls_workflow (pushExecutionStack i st) = ls_workflow st" "runDataOf (pushExecutionStack i st) = runDataOf st"
  "sc_stack (ls_sched (pushExecutionStack i st)) = i # sc_stack (ls_sched st)"
  "sc_waiting (ls_sched (pushExecutionStack i st)) = sc_waiting (ls_sched st)"
  "ls_executionIndex (pushExecutionStack i st) = ls_executionIndex st"
  "ls_waitTill (pushExecutionStack i st) = ls_waitTill st" "ls_world (pushExecutionStack i st) = ls_world st"
  "ls_executionError (pushExecutionStack i st) = ls_executionError st"
  "ls_lastNodeExecuted (pushExecutionStack i st) = ls_lastNodeExecuted st"
  by (simp_all add: pushExecutionStack_def)

subsection \<open>Scheduling\<close>

lemma fold_addNext_grows:
  assumes "well_named w" and "\<not> isLegacyExecutionOrder w"
  shows "fold_res (addNext w name outs runIndex) ps st = Inr st' \<Longrightarrow> grows (mset (map (con_node \<circ> snd) ps)) st st'"
proof (induction ps arbitrary: st)
  case (Cons p ps)
  then obtain t where t: "addNext w name outs runIndex p st = Inr t" "fold_res (addNext w name outs runIndex) ps t = Inr st'"
    by (auto split: sum.splits)
  have "grows {#con_node (snd p)#} st t"
    using t(1) assms unfolding addNext_def by (rule addNodeToBeExecuted_grows)
  from grows_trans[OF this Cons.IH[OF t(2)]] show ?case by simp
qed (simp add: grows_refl)

lemma addNext_calm: "addNext w name outs runIndex p st = Inr st' \<Longrightarrow> calm st st'"
  unfolding addNext_def by (rule addNodeToBeExecuted_calm)

lemma legacyNext_calm: "legacyNext w name outs runIndex p st = Inr st' \<Longrightarrow> calm st st'"
  unfolding legacyNext_def by (auto split: if_splits simp: calm_refl dest: addNext_calm)

lemma scheduleChildren_calm:
  assumes "scheduleChildren w name outs runIndex st = Inr st'"
  shows "calm st st'"
proof -
  have "calm st st'" if "fold_res f ps st = Inr st'" "\<And>p t t'. f p t = Inr t' \<Longrightarrow> calm t t'"
    for f :: "nat \<times> IConnection \<Rightarrow> Scheduling \<Rightarrow> Scheduling result" and ps
    using that(1) by (rule fold_res_inv[where P = "calm st"]) (auto intro: calm_refl dest: that(2) calm_trans)
  with assms addNext_calm legacyNext_calm show ?thesis
    unfolding scheduleChildren_def by (metis (full_types) sum.distinct(1))
qed

lemma scheduleChildren_runData: "scheduleChildren w name outs runIndex st = Inr st' \<Longrightarrow> sc_runData st' = sc_runData st"
  by (drule scheduleChildren_calm) (simp add: calm_def)

lemma reviveWaiting_runData: "reviveWaiting types w st = Inr st' \<Longrightarrow> sc_runData st' = sc_runData st"
  by (drule reviveWaiting_calm) (simp add: calm_def)

lemma mset_sortNodesToAdd [simp]: "mset (sortNodesToAdd w xs) = mset xs"
  by (simp add: sortNodesToAdd_def)

lemma scheduleChildren_grows:
  assumes "scheduleChildren w name outs runIndex st = Inr st'" and "well_named w" and "\<not> isLegacyExecutionOrder w"
  shows "grows (mset (map (con_node \<circ> snd) (filter (delivers w outs) (outputConnections w name)))) st st'"
proof -
  have "fold_res (addNext w name outs runIndex) (sortNodesToAdd w (filter (delivers w outs) (outputConnections w name))) st = Inr st'"
    using assms(1,3) by (auto simp: scheduleChildren_def split: if_splits)
  from fold_addNext_grows[OF assms(2,3) this] show ?thesis by (simp only: mset_map mset_sortNodesToAdd)
qed

subsection \<open>Recording a run\<close>

text \<open>What an iteration does to the run data of its node: nothing but an empty list of runs, or one run.\<close>

definition runsOf :: "IRunData \<Rightarrow> string \<Rightarrow> ITaskData list" where
  "runsOf r n = (case jget r n of None \<Rightarrow> [] | Some runs \<Rightarrow> runs)"

fun records :: "string \<Rightarrow> nat \<Rightarrow> ITaskData option \<Rightarrow> IRunData \<Rightarrow> IRunData \<Rightarrow> bool" where
  "records n i None r r' \<longleftrightarrow> (\<forall>m. runsOf r' m = runsOf r m)"
| "records n i (Some td) r r' \<longleftrightarrow>
     (\<forall>m. runsOf r' m = (if m \<noteq> n then runsOf r m
        else if i < length (runsOf r n) then (runsOf r n)[i := assignTask (runsOf r n ! i) td] else runsOf r n @ [td]))"

lemma records_upsert: "records n i (Some td) r (upsertTaskData r n i td)"
  by (auto simp: upsertTaskData_def runsOf_def Let_def split: option.splits)

lemma records_ensure: "jget r n = None \<Longrightarrow> records n i otd (jset r n []) r' \<Longrightarrow> records n i otd r r'"
  by (cases otd) (auto simp: runsOf_def)

lemma runsOf_jset: "runsOf (jset r n runs) m = (if m = n then runs else runsOf r m)"
  by (simp add: runsOf_def)

fun stepState :: "'w StepEnd \<Rightarrow> 'w LoopState" where
  "stepState (Continue st) = st"
| "stepState (Stop st) = st"
| "stepState (Threw e st) = st"

lemma rewireOutputLog_index [simp]: "td_executionIndex (rewireOutputLog node r i outs td) = td_executionIndex td"
  by (simp add: rewireOutputLog_def split: option.splits)

lemma createTaskData_index [simp]: "td_executionIndex (createTaskData i source item t) = Some i"
  by (simp add: createTaskData_def)

text \<open>The state after a node's output, or its error, was dealt with.\<close>

lemma goOn_effect:
  assumes "goOn en sd node item runIndex taskData data st = res"
  shows "\<exists>otd. records (node_name node) runIndex otd (runDataOf st) (runDataOf (stepState res)) \<and>
      (\<forall>td. otd = Some td \<longrightarrow> td_executionIndex td = td_executionIndex taskData) \<and>
      ls_workflow (stepState res) = ls_workflow st \<and> ls_executionIndex (stepState res) = ls_executionIndex st"
    (is "\<exists>otd. ?P otd")
proof (cases "normalizeNodeErrors data")
  case (Inl e)
  with assms have "?P None" by (auto simp: goOn_def)
  then show ?thesis by (rule exI[of ?P None])
next
  case (Inr outs)
  let ?td = "rewireOutputLog node (runDataOf st) runIndex outs (taskData\<lparr>td_data := Some [(main_type, outs)]\<rparr>)"
  have "runDataOf (stepState res) = upsertTaskData (runDataOf st) (node_name node) runIndex ?td \<and>
      ls_workflow (stepState res) = ls_workflow st \<and> ls_executionIndex (stepState res) = ls_executionIndex st"
    using assms Inr
    by (auto simp: goOn_def Let_def split: if_splits sum.splits dest!: scheduleChildren_runData reviveWaiting_runData)
  with records_upsert[of "node_name node" runIndex ?td "runDataOf st"] have "?P (Some ?td)" by simp
  then show ?thesis by (rule exI[of ?P "Some ?td"])
qed

text \<open>The facts about an iteration that later proofs share: the workflow stays, the run data changes by the
  node's calls and then by at most one run of the node.\<close>

definition step_effect :: "(IRunData \<Rightarrow> IRunData \<Rightarrow> bool) \<Rightarrow> string \<Rightarrow> nat \<Rightarrow> nat \<Rightarrow> 'w LoopState \<Rightarrow> 'w LoopState \<Rightarrow> bool" where
  "step_effect R name runIndex executionIndex st st' \<longleftrightarrow>
     ls_workflow st' = ls_workflow st \<and> ls_executionIndex st' = ls_executionIndex st \<and>
     (\<exists>r otd. R (runDataOf st) r \<and> records name runIndex otd r (runDataOf st') \<and>
        (\<forall>td. otd = Some td \<longrightarrow> td_executionIndex td = Some executionIndex))"

lemma handleNodeExecutionError_effect:
  assumes "handleNodeExecutionError en node item taskData e data runIndex st = (goes, data', taskData', st')"
  shows "\<exists>otd. records (node_name node) runIndex otd (runDataOf st) (runDataOf st') \<and>
      (\<forall>td. otd = Some td \<longrightarrow> td_executionIndex td = td_executionIndex taskData)" (is "\<exists>otd. ?P otd")
    and "ls_workflow st' = ls_workflow st" and "ls_executionIndex st' = ls_executionIndex st"
    and "td_executionIndex taskData' = td_executionIndex taskData"
    and "goes \<Longrightarrow> ls_sched st' = ls_sched st"
proof -
  let ?td = "rewireOutputLog node (runDataOf st) runIndex (errorOutput e)
    (taskData\<lparr>td_error := Some (err_message e), td_executionStatus := Some ''error''\<rparr>)"
  show "\<exists>otd. ?P otd"
  proof (cases "continuesAfterError node")
    case True
    with assms have "?P None" by (auto simp: handleNodeExecutionError_def Let_def)
    then show ?thesis by (rule exI[of ?P None])
  next
    case False
    then have "runDataOf st' = upsertTaskData (runDataOf st) (node_name node) runIndex ?td"
      using assms by (auto simp: handleNodeExecutionError_def Let_def split: if_splits)
    with records_upsert[of "node_name node" runIndex ?td "runDataOf st"] have "?P (Some ?td)" by simp
    then show ?thesis by (rule exI[of ?P "Some ?td"])
  qed
  show "ls_workflow st' = ls_workflow st" and "ls_executionIndex st' = ls_executionIndex st"
    and "td_executionIndex taskData' = td_executionIndex taskData"
    using assms by (auto simp: handleNodeExecutionError_def Let_def split: if_splits)
  show "ls_sched st' = ls_sched st" if goes
    using assms that by (auto simp: handleNodeExecutionError_def Let_def split: if_splits)
qed

lemma records_None_trans:
  "records n i None r r' \<Longrightarrow> records n i otd r' r'' \<Longrightarrow> records n i otd r r''"
  by (cases otd) auto

lemma finishTries_effect:
  assumes "finishTries en sd node runIndex executionIndex source ee ts = res"
  shows "step_effect (=) (node_name node) runIndex executionIndex (ts_loop ts) (stepState res)"
proof -
  let ?st = "(ts_loop ts)\<lparr>ls_executionError := ee\<rparr>"
  let ?st1 = "if jget (runDataOf ?st) (node_name node) = None
    then setRunData (jset (runDataOf ?st) (node_name node) []) ?st else ?st"
  let ?td = "createTaskData executionIndex source (ts_item ts) (ls_waitTill ?st1)"
  have td: "td_executionIndex ?td = Some executionIndex" by simp
  have ensure: "records (node_name node) runIndex otd (runDataOf (ts_loop ts)) r"
    if "records (node_name node) runIndex otd (runDataOf ?st1) r" for otd r
    using that records_ensure[of "runDataOf (ts_loop ts)"] by (auto split: if_splits)
  have keep: "ls_workflow ?st1 = ls_workflow (ts_loop ts)" "ls_executionIndex ?st1 = ls_executionIndex (ts_loop ts)"
    by simp_all
  have goes_on: ?thesis if "goOn en sd node (ts_item ts) runIndex td data st2 = res"
    "runDataOf st2 = runDataOf ?st1" "ls_workflow st2 = ls_workflow ?st1"
    "ls_executionIndex st2 = ls_executionIndex ?st1" "td_executionIndex td = Some executionIndex" for td data st2
    using goOn_effect[OF that(1)] ensure that(2-5) keep unfolding step_effect_def by metis
  show ?thesis
  proof (cases ee)
    case None
    with assms have "goOn en sd node (ts_item ts) runIndex ?td (ts_data ts) ?st1 = res"
      by (simp only: finishTries_def Let_def option.case)
    then show ?thesis by (rule goes_on) simp_all
  next
    case (Some e)
    obtain goes data td' st2 where h: "handleNodeExecutionError en node (ts_item ts) ?td e (ts_data ts) runIndex ?st1 =
        (goes, data, td', st2)" by (metis prod_cases4)
    note he = handleNodeExecutionError_effect[OF h]
    show ?thesis
    proof (cases goes)
      case True
      with assms Some h have "goOn en sd node (ts_item ts) runIndex td' data st2 = res"
        by (simp only: finishTries_def Let_def option.case prod.case bool.case if_True)
      then show ?thesis by (rule goes_on) (use True he in simp_all)
    next
      case False
      with assms Some h have "res = Stop st2"
        by (simp only: finishTries_def Let_def option.case prod.case bool.case if_False)
      with he(1-3) ensure td keep show ?thesis unfolding step_effect_def by (metis stepState.simps(2))
    qed
  qed
qed

lemma runTries_effect:
  assumes "lawful R en" and "runTries en sd node item runIndex executionIndex st = res"
  shows "step_effect R (node_name node) runIndex executionIndex st (stepState res)"
proof -
  let ?ts = "\<lparr>ts_item = item, ts_data = None, ts_responses = makeEngineResponse, ts_loop = st\<rparr>"
  obtain fin ts where t: "tryLoop en node runIndex (fst (getRetryParams item node) - 1) ?ts = (fin, ts)" by fastforce
  have f: "frame R st (ts_loop ts)" using tryLoop_frame[OF assms(1) t] by (simp add: try_frame_def)
  note ff = frame_fields[OF f]
  have goes_on: ?thesis if "finishTries en sd node runIndex executionIndex (sourceOf item) ee ts = res" for ee
    using finishTries_effect[OF that] ff(1,5,10) unfolding step_effect_def by metis
  show ?thesis
  proof (cases "fin = Produced \<or> (\<exists>e. fin = Raised e)")
    case True
    with assms(2) t goes_on show ?thesis by (auto simp: runTries_def)
  next
    case False
    with assms(2) t have "res = Continue (ts_loop ts)" by (cases fin) (auto simp: runTries_def)
    moreover have "records (node_name node) runIndex None r r" for r by simp
    ultimately show ?thesis using ff(1,5,10) unfolding step_effect_def by (metis option.distinct(1) stepState.simps(1))
  qed
qed

text \<open>An iteration with a given first entry.\<close>

lemma step_effect_refl: "reflp R \<Longrightarrow> runDataOf st' = runDataOf st \<Longrightarrow> ls_workflow st' = ls_workflow st \<Longrightarrow>
    ls_executionIndex st' = ls_executionIndex st \<Longrightarrow> step_effect R name runIndex executionIndex st st'"
  unfolding step_effect_def by (metis option.distinct(1) records.simps(1) reflpD)

lemma runItem_effect:
  assumes "lawful R en" and "runItem en sd item st = res"
  shows "\<exists>name runIndex. step_effect R name runIndex (ls_executionIndex st) (st\<lparr>ls_executionIndex := Suc (ls_executionIndex st)\<rparr>)
      (stepState res) \<and>
    (runDataOf (stepState res) = runDataOf st \<or>
     (\<exists>node. si_node item = Some node \<and> name = node_name node \<and> runIndex = computeRunIndex item node (runDataOf st) \<and>
        \<not> isNodeFilteredOut sd name))"
proof -
  let ?item = "item\<lparr>si_data := addPairedItemLineage (si_metadata item) (si_data item)\<rparr>"
  let ?st = "st\<lparr>ls_executionIndex := Suc (ls_executionIndex st), ls_executionError := None\<rparr>"
  have R: "reflp R" using assms(1) by (simp add: lawful_def)
  show ?thesis
  proof (cases "\<exists>node st1. si_node item = Some node \<and> \<not> isNodeFilteredOut sd (node_name node) \<and>
      res = runTries en sd node ?item (computeRunIndex item node (runDataOf st)) (ls_executionIndex st) st1 \<and>
      (st1 = ?st \<or> st1 = emit (NodeExecuteBefore (node_name node)) ?st)")
    case True
    then obtain node st1 where n: "si_node item = Some node" "\<not> isNodeFilteredOut sd (node_name node)"
      "runTries en sd node ?item (computeRunIndex item node (runDataOf st)) (ls_executionIndex st) st1 = res"
      "st1 = ?st \<or> st1 = emit (NodeExecuteBefore (node_name node)) ?st" by blast
    have "step_effect R (node_name node) (computeRunIndex item node (runDataOf st)) (ls_executionIndex st) st1 (stepState res)"
      using runTries_effect[OF assms(1) n(3)] .
    then have "step_effect R (node_name node) (computeRunIndex item node (runDataOf st)) (ls_executionIndex st)
        (st\<lparr>ls_executionIndex := Suc (ls_executionIndex st)\<rparr>) (stepState res)"
      using n(4) by (auto simp: step_effect_def)
    with n show ?thesis by blast
  next
    case False
    have "runDataOf (stepState res) = runDataOf st \<and> ls_workflow (stepState res) = ls_workflow st \<and>
        ls_executionIndex (stepState res) = Suc (ls_executionIndex st)"
      using assms(2) False
      by (auto simp: runItem_def Let_def computeRunIndex_def ensureInputData_def split: option.splits if_splits prod.splits)
    then have "step_effect R name runIndex (ls_executionIndex st) (st\<lparr>ls_executionIndex := Suc (ls_executionIndex st)\<rparr>)
        (stepState res)" for name runIndex
      by (intro step_effect_refl[OF R]) simp_all
    with \<open>runDataOf (stepState res) = runDataOf st \<and> _\<close> show ?thesis by blast
  qed
qed

subsection \<open>What is left to do\<close>

text \<open>The connections between the main inputs and outputs of the nodes.\<close>

definition mainEdges :: "RunnableWorkflow \<Rightarrow> (string \<times> string) set" where
  "mainEdges w = {(n, m). \<exists>p \<in> set (outputConnections w n). con_node (snd p) = m}"

text \<open>Going on after a node keeps the entries without a run index of their own, and in the order \<open>v1\<close> adds work
  for successors of the node only.\<close>

definition proceeds :: "RunnableWorkflow \<Rightarrow> string \<Rightarrow> Scheduling \<Rightarrow> Scheduling \<Rightarrow> bool" where
  "proceeds w name sc sc' \<longleftrightarrow>
     (fresh_stack (sc_stack sc) \<longrightarrow> fresh_stack (sc_stack sc')) \<and>
     (well_named w \<and> \<not> isLegacyExecutionOrder w \<longrightarrow>
       (stack_ready (sc_stack sc) \<longrightarrow> stack_ready (sc_stack sc')) \<and>
       (\<exists>ms. (\<forall>m \<in># ms. (name, m) \<in> mainEdges w) \<and> pending sc' \<subseteq># ms + pending sc))"

lemma proceeds_same:
  assumes "sc_stack sc' = sc_stack sc" and "sc_waiting sc' = sc_waiting sc"
  shows "proceeds w name sc sc'"
proof -
  have "pending sc' \<subseteq># {#} + pending sc" using assms by (simp add: pending_def)
  with assms show ?thesis unfolding proceeds_def by (metis empty_iff set_mset_empty)
qed

lemma proceeds_scheduled:
  assumes "scheduleChildren w name outs runIndex sc = Inr sc1" and "reviveWaiting types w sc1 = Inr sc'"
  shows "proceeds w name sc sc'"
proof -
  let ?ms = "mset (map (con_node \<circ> snd) (filter (delivers w outs) (outputConnections w name)))"
  have "calm sc sc'" using scheduleChildren_calm[OF assms(1)] reviveWaiting_calm[OF assms(2)] by (rule calm_trans)
  moreover have "grows ?ms sc sc'" if "well_named w" "\<not> isLegacyExecutionOrder w"
    using grows_trans[OF scheduleChildren_grows[OF assms(1) that] reviveWaiting_grows[OF assms(2) that(1)]] by simp
  moreover have "\<forall>m \<in># ?ms. (name, m) \<in> mainEdges w" by (force simp: mainEdges_def)
  ultimately show ?thesis unfolding proceeds_def calm_def grows_def by blast
qed

lemma proceeds_cong:
  "proceeds w name sc sc' \<Longrightarrow> sc_stack sc = sc_stack sc0 \<Longrightarrow> sc_waiting sc = sc_waiting sc0 \<Longrightarrow> proceeds w name sc0 sc'"
  by (simp add: proceeds_def pending_def)

lemma goOn_proceeds:
  assumes "goOn en sd node item runIndex taskData data st = Continue st'"
  shows "proceeds (ls_workflow st) (node_name node) (ls_sched st) (ls_sched st')"
proof -
  obtain outs where o: "normalizeNodeErrors data = Inr outs" using assms by (auto simp: goOn_def split: sum.splits)
  define td where "td = rewireOutputLog node (runDataOf st) runIndex outs (taskData\<lparr>td_data := Some [(main_type, outs)]\<rparr>)"
  define st1 where "st1 = setRunData (upsertTaskData (runDataOf st) (node_name node) runIndex td) st"
  have same: "sc_stack (ls_sched st1) = sc_stack (ls_sched st)" "sc_waiting (ls_sched st1) = sc_waiting (ls_sched st)"
    "ls_workflow st1 = ls_workflow st" by (simp_all add: st1_def)
  have eq: "goOn en sd node item runIndex taskData data st =
      (if ls_waitTill st1 \<noteq> None then Stop (pushExecutionStack item (emit (NodeExecuteAfter (node_name node) td) st1))
       else if sd_destinationNode sd = Some (node_name node) then Continue (emit (NodeExecuteAfter (node_name node) td) st1)
       else (case scheduleChildren (ls_workflow st1) (node_name node) outs runIndex (ls_sched st1) of
           Inl e \<Rightarrow> Threw (error_of e) st1
         | Inr sc \<Rightarrow>
             (case reviveWaiting (en_nodeType en)
                (ls_workflow (emit (NodeExecuteAfter (node_name node) td) (st1\<lparr>ls_sched := sc\<rparr>))) sc of
                Inl e \<Rightarrow> Threw (error_of e) (emit (NodeExecuteAfter (node_name node) td) (st1\<lparr>ls_sched := sc\<rparr>))
              | Inr sc' \<Rightarrow> Continue ((emit (NodeExecuteAfter (node_name node) td) (st1\<lparr>ls_sched := sc\<rparr>))\<lparr>ls_sched := sc'\<rparr>))))"
    by (simp only: goOn_def o sum.case Let_def td_def st1_def)
  have "ls_sched st' = ls_sched st1 \<or> (\<exists>sc. scheduleChildren (ls_workflow st1) (node_name node) outs runIndex (ls_sched st1) = Inr sc \<and>
      reviveWaiting (en_nodeType en) (ls_workflow st1) sc = Inr (ls_sched st'))"
    using assms unfolding eq by (auto split: if_splits sum.splits)
  then show ?thesis
    using same proceeds_same proceeds_scheduled proceeds_cong by metis
qed

lemma finishTries_proceeds:
  assumes "finishTries en sd node runIndex executionIndex source ee ts = Continue st'"
  shows "proceeds (ls_workflow (ts_loop ts)) (node_name node) (ls_sched (ts_loop ts)) (ls_sched st')"
proof -
  define st1 where "st1 = (if jget (runDataOf ((ts_loop ts)\<lparr>ls_executionError := ee\<rparr>)) (node_name node) = None
    then setRunData (jset (runDataOf ((ts_loop ts)\<lparr>ls_executionError := ee\<rparr>)) (node_name node) [])
      ((ts_loop ts)\<lparr>ls_executionError := ee\<rparr>) else (ts_loop ts)\<lparr>ls_executionError := ee\<rparr>)"
  have same: "sc_stack (ls_sched st1) = sc_stack (ls_sched (ts_loop ts))"
    "sc_waiting (ls_sched st1) = sc_waiting (ls_sched (ts_loop ts))" "ls_workflow st1 = ls_workflow (ts_loop ts)"
    by (simp_all add: st1_def)
  have "\<exists>td data st2. goOn en sd node (ts_item ts) runIndex td data st2 = Continue st' \<and> ls_sched st2 = ls_sched st1 \<and>
      ls_workflow st2 = ls_workflow st1"
  proof (cases ee)
    case None
    with assms show ?thesis unfolding finishTries_def Let_def st1_def[symmetric] by auto
  next
    case (Some e)
    obtain goes data td' st2 where h: "handleNodeExecutionError en node (ts_item ts)
        (createTaskData executionIndex source (ts_item ts) (ls_waitTill st1)) e (ts_data ts) runIndex st1 =
        (goes, data, td', st2)" by (metis prod_cases4)
    with assms Some show ?thesis
      unfolding finishTries_def Let_def st1_def[symmetric]
      using handleNodeExecutionError_effect(2,5)[OF h] by (cases goes) auto
  qed
  then show ?thesis using goOn_proceeds proceeds_cong same by metis
qed

lemma runTries_proceeds:
  assumes "lawful R en" and "runTries en sd node item runIndex executionIndex st = Continue st'"
  shows "proceeds (ls_workflow st) (node_name node) (ls_sched st) (ls_sched st')"
proof -
  let ?ts = "\<lparr>ts_item = item, ts_data = None, ts_responses = makeEngineResponse, ts_loop = st\<rparr>"
  obtain fin ts where t: "tryLoop en node runIndex (fst (getRetryParams item node) - 1) ?ts = (fin, ts)" by fastforce
  have f: "frame R st (ts_loop ts)" using tryLoop_frame[OF assms(1) t] by (simp add: try_frame_def)
  note ff = frame_fields[OF f]
  have "st' = ts_loop ts \<or> (\<exists>ee. finishTries en sd node runIndex executionIndex (sourceOf item) ee ts = Continue st')"
    using assms(2) t by (cases fin) (auto simp: runTries_def)
  then show ?thesis
    using finishTries_proceeds proceeds_same proceeds_cong ff(1-3) by metis
qed

lemma mainData_lineage: "mainData (addPairedItemLineage m data) = None \<longleftrightarrow> mainData data = None"
proof -
  have "fst ` set (addPairedItemLineage m data) = fst ` set data"
    by (force simp: addPairedItemLineage_def image_iff)
  then show ?thesis by (simp add: map_of_eq_None_iff)
qed

lemma inputDataReady_v1:
  assumes "\<not> isLegacyExecutionOrder w" and "mainData data \<noteq> None"
  shows "inputDataReady w name data i n"
  using assms by (induction n arbitrary: i) (auto split: option.splits)

text \<open>An iteration that goes on drops the entry, puts it back, or goes on after its node.\<close>

lemma runItem_continues:
  assumes "lawful R en" and "runItem en sd item st = Continue st'"
  obtains node where "si_node item = Some node"
    and "proceeds (ls_workflow st) (node_name node) (ls_sched st) (ls_sched st') \<or>
      (\<exists>d. \<not> inputDataReady (ls_workflow st) (node_name node) d 0 (numberOfInputs (ls_workflow st) (node_name node)) \<and>
        d = addPairedItemLineage (si_metadata item) (si_data item) \<and>
        ls_sched st' = (ls_sched st)\<lparr>sc_stack := sc_stack (ls_sched st) @ [item\<lparr>si_data := d\<rparr>]\<rparr>)"
proof -
  obtain node where node: "si_node item = Some node"
    using assms(2) by (auto simp: runItem_def Let_def split: option.splits)
  define item1 where "item1 = item\<lparr>si_data := addPairedItemLineage (si_metadata item) (si_data item)\<rparr>"
  define st1 where "st1 = st\<lparr>ls_executionIndex := Suc (ls_executionIndex st), ls_executionError := None\<rparr>"
  define i where "i = computeRunIndex item1 node (runDataOf st1)"
  have same: "ls_sched st1 = ls_sched st" "ls_workflow st1 = ls_workflow st" by (simp_all add: st1_def)
  have node1: "si_node item1 = Some node" using node by (simp add: item1_def)
  from assms(2) have r: "(if ls_lastTry st1 = Some (node_name node, i)
      then Threw (error_of (UserError ''Stopped execution because it seems to be in an endless loop'')) st1
      else if isNodeFilteredOut sd (node_name node) then Continue st1
      else (case ensureInputData (ls_workflow st1) node item1 (ls_sched st1) of
          (False, sc) \<Rightarrow> Continue (st1\<lparr>ls_sched := sc, ls_lastTry := Some (node_name node, i)\<rparr>)
        | (True, _) \<Rightarrow> runTries en sd node item1 i (ls_executionIndex st)
            (if (case si_metadata item1 of None \<Rightarrow> False | Some m \<Rightarrow> tm_nodeWasResumed m) then st1
             else emit (NodeExecuteBefore (node_name node)) st1))) = Continue st'"
    by (simp only: runItem_def Let_def item1_def[symmetric] st1_def[symmetric] node1 option.case i_def[symmetric])
  show thesis
  proof (cases "isNodeFilteredOut sd (node_name node)")
    case True
    with r have "ls_sched st' = ls_sched st" using same by (auto split: if_splits)
    then show thesis using that[OF node] proceeds_same by metis
  next
    case False
    show thesis
    proof (cases "inputDataReady (ls_workflow st1) (node_name node) (si_data item1) 0 (numberOfInputs (ls_workflow st1) (node_name node))")
      case True
      with r False obtain st2 where s: "runTries en sd node item1 i (ls_executionIndex st) st2 = Continue st'"
        "ls_sched st2 = ls_sched st1" "ls_workflow st2 = ls_workflow st1"
        by (fastforce simp: ensureInputData_def split: if_splits)
      from runTries_proceeds[OF assms(1) s(1)] s(2,3) same show thesis using that[OF node] by metis
    next
      case False
      with r \<open>\<not> isNodeFilteredOut sd (node_name node)\<close>
      have "ls_sched st' = (ls_sched st1)\<lparr>sc_stack := sc_stack (ls_sched st1) @ [item1]\<rparr>"
        by (auto simp: ensureInputData_def split: if_splits)
      with False same show thesis
        by (intro that[OF node] disjI2 exI[of _ "addPairedItemLineage (si_metadata item) (si_data item)"])
          (simp add: item1_def)
    qed
  qed
qed

section \<open>The loop\<close>

text \<open>An iteration stops at once, or runs the first entry.\<close>

lemma loopStep_cases:
  assumes "sc_stack (ls_sched st) = item # rest"
  obtains status timedOut where "loopStep en sd st = Stop (st\<lparr>ls_status := status, ls_timedOut := timedOut\<rparr>) \<or>
    loopStep en sd st = runItem en sd item
      (st\<lparr>ls_status := status, ls_timedOut := timedOut, ls_sched := (ls_sched st)\<lparr>sc_stack := rest\<rparr>\<rparr>)"
proof -
  obtain b st1 where s: "shouldStopExecuting en st = (b, st1)" by fastforce
  then have e: "st1 = st\<lparr>ls_status := ls_status st1, ls_timedOut := ls_timedOut st1\<rparr>"
    by (auto simp: shouldStopExecuting_def Let_def split: if_splits)
  define status where "status = ls_status st1"
  define timedOut where "timedOut = ls_timedOut st1"
  have "st1 = st\<lparr>ls_status := status, ls_timedOut := timedOut\<rparr>" using e unfolding status_def timedOut_def .
  with s assms that[where status = status and timedOut = timedOut] show thesis by (cases b) (simp_all add: loopStep_def)
qed

lemma runLoop_inv:
  assumes "runLoop en sd st = Some r" and "P st"
    and "\<And>t. P t \<Longrightarrow> sc_stack (ls_sched t) \<noteq> [] \<Longrightarrow> P (stepState (loopStep en sd t))"
  shows "P (stepState r)"
proof -
  have "P st \<longrightarrow> (\<forall>t. P t \<longrightarrow> sc_stack (ls_sched t) \<noteq> [] \<longrightarrow> P (stepState (loopStep en sd t))) \<longrightarrow> P (stepState r)"
  proof (rule runLoop.raw_induct[where P = "\<lambda>en sd st r. P st \<longrightarrow>
      (\<forall>t. P t \<longrightarrow> sc_stack (ls_sched t) \<noteq> [] \<longrightarrow> P (stepState (loopStep en sd t))) \<longrightarrow> P (stepState r)", OF _ assms(1)], intro impI)
    fix f :: "'a Engine \<Rightarrow> StartData \<Rightarrow> 'a LoopState \<Rightarrow> 'a StepEnd option" and en sd st r
    assume IH: "\<And>en sd st r. f en sd st = Some r \<Longrightarrow> P st \<longrightarrow>
        (\<forall>t. P t \<longrightarrow> sc_stack (ls_sched t) \<noteq> [] \<longrightarrow> P (stepState (loopStep en sd t))) \<longrightarrow> P (stepState r)"
      and eq: "(if sc_stack (ls_sched st) = [] then Some (Stop st)
        else case loopStep en sd st of Continue st' \<Rightarrow> f en sd st' | r \<Rightarrow> Some r) = Some r"
      and P: "P st" and step: "\<forall>t. P t \<longrightarrow> sc_stack (ls_sched t) \<noteq> [] \<longrightarrow> P (stepState (loopStep en sd t))"
    show "P (stepState r)"
    proof (cases "sc_stack (ls_sched st) = []")
      case True
      with eq P show ?thesis by auto
    next
      case False
      with P step have "P (stepState (loopStep en sd st))" by blast
      with eq False step IH show ?thesis by (cases "loopStep en sd st") auto
    qed
  qed
  with assms(2,3) show ?thesis by blast
qed

end
