(* ===== verification/Execution_Examples.thy ===== *)
theory Execution_Examples
  imports Execution_Loop_Laws
begin

text \<open>
  Small executions: workflows given by their edges, node types with one output of items and nodes whose code is a
  function of the call and of the number of calls made before it. The loop is evaluated on them for the witnesses
  of the theorems and to show what the code does in some corner cases.
\<close>

section \<open>Workflows\<close>

definition ex_node :: "string \<Rightarrow> INode" where
  "ex_node n = \<lparr>node_ref = length n, node_id = n, node_name = n, node_typeVersion = ''1'', node_type = ''code'',
     node_disabled = None, node_parameters = [], node_rewireOutputLogTo = None, node_position = (0, 0),
     node_settings = no_settings\<rparr>"

text \<open>An edge is a source, an output, a target and an input.\<close>

type_synonym edge = "string \<times> nat \<times> string \<times> nat"

definition addEdge :: "string \<Rightarrow> nat \<Rightarrow> IConnection \<Rightarrow> IConnections \<Rightarrow> IConnections" where
  "addEdge n i c conns =
     (let rows = (case Option.bind (jget conns n) (\<lambda>types. jget types main_type) of None \<Rightarrow> [] | Some rows \<Rightarrow> rows)
      in jset conns n [(main_type, slot_set rows i (Value (slot_or (slot_get rows i) [] @ [c])))])"

definition ex_workflow :: "INode list \<Rightarrow> edge list \<Rightarrow> RunnableWorkflow" where
  "ex_workflow nodes es =
     \<lparr>wf_nodes = map (\<lambda>n. (node_name n, n)) nodes,
      connectionsBySourceNode = fold (\<lambda>(n, i, m, j). addEdge n i (input_of m j)) es [],
      connectionsByDestinationNode = fold (\<lambda>(n, i, m, j). addEdge m j (input_of n i)) es [],
      wf_pinData = None, wf_executionOrder = Some ''v1''\<rparr>"

section \<open>Engines\<close>

definition ex_type :: "nat \<Rightarrow> RunnableType" where
  "ex_type outputs = \<lparr>rt_execute = True, rt_customOperation = False, rt_poll = False, rt_trigger = False,
     rt_supplyData = False, rt_webhook = False, rt_requestDefaults = False, rt_inputs = InputList 2,
     rt_requiredInputs = None, rt_mainOutputs = outputs\<rparr>"

text \<open>The code of the nodes: the reply and \<^verbatim>\<open>waitTill\<close>, given the call and the number of calls before it.\<close>

definition ex_engine :: "nat \<Rightarrow> (NodeCall \<Rightarrow> nat \<Rightarrow> NodeReply \<times> nat option) \<Rightarrow> nat Engine" where
  "ex_engine outputs code =
     \<lparr>en_nodeType = (\<lambda>_. Some (ex_type outputs)),
      en_call = (\<lambda>call k. case code call k of
        (reply, t) \<Rightarrow> (reply, \<lparr>ce_waitTill = t, ce_runData = nc_runData call\<rparr>, Suc k)),
      en_pairedItem = (\<lambda>_ _. Inr None), en_timedOut = (\<lambda>_. False), en_canceled = (\<lambda>_. False), en_manual = True\<rparr>"

text \<open>A node that returns the items of its input as they are.\<close>

definition pass_on :: "NodeCall \<Rightarrow> NodeReply" where
  "pass_on call = Output (Some [Value (nc_connectionInputData call)]) (SharedArrays [(0, 0)])"

definition pass_engine :: "nat Engine" where
  "pass_engine = ex_engine 1 (\<lambda>call _. (pass_on call, None))"

definition all_nodes :: StartData where
  "all_nodes = \<lparr>sd_destinationNode = None, sd_runNodeFilter = None\<rparr>"

definition ex_error :: "string \<Rightarrow> ExecutionError" where
  "ex_error m = \<lparr>err_name = ''NodeOperationError'', err_message = m\<rparr>"

definition ex_start :: "RunnableWorkflow \<Rightarrow> INode \<Rightarrow> nat LoopState" where
  "ex_start w n = initialState w n None [] 0"

text \<open>The nodes with the number of their runs.\<close>

definition runCounts :: "'w LoopState \<Rightarrow> (string \<times> nat) list" where
  "runCounts st = map (\<lambda>(n, runs). (n, length runs)) (runDataOf st)"

definition chain :: RunnableWorkflow where
  "chain = ex_workflow [ex_node ''a'', ex_node ''b''] [(''a'', 0, ''b'', 0)]"

lemma chain_runs:
  "map_sum id (map_option (\<lambda>r. (run_status r, runCounts (run_state r))))
     (processRunExecutionData pass_engine all_nodes (ex_start chain (ex_node ''a''))) =
   Inr (Some (''success'', [(''a'', 1), (''b'', 1)]))"
  by code_simp

lemma example_engine_keeps: "\<forall>call k r. fst (code call k) \<noteq> Request r \<Longrightarrow>
    quiet (ex_engine outputs code) \<and> calls_within (=) (ex_engine outputs code)"
  by (auto simp: quiet_def calls_within_def ex_engine_def split: prod.splits) (metis fst_conv)+

lemma pass_engine_keeps: "quiet pass_engine" "calls_within (=) pass_engine"
  using example_engine_keeps[of "\<lambda>call _. (pass_on call, None)" 1] by (auto simp: pass_engine_def pass_on_def)

text \<open>A node with two successors, of which the second joins its data with that of the first.\<close>

definition diamond :: RunnableWorkflow where
  "diamond = ex_workflow [ex_node ''a'', ex_node ''b'', ex_node ''m'']
     [(''a'', 0, ''b'', 0), (''a'', 0, ''m'', 0), (''b'', 0, ''m'', 1)]"

lemma diamond_runs:
  "map_sum id (map_option (\<lambda>r. (run_status r, runCounts (run_state r))))
     (processRunExecutionData pass_engine all_nodes (ex_start diamond (ex_node ''a''))) =
   Inr (Some (''success'', [(''a'', 1), (''b'', 1), (''m'', 1)]))"
  by code_simp

lemma diamond_returns: "\<exists>r. runLoop pass_engine all_nodes (ex_start diamond (ex_node ''a'')) = Some r"
proof -
  have "\<not> Option.is_none (runLoop pass_engine all_nodes (ex_start diamond (ex_node ''a'')))" by code_simp
  then show ?thesis by (auto simp: Option.is_none_def)
qed

definition only_a_b :: StartData where
  "only_a_b = \<lparr>sd_destinationNode = None, sd_runNodeFilter = Some [''a'', ''b'']\<rparr>"

lemma filtered_returns: "\<exists>r. runLoop pass_engine only_a_b (ex_start diamond (ex_node ''a'')) = Some r"
proof -
  have "\<not> Option.is_none (runLoop pass_engine only_a_b (ex_start diamond (ex_node ''a'')))" by code_simp
  then show ?thesis by (auto simp: Option.is_none_def)
qed

text \<open>A node whose code fails, and one that asks to wait.\<close>

definition failing_engine :: "nat Engine" where
  "failing_engine = ex_engine 1 (\<lambda>call _. (Throws (ex_error ''no''), None))"

definition waiting_engine :: "nat Engine" where
  "waiting_engine = ex_engine 1 (\<lambda>call _. (pass_on call, Some 60))"

lemma failing_engine_keeps: "quiet failing_engine" "calls_within (=) failing_engine"
  using example_engine_keeps[of "\<lambda>call _. (Throws (ex_error ''no''), None)" 1] by (auto simp: failing_engine_def)

lemma waiting_engine_keeps: "quiet waiting_engine" "calls_within (=) waiting_engine"
  using example_engine_keeps[of "\<lambda>call _. (pass_on call, Some 60)" 1] by (auto simp: waiting_engine_def pass_on_def)

fun stopState :: "'w StepEnd \<Rightarrow> 'w LoopState option" where
  "stopState (Stop st) = Some st"
| "stopState _ = None"

lemma failing_stops: "\<exists>st' e. loopStep failing_engine all_nodes (ex_start chain (ex_node ''a'')) = Stop st' \<and>
    ls_executionError st' = Some e"
proof -
  have "map_option ls_executionError (stopState (loopStep failing_engine all_nodes (ex_start chain (ex_node ''a'')))) =
      Some (Some (ex_error ''no''))" by code_simp
  then show ?thesis by (cases "loopStep failing_engine all_nodes (ex_start chain (ex_node ''a''))") auto
qed

lemma waiting_stops: "\<exists>st' t. loopStep waiting_engine all_nodes (ex_start chain (ex_node ''a'')) = Stop st' \<and>
    ls_waitTill st' = Some t"
proof -
  have "map_option ls_waitTill (stopState (loopStep waiting_engine all_nodes (ex_start chain (ex_node ''a'')))) =
      Some (Some 60)" by code_simp
  then show ?thesis by (cases "loopStep waiting_engine all_nodes (ex_start chain (ex_node ''a''))") auto
qed

lemma ex_start_stack: "sc_stack (ls_sched (ex_start w n)) = [\<lparr>si_node = Some n, si_data = [(main_type, [Value [empty_item]])],
    si_source = None, si_runIndex = None, si_metadata = None\<rparr>]"
  by (simp add: ex_start_def initialState_def)

end
