(* ===== verification/Execution_Termination.thy ===== *)
theory Execution_Termination
  imports Execution_Examples
begin

text \<open>
  The loop ends: without requests for other nodes, in the order \<open>v1\<close> and on a workflow whose main connections
  have no cycle, the multiset of pending work decreases with every iteration in the multiset extension of the
  connections. Two entries without data show what can go on for ever.
\<close>

section \<open>Decreasing work\<close>

lemma finite_mainEdges: "finite (mainEdges w)"
proof -
  have "mainEdges w \<subseteq> (\<Union>n \<in> fst ` set (connectionsBySourceNode w). {n} \<times> (con_node \<circ> snd) ` set (outputConnections w n))"
  proof
    fix e assume "e \<in> mainEdges w"
    then obtain n p where e: "e = (n, con_node (snd p))" "p \<in> set (outputConnections w n)" by (auto simp: mainEdges_def)
    then have "n \<in> fst ` set (connectionsBySourceNode w)"
      by (auto simp: outputConnections_def map_of_eq_None_iff split: option.splits bind_splits
          dest!: map_of_SomeD intro: rev_image_eqI)
    with e show "e \<in> (\<Union>n \<in> fst ` set (connectionsBySourceNode w). {n} \<times> (con_node \<circ> snd) ` set (outputConnections w n))"
      by auto
  qed
  then show ?thesis by (rule finite_subset) auto
qed

definition later :: "RunnableWorkflow \<Rightarrow> (string \<times> string) set" where
  "later w = ((mainEdges w)\<inverse>)\<^sup>+"

lemma wf_later: "acyclic (mainEdges w) \<Longrightarrow> wf (later w)"
  unfolding later_def by (intro wf_trancl finite_acyclic_wf_converse finite_mainEdges)

lemma mult_less:
  assumes "trans r" and "\<forall>m \<in># ms. (m, n) \<in> r" and "N \<subseteq># ms + M"
  shows "(N, add_mset n M) \<in> mult r"
proof -
  have step: "(ms + M, add_mset n M) \<in> mult r"
    using one_step_implies_mult[of "{#n#}" ms r M] assms(2) by (simp add: union_commute)
  show ?thesis
  proof (cases "N = ms + M")
    case False
    with assms(3) have "(N, ms + M) \<in> mult r" by (intro subset_implies_mult) (simp add: subset_mset.less_le)
    with step trans_mult[OF assms(1)] show ?thesis by (meson transD)
  qed (use step in simp)
qed

definition orderly :: "RunnableWorkflow \<Rightarrow> bool" where
  "orderly w \<longleftrightarrow> \<not> isLegacyExecutionOrder w \<and> well_named w \<and> acyclic (mainEdges w)"

lemma iteration_decreases:
  assumes "quiet en" and w: "orderly (ls_workflow st)" and "stack_ready (sc_stack (ls_sched st))"
    and "sc_stack (ls_sched st) \<noteq> []" and "loopStep en sd st = Continue st'"
  shows "(pending (ls_sched st'), pending (ls_sched st)) \<in> mult (later (ls_workflow st))"
    and "ls_workflow st' = ls_workflow st" and "stack_ready (sc_stack (ls_sched st'))"
proof -
  have law: "lawful (\<lambda>_ _. True) en" using assms(1) by (simp add: lawful_def calls_within_def reflp_def transp_def)
  obtain item rest where s: "sc_stack (ls_sched st) = item # rest" using assms(4) by (cases "sc_stack (ls_sched st)") auto
  obtain status timedOut where c: "loopStep en sd st = Stop (st\<lparr>ls_status := status, ls_timedOut := timedOut\<rparr>) \<or>
      loopStep en sd st = runItem en sd item
        (st\<lparr>ls_status := status, ls_timedOut := timedOut, ls_sched := (ls_sched st)\<lparr>sc_stack := rest\<rparr>\<rparr>)"
    by (rule loopStep_cases[OF s])
  let ?st = "st\<lparr>ls_status := status, ls_timedOut := timedOut, ls_sched := (ls_sched st)\<lparr>sc_stack := rest\<rparr>\<rparr>"
  have wst: "ls_workflow ?st = ls_workflow st" by simp
  have r: "runItem en sd item ?st = Continue st'" using c assms(5) by auto
  obtain node where node: "si_node item = Some node"
    and p: "proceeds (ls_workflow ?st) (node_name node) (ls_sched ?st) (ls_sched st') \<or>
      (\<exists>d. \<not> inputDataReady (ls_workflow ?st) (node_name node) d 0 (numberOfInputs (ls_workflow ?st) (node_name node)) \<and>
        d = addPairedItemLineage (si_metadata item) (si_data item) \<and>
        ls_sched st' = (ls_sched ?st)\<lparr>sc_stack := sc_stack (ls_sched ?st) @ [item\<lparr>si_data := d\<rparr>]\<rparr>)"
    by (rule runItem_continues[OF law r])
  have ready: "mainData (si_data item) \<noteq> None" "stack_ready rest" using assms(3) s by auto
  then have "inputDataReady (ls_workflow ?st) (node_name node) (addPairedItemLineage (si_metadata item) (si_data item)) 0 k" for k
    using w wst by (intro inputDataReady_v1) (auto simp: orderly_def mainData_lineage)
  with p have p: "proceeds (ls_workflow st) (node_name node) (ls_sched ?st) (ls_sched st')" using wst by metis
  with w have "\<exists>ms. (\<forall>m \<in># ms. (node_name node, m) \<in> mainEdges (ls_workflow st)) \<and>
      pending (ls_sched st') \<subseteq># ms + pending (ls_sched ?st)" and "stack_ready (sc_stack (ls_sched st'))"
    using ready(2) by (auto simp: proceeds_def orderly_def)
  then obtain ms where ms: "\<forall>m \<in># ms. (node_name node, m) \<in> mainEdges (ls_workflow st)"
    "pending (ls_sched st') \<subseteq># ms + pending (ls_sched ?st)" by blast
  have "pending (ls_sched st) = add_mset (node_name node) (pending (ls_sched ?st))"
    using s node by (simp add: pending_def)
  moreover have "\<forall>m \<in># ms. (m, node_name node) \<in> later (ls_workflow st)" using ms(1) by (auto simp: later_def)
  ultimately show "(pending (ls_sched st'), pending (ls_sched st)) \<in> mult (later (ls_workflow st))"
    using mult_less[of "later (ls_workflow st)" ms] ms(2) by (simp add: later_def)
  show "stack_ready (sc_stack (ls_sched st'))" by fact
  have "ls_workflow (stepState (Continue st')) = ls_workflow ?st"
    using runItem_effect[OF law r] by (auto simp: step_effect_def)
  then show "ls_workflow st' = ls_workflow st" using wst by simp
qed

lemma runLoop_returns:
  assumes "quiet en" and "orderly w"
    and "ls_workflow st = w" and "stack_ready (sc_stack (ls_sched st))"
  shows "\<exists>r. runLoop en sd st = Some r"
proof -
  have wf: "wf (mult (later w))" using assms(2) by (intro wf_mult wf_later) (simp add: orderly_def)
  show ?thesis using assms(3,4)
  proof (induction "pending (ls_sched st)" arbitrary: st rule: wf_induct_rule[OF wf])
  case less: (1 st)
  show ?case
  proof (cases "sc_stack (ls_sched st) = []")
    case True
    then show ?thesis by (simp add: runLoop.simps)
  next
    case False
    show ?thesis
    proof (cases "\<exists>st'. loopStep en sd st = Continue st'")
      case True
      then obtain st' where st': "loopStep en sd st = Continue st'" ..
      from iteration_decreases[OF assms(1) _ less(3) False st'] less(2) assms(2)
      have "\<exists>r. runLoop en sd st' = Some r" by (intro less(1)) auto
      with False st' show ?thesis by (simp add: runLoop.simps[of _ _ st])
    next
      case nc: False
      then show ?thesis using False by (cases "loopStep en sd st") (auto simp: runLoop.simps[of _ _ st])
    qed
  qed
  qed
qed

lemma handleWaitingState_keeps:
  assumes "handleWaitingState st = Inr st'"
  shows "ls_workflow st' = ls_workflow st" and "stack_ready (sc_stack (ls_sched st')) = stack_ready (sc_stack (ls_sched st))"
proof -
  have "stack_ready stack' = stack_ready stack" if "disableFirst stack = Inr stack'" for stack stack'
    using that by (auto simp: disableFirst_def stack_ready_def list.pred_map comp_def split: list.splits if_splits
        intro!: list.pred_cong elim!: list.pred_mono_strong)
  then show "ls_workflow st' = ls_workflow st" and "stack_ready (sc_stack (ls_sched st')) = stack_ready (sc_stack (ls_sched st))"
    using assms by (auto simp: handleWaitingState_def split: if_splits)
qed

text \<open>C1: An execution always ends. When the workflow runs in the order \<open>v1\<close>, its node map is keyed by the names of
  the nodes, its main connections form no cycle, the entries on the stack have main data and no node asks the
  engine to run others, \<^verbatim>\<open>processRunExecutionData\<close> returns whatever the nodes answer, however often they are
  retried and whatever waits for further inputs.\<close>

theorem execution_returns:
  assumes "orderly (ls_workflow st)" and "stack_ready (sc_stack (ls_sched st))" and "quiet en"
  shows "processRunExecutionData en sd st \<noteq> Inr None \<and>
    (ls_waitTill st = None \<longrightarrow> (\<exists>r. processRunExecutionData en sd st = Inr (Some r)))"
proof -
  have loop: "\<exists>r. runLoop en sd st' = Some r" if "handleWaitingState (st\<lparr>ls_status := ''running''\<rparr>) = Inr st'" for st'
    using runLoop_returns[OF assms(3,1), of st'] handleWaitingState_keeps[OF that] assms(2) by simp
  then have "processRunExecutionData en sd st \<noteq> Inr None"
    by (auto simp: processRunExecutionData_def map_sum_def split: sum.splits)
  moreover have "\<exists>r. processRunExecutionData en sd st = Inr (Some r)" if "ls_waitTill st = None"
    using loop that by (fastforce simp: processRunExecutionData_def handleWaitingState_def)
  ultimately show ?thesis by blast
qed

text \<open>The diamond is in order: the length of the longest path to a node rises along every connection.\<close>

lemma diamond_sources:
  "connectionsBySourceNode diamond =
     [(''a'', [(main_type, [Value [input_of ''b'' 0, input_of ''m'' 0]])]), (''b'', [(main_type, [Value [input_of ''m'' 1]])])]"
  by code_simp

lemma diamond_orderly: "orderly diamond"
proof -
  let ?rank = "\<lambda>n. if n = ''a'' then 2 else if n = ''b'' then 1 else 0 :: nat"
  have "mainEdges diamond \<subseteq> {(''a'', ''b''), (''a'', ''m''), (''b'', ''m'')}"
    by (auto simp: mainEdges_def outputConnections_def diamond_sources input_of_def enumerate_eq_zip split: if_splits)
  then have "mainEdges diamond \<subseteq> (measure ?rank)\<inverse>" by (rule subset_trans) simp
  moreover have "acyclic ((measure ?rank)\<inverse>)" by (simp add: wf_acyclic)
  ultimately have "acyclic (mainEdges diamond)" by (rule acyclic_subset[rotated])
  moreover have "well_named diamond"
    by (auto simp: well_named_def diamond_def ex_workflow_def ex_node_def split: if_splits)
  moreover have "\<not> isLegacyExecutionOrder diamond"
    by (simp add: isLegacyExecutionOrder_def diamond_def ex_workflow_def)
  ultimately show ?thesis by (simp add: orderly_def)
qed

theorem execution_returns_witness:
  "\<exists>r. processRunExecutionData pass_engine all_nodes (ex_start diamond (ex_node ''a'')) = Inr (Some r)"
  using execution_returns[of "ex_start diamond (ex_node ''a'')" pass_engine all_nodes] diamond_orderly pass_engine_keeps(1)
  by (simp add: ex_start_def initialState_def)

end
