(* ===== verification/Execution_Retries.thy ===== *)
theory Execution_Retries
  imports Execution_Examples
begin

text \<open>
  How often an iteration calls the code of its node. The calls are counted in the outside world of the engine.
\<close>

definition counted :: "'w Engine \<Rightarrow> ('w \<times> nat) Engine" where
  "counted en = \<lparr>en_nodeType = en_nodeType en,
     en_call = (\<lambda>call (w, k). case en_call en call w of (reply, fx, w') \<Rightarrow> (reply, fx, (w', Suc k))),
     en_pairedItem = en_pairedItem en, en_timedOut = en_timedOut en \<circ> fst, en_canceled = en_canceled en \<circ> fst,
     en_manual = en_manual en\<rparr>"

abbreviation callsOf :: "('w \<times> nat) LoopState \<Rightarrow> nat" where
  "callsOf st \<equiv> snd (ls_world st)"

lemma callNode_counted: "callsOf (snd (callNode (counted en) call st)) = Suc (callsOf st)"
  by (simp add: callNode_def counted_def split: prod.splits)

lemma runNode_counted:
  assumes "runNode (counted en) item node runIndex responses st = (reply, st')"
  shows "callsOf st' \<le> Suc (callsOf st)"
  using runNode_cases[of st "counted en" item node runIndex responses] assms callNode_counted[of en _ st]
  by (metis le_SucI order_refl prod.inject)

lemma softRetries_counted:
  assumes "softRetries (counted en) item node runIndex left reply st = (reply', left', st')"
  shows "callsOf st' + left' \<le> callsOf st + left + (if left' = 0 then 0 else 1)"
  using assms
proof (induction left arbitrary: reply st)
  case (Suc left)
  show ?case
  proof (cases "replyFailed reply")
    case True
    obtain reply1 st1 where r: "runNode (counted en) item node runIndex None st = (reply1, st1)" by fastforce
    have c: "callsOf st1 \<le> Suc (callsOf st)" using runNode_counted[OF r] .
    show ?thesis
    proof (cases "\<exists>e. reply1 = Throws e")
      case True
      with Suc.prems \<open>replyFailed reply\<close> r c show ?thesis by auto
    next
      case False
      with Suc.prems \<open>replyFailed reply\<close> r
      have "softRetries (counted en) item node runIndex left reply1 st1 = (reply', left', st')" by (cases reply1) auto
      with Suc.IH[of reply1 st1] c show ?thesis by auto
    qed
  qed (use Suc.prems in auto)
qed auto

lemma completeTry_world: "completeTry pinned shared node ts = (fin, ts') \<Longrightarrow> ls_world (ts_loop ts') = ls_world (ts_loop ts)"
  by (auto simp: completeTry_def Let_def split: prod.splits option.splits sum.splits sharing.splits if_splits)

lemma handleReply_world: "handleReply en node runIndex reply ts = (fin, ts') \<Longrightarrow> ls_world (ts_loop ts') = ls_world (ts_loop ts)"
  by (auto simp: handleReply_def split: NodeReply.splits prod.splits option.splits sum.splits dest!: completeTry_world)

lemma attempt_counted:
  assumes "attempt (counted en) node runIndex left ts = (fin, left', ts')"
  shows "callsOf (ts_loop ts') + left' \<le> callsOf (ts_loop ts) + left + 1 + (if left' = 0 then 0 else 1)"
proof (cases "getPinnedOutput (ls_pinData (ts_loop ts)) node")
  case None
  let ?responses = "collectSubNodeResults (ts_item ts) (runDataOf (ts_loop ts)) (ts_responses ts)"
  obtain reply st where r: "runNode (counted en) (ts_item ts) node runIndex (Some ?responses) (ts_loop ts) = (reply, st)"
    by fastforce
  obtain reply' left'' st' where s: "softRetries (counted en) (ts_item ts) node runIndex left reply st = (reply', left'', st')"
    by (rule prod_cases3)
  from assms None r s
  have "handleReply (counted en) node runIndex reply' (ts\<lparr>ts_responses := ?responses, ts_loop := st'\<rparr>) = (fin, ts')"
    and "left' = left''"
    by (auto simp: attempt_def Let_def split: prod.splits)
  with handleReply_world[of "counted en" node runIndex reply'] softRetries_counted[OF s] runNode_counted[OF r]
  show ?thesis by fastforce
next
  case (Some outs)
  with assms have "completeTry True (SharedArrays []) node (ts\<lparr>ts_data := Some outs\<rparr>) = (fin, ts')" "left' = left"
    by (auto simp: attempt_def split: prod.splits)
  with completeTry_world show ?thesis by fastforce
qed

lemma tryLoop_counted:
  assumes "tryLoop (counted en) node runIndex left ts = (fin, ts')"
  shows "callsOf (ts_loop ts') \<le> callsOf (ts_loop ts) + 2 * left + 1"
  using assms
proof (induction left arbitrary: ts rule: less_induct)
  case (less left)
  obtain fin1 left1 ts1 where a: "attempt (counted en) node runIndex left ts = (fin1, left1, ts1)" by (rule prod_cases3)
  have c: "callsOf (ts_loop ts1) + left1 \<le> callsOf (ts_loop ts) + left + 1 + (if left1 = 0 then 0 else 1)" "left1 \<le> left"
    using attempt_counted[OF a] attempt_left[OF a] by auto
  show ?case
  proof (cases "(\<exists>e. fin1 = Raised e) \<and> left1 \<noteq> 0")
    case True
    let ?ts = "ts1\<lparr>ts_loop := reportNodeExecutionError node (ts_loop ts1)\<rparr>"
    from True less.prems a have "tryLoop (counted en) node runIndex (left1 - 1) ?ts = (fin, ts')"
      by (auto simp: tryLoop.simps[of _ _ _ left] Let_def)
    moreover have "left1 - 1 < left" using True c(2) by auto
    ultimately have "callsOf (ts_loop ts') \<le> callsOf (ts_loop ?ts) + 2 * (left1 - 1) + 1" by (intro less.IH)
    then have "callsOf (ts_loop ts') \<le> callsOf (ts_loop ts1) + 2 * (left1 - 1) + 1" by (simp add: reportNodeExecutionError_def)
    with True c show ?thesis by auto
  next
    case False
    with less.prems a have "callsOf (ts_loop ts') = callsOf (ts_loop ts1)"
      by (cases fin1) (auto simp: tryLoop.simps[of _ _ _ left] Let_def reportNodeExecutionError_def)
    with c show ?thesis by (auto split: if_splits)
  qed
qed

lemma goOn_world: "ls_world (stepState (goOn en sd node item runIndex taskData data st)) = ls_world st"
  by (auto simp: goOn_def Let_def split: sum.splits if_splits)

lemma finishTries_world:
  "ls_world (stepState (finishTries en sd node runIndex executionIndex source ee ts)) = ls_world (ts_loop ts)"
proof -
  define st1 where "st1 = (if jget (runDataOf ((ts_loop ts)\<lparr>ls_executionError := ee\<rparr>)) (node_name node) = None
    then setRunData (jset (runDataOf ((ts_loop ts)\<lparr>ls_executionError := ee\<rparr>)) (node_name node) [])
      ((ts_loop ts)\<lparr>ls_executionError := ee\<rparr>) else (ts_loop ts)\<lparr>ls_executionError := ee\<rparr>)"
  have w: "ls_world st1 = ls_world (ts_loop ts)" by (simp add: st1_def)
  show ?thesis
  proof (cases ee)
    case None
    then show ?thesis unfolding finishTries_def Let_def st1_def[symmetric] by (simp add: goOn_world w)
  next
    case (Some e)
    obtain goes data td' st2 where h: "handleNodeExecutionError en node (ts_item ts)
        (createTaskData executionIndex source (ts_item ts) (ls_waitTill st1)) e (ts_data ts) runIndex st1 =
        (goes, data, td', st2)" by (metis prod_cases4)
    then have "ls_world st2 = ls_world st1" by (auto simp: handleNodeExecutionError_def Let_def split: if_splits)
    with h Some w show ?thesis
      unfolding finishTries_def Let_def st1_def[symmetric] by (cases goes) (simp_all add: goOn_world)
  qed
qed

lemma runTries_counted:
  "callsOf (stepState (runTries (counted en) sd node item runIndex executionIndex st)) + 1
    \<le> callsOf st + 2 * fst (getRetryParams item node)"
proof -
  obtain fin ts where t: "tryLoop (counted en) node runIndex (fst (getRetryParams item node) - 1)
      \<lparr>ts_item = item, ts_data = None, ts_responses = makeEngineResponse, ts_loop = st\<rparr> = (fin, ts)" by fastforce
  have "1 \<le> fst (getRetryParams item node)" by (auto simp: getRetryParams_def)
  moreover have "callsOf (stepState (runTries (counted en) sd node item runIndex executionIndex st)) = callsOf (ts_loop ts)"
    using t by (cases fin) (simp_all add: runTries_def finishTries_world)
  ultimately show ?thesis using tryLoop_counted[OF t] by simp
qed

lemma getRetryParams_bounds:
  "1 \<le> fst (getRetryParams item node)" "fst (getRetryParams item node) \<le> 5" "snd (getRetryParams item node) \<le> 5000"
  by (auto simp: getRetryParams_def)

text \<open>C11: One iteration calls the code of a node at most \<open>2 * maxTries - 1\<close> times, where \<open>maxTries\<close> is one without
  \<^verbatim>\<open>retryOnFail\<close> and between two and five with it; so never more than nine times.\<close>

theorem calls_per_iteration_bounded:
  assumes "sc_stack (ls_sched st) = item # rest" and "si_node item = Some node"
  shows "callsOf (stepState (loopStep (counted en) sd st)) + 1 \<le> callsOf st + 2 * fst (getRetryParams item node) \<and>
    1 \<le> fst (getRetryParams item node) \<and> fst (getRetryParams item node) \<le> 5"
proof -
  obtain status timedOut where c: "loopStep (counted en) sd st = Stop (st\<lparr>ls_status := status, ls_timedOut := timedOut\<rparr>) \<or>
      loopStep (counted en) sd st = runItem (counted en) sd item
        (st\<lparr>ls_status := status, ls_timedOut := timedOut, ls_sched := (ls_sched st)\<lparr>sc_stack := rest\<rparr>\<rparr>)"
    by (rule loopStep_cases[OF assms(1)])
  have one: "1 \<le> fst (getRetryParams item node)" by (rule getRetryParams_bounds)
  have run: "callsOf (stepState (runItem (counted en) sd item t)) + 1 \<le> callsOf t + 2 * fst (getRetryParams item node)" for t
  proof -
    define item1 where "item1 = item\<lparr>si_data := addPairedItemLineage (si_metadata item) (si_data item)\<rparr>"
    define t1 where "t1 = t\<lparr>ls_executionIndex := Suc (ls_executionIndex t), ls_executionError := None\<rparr>"
    have n: "si_node item1 = Some node" and w: "ls_world t1 = ls_world t"
      and p: "getRetryParams item1 node = getRetryParams item node"
      using assms(2) by (simp_all add: item1_def t1_def getRetryParams_def)
    define t2 where "t2 = (if (case si_metadata item1 of None \<Rightarrow> False | Some m \<Rightarrow> tm_nodeWasResumed m) then t1
      else emit (NodeExecuteBefore (node_name node)) t1)"
    have w2: "ls_world t2 = ls_world t1" by (simp add: t2_def)
    have "ls_world (stepState (runItem (counted en) sd item t)) = ls_world t1 \<or>
        (\<exists>i. runItem (counted en) sd item t = runTries (counted en) sd node item1 i (ls_executionIndex t) t2)"
      unfolding runItem_def Let_def item1_def[symmetric] t1_def[symmetric] n option.case t2_def[symmetric]
      by (auto simp: ensureInputData_def)
    then show ?thesis using runTries_counted[of en sd node item1 _ _ t2] one w w2 p by fastforce
  qed
  from c show ?thesis
  proof
    assume "loopStep (counted en) sd st = Stop (st\<lparr>ls_status := status, ls_timedOut := timedOut\<rparr>)"
    with one getRetryParams_bounds show ?thesis by auto
  next
    assume "loopStep (counted en) sd st = runItem (counted en) sd item
        (st\<lparr>ls_status := status, ls_timedOut := timedOut, ls_sched := (ls_sched st)\<lparr>sc_stack := rest\<rparr>\<rparr>)"
    with run[of "st\<lparr>ls_status := status, ls_timedOut := timedOut, ls_sched := (ls_sched st)\<lparr>sc_stack := rest\<rparr>\<rparr>"]
      getRetryParams_bounds show ?thesis by simp
  qed
qed

theorem calls_per_iteration_bounded_witness:
  "callsOf (stepState (loopStep (counted pass_engine) all_nodes
     (initialState chain (ex_node ''a'') None [] (0 :: nat, 0 :: nat)))) \<le> 1"
proof -
  let ?st = "initialState chain (ex_node ''a'') None [] (0 :: nat, 0 :: nat)"
  let ?item = "hd (sc_stack (ls_sched ?st))"
  have "sc_stack (ls_sched ?st) = [?item]" "si_node ?item = Some (ex_node ''a'')"
    by (simp_all add: initialState_def)
  from calls_per_iteration_bounded[OF this, of pass_engine all_nodes] show ?thesis
    by (simp add: initialState_def getRetryParams_def ex_node_def)
qed

end
