(* ===== verification/Execution_Order.thy ===== *)
theory Execution_Order
  imports Execution_Examples
begin

text \<open>
  The order in which the successors of a node come to run, and the routing of items to the error output.
\<close>

section \<open>Top left first\<close>

lemma sorted_two_keys:
  fixes f :: "'a \<Rightarrow> 'b::linorder" and g :: "'a \<Rightarrow> 'c::linorder"
  assumes "sorted (map f xs)" and "\<And>k. sorted (map g (filter (\<lambda>x. f x = k) xs))"
  shows "sorted_wrt (\<lambda>x y. f x < f y \<or> f x = f y \<and> g x \<le> g y) xs"
  using assms
proof (induction xs)
  case (Cons x xs)
  have "sorted (map g (filter (\<lambda>x. f x = k) xs))" for k
    using Cons.prems(2)[of k] by (auto split: if_splits)
  with Cons have "sorted_wrt (\<lambda>x y. f x < f y \<or> f x = f y \<and> g x \<le> g y) xs" by simp
  moreover have "f x < f y \<or> f x = f y \<and> g x \<le> g y" if "y \<in> set xs" for y
  proof -
    have "f x \<le> f y" using Cons.prems(1) that by simp
    moreover have "g x \<le> g y" if "f x = f y" using Cons.prems(2)[of "f x"] that \<open>y \<in> set xs\<close> by simp
    ultimately show ?thesis by (auto simp: order_le_less)
  qed
  ultimately show ?case by simp
qed simp

lemma sort_two_keys:
  fixes f :: "'a \<Rightarrow> 'b::linorder" and g :: "'a \<Rightarrow> 'c::linorder"
  shows "sorted_wrt (\<lambda>x y. f x < f y \<or> f x = f y \<and> g x \<le> g y) (sort_key f (sort_key g xs))"
proof (rule sorted_two_keys)
  fix k
  have "filter (\<lambda>x. f x = k) (sort_key f (sort_key g xs)) = filter (\<lambda>x. f x = k) (sort_key g xs)"
    by (rule sort_key_stable)
  moreover have "sorted (map g (filter P (sort_key g xs)))" for P
    by (rule sorted_filter) simp
  ultimately show "sorted (map g (filter (\<lambda>x. f x = k) (sort_key f (sort_key g xs))))" by simp
qed simp

text \<open>A position is above another when it is higher, or as high and not further to the right.\<close>

definition above :: "int \<times> int \<Rightarrow> int \<times> int \<Rightarrow> bool" where
  "above p q \<longleftrightarrow> snd p < snd q \<or> snd p = snd q \<and> fst p \<le> fst q"

lemma sortNodesToAdd_above: "sorted_wrt (\<lambda>p q. above (positionOf w p) (positionOf w q)) (rev (sortNodesToAdd w xs))"
proof -
  have "sorted_wrt (\<lambda>p q. above (positionOf w q) (positionOf w p)) (sortNodesToAdd w xs)"
    unfolding sortNodesToAdd_def above_def
    by (rule sorted_wrt_mono_rel[OF _ sort_two_keys]) auto
  then show ?thesis by (simp add: sorted_wrt_rev)
qed

lemma fold_addNext_direct:
  assumes "\<not> isLegacyExecutionOrder w"
    and "\<forall>p \<in> set ps. jget (wf_nodes w) (con_node (snd p)) \<noteq> None \<and> numberOfInputs w (con_node (snd p)) \<le> 1"
  shows "fold_res (addNext w name outs runIndex) ps st =
    Inr (st\<lparr>sc_stack := rev (map (\<lambda>p. directItem w (snd p) (fst p) name (Some outs) runIndex None None) ps) @ sc_stack st\<rparr>)"
  using assms(2)
proof (induction ps arbitrary: st)
  case (Cons p ps)
  let ?i = "directItem w (snd p) (fst p) name (Some outs) runIndex None None"
  have "addNext w name outs runIndex p st = Inr (st\<lparr>sc_stack := ?i # sc_stack st\<rparr>)"
    using Cons.prems assms(1)
    by (auto simp: addNext_def addNodeToBeExecuted_def enqueueItem_def isLegacyExecutionOrder_def)
  with Cons show ?case by simp
qed simp


text \<open>Two successors, of which the second is higher on the canvas.\<close>

definition fork :: RunnableWorkflow where
  "fork = ex_workflow [ex_node ''a'', (ex_node ''b'')\<lparr>node_position := (0, 100)\<rparr>, (ex_node ''c'')\<lparr>node_position := (40, -20)\<rparr>]
     [(''a'', 0, ''b'', 0), (''a'', 0, ''c'', 0)]"

definition fork_output :: "INodeExecutionData list slot list" where
  "fork_output = [Value [plain_item [(''v'', JNum 1)]]]"


section \<open>The error output\<close>

lemma splitItems_spec:
  assumes "splitItems f items ok errs = Inr (ok', errs')"
  shows "ok' = ok @ filter (\<lambda>i. \<not> isErrorItem i) items"
    and "\<exists>new. map_res f (filter isErrorItem items) = Inr new \<and> errs' = errs @ new"
proof -
  have "ok' = ok @ filter (\<lambda>i. \<not> isErrorItem i) items \<and>
      (\<exists>new. map_res f (filter isErrorItem items) = Inr new \<and> errs' = errs @ new)"
    using assms
  proof (induction items arbitrary: ok errs)
    case (Cons item items)
    show ?case
    proof (cases "isErrorItem item")
      case True
      with Cons.prems obtain item' where f: "f item = Inr item'" "splitItems f items ok (errs @ [item']) = Inr (ok', errs')"
        by (auto split: sum.splits)
      with Cons.IH[OF f(2)] True show ?thesis by auto
    next
      case False
      with Cons.prems Cons.IH[of "ok @ [item]" errs] show ?thesis by auto
    qed
  qed auto
  then show "ok' = ok @ filter (\<lambda>i. \<not> isErrorItem i) items"
    and "\<exists>new. map_res f (filter isErrorItem items) = Inr new \<and> errs' = errs @ new" by blast+
qed

lemma map_res_append:
  "map_res f (xs @ ys) = bind_res (map_res f xs) (\<lambda>a. bind_res (map_res f ys) (\<lambda>b. Inr (a @ b)))"
  by (induction xs) (auto simp: bind_res_def split: sum.splits)

definition itemsAt :: "INodeExecutionData list slot list \<Rightarrow> nat \<Rightarrow> INodeExecutionData list" where
  "itemsAt outs i = slot_or (slot_get outs i) []"

lemma errorOutputLoop_spec:
  assumes "errorOutputLoop f i n outs errs drained = (None, drained', outs', errs')"
  shows "(\<forall>k. slot_get outs' k = (if i \<le> k \<and> k < i + n
        then Value (filter (\<lambda>x. \<not> isErrorItem x) (itemsAt outs k)) else slot_get outs k)) \<and>
    (\<exists>new. map_res f (concat (map (\<lambda>k. filter isErrorItem (itemsAt outs k)) [i..<i + n])) = Inr new \<and> errs' = errs @ new)"
  using assms
proof (induction n arbitrary: i outs errs drained)
  case 0
  then show ?case by auto
next
  case (Suc n)
  let ?items = "itemsAt outs i"
  obtain ok e1 where s: "splitItems f ?items [] errs = Inr (ok, e1)"
    "errorOutputLoop f (Suc i) n (slot_set outs i (Value ok)) e1
      (if ?items = [] then drained else drained @ [(i, [])]) = (None, drained', outs', errs')"
    using Suc.prems by (auto simp: Let_def itemsAt_def split: sum.splits)
  have ok: "ok = filter (\<lambda>x. \<not> isErrorItem x) ?items" using splitItems_spec(1)[OF s(1)] by simp
  obtain new where new: "map_res f (filter isErrorItem ?items) = Inr new" "e1 = errs @ new"
    using splitItems_spec(2)[OF s(1)] by blast
  note IH = Suc.IH[OF s(2)]
  have at: "itemsAt (slot_set outs i (Value ok)) k = itemsAt outs k" if "Suc i \<le> k" for k
    using that by (simp add: itemsAt_def)
  have m: "map (\<lambda>k. filter isErrorItem (itemsAt (slot_set outs i (Value ok)) k)) [Suc i..<Suc i + n] =
      map (\<lambda>k. filter isErrorItem (itemsAt outs k)) [Suc i..<Suc i + n]"
    by (intro map_cong refl arg_cong[where f = "filter isErrorItem"] at) (simp del: upt_Suc)
  from IH obtain new' where new': "map_res f (concat (map (\<lambda>k. filter isErrorItem (itemsAt outs k)) [Suc i..<Suc i + n])) = Inr new'"
    "errs' = e1 @ new'" unfolding m by blast
  have "[i..<i + Suc n] = i # [Suc i..<Suc i + n]" by (simp add: upt_conv_Cons del: upt_Suc)
  with new new' have "map_res f (concat (map (\<lambda>k. filter isErrorItem (itemsAt outs k)) [i..<i + Suc n])) = Inr (new @ new')"
    by (simp add: map_res_append del: upt_Suc)
  moreover have "slot_get outs' k = (if i \<le> k \<and> k < i + Suc n
        then Value (filter (\<lambda>x. \<not> isErrorItem x) (itemsAt outs k)) else slot_get outs k)" for k
    using IH ok at[of k] by (auto simp: not_less_eq_eq)
  ultimately show ?case using new(2) new'(2) by auto
qed

text \<open>C6: With the error output enabled no item of the other outputs is lost or doubled: every output before the last
  keeps exactly its items without an error, in their order, and the last output gets exactly the items with an
  error, those of the first output first, each possibly with the data of the item it comes from.\<close>

theorem handleNodeErrorOutput_partitions:
  assumes "handleNodeErrorOutput pairedItem source mainOutputs outs = (None, drained, outs')" and "mainOutputs > 0"
  shows "(\<forall>k < mainOutputs - 1. slot_get outs' k = Value (filter (\<lambda>x. \<not> isErrorItem x) (itemsAt outs k))) \<and>
    (\<exists>errs. slot_get outs' (mainOutputs - 1) = Value errs \<and>
      map_res (errorItem pairedItem source)
        (concat (map (\<lambda>k. filter isErrorItem (itemsAt outs k)) [0..<mainOutputs - 1])) = Inr errs)"
proof -
  obtain outs1 errs where l: "errorOutputLoop (errorItem pairedItem source) 0 (mainOutputs - 1) outs [] [] = (None, drained, outs1, errs)"
    "outs' = slot_set outs1 (mainOutputs - 1) (Value errs)"
    using assms by (auto simp: handleNodeErrorOutput_def split: prod.splits option.splits)
  from errorOutputLoop_spec[OF l(1)] l(2) show ?thesis by auto
qed

theorem handleNodeErrorOutput_partitions_witness:
  "\<exists>errs. handleNodeErrorOutput (\<lambda>_ _. Inr None) None 2 [Value [plain_item [(''v'', JNum 1)], plain_item [(''error'', JStr ''x'')]]] =
     (None, [(0, [])], [Value [plain_item [(''v'', JNum 1)]], Value errs])"
proof -
  let ?outs = "[Value [plain_item [(''v'', JNum 1)], plain_item [(''error'', JStr ''x'')]]]"
  have r: "handleNodeErrorOutput (\<lambda>_ _. Inr None) None 2 ?outs = (None, [(0, [])],
      [Value [plain_item [(''v'', JNum 1)]], Value [plain_item [(''error'', JStr ''x'')]]])" by code_simp
  from handleNodeErrorOutput_partitions[OF r] r show ?thesis by simp
qed

end
