(* ===== verification/Execution_Records.thy ===== *)
theory Execution_Records
  imports Execution_Examples
begin

text \<open>
  What an execution leaves in the run data: the runs that were there stay, every new run gets an execution
  index of its own, and nodes outside the filter get none. The engine asks for no other nodes and its calls
  leave the recorded runs alone.
\<close>

section \<open>Invariants of the loop\<close>

lemma runLoop_rule:
  assumes "runLoop en sd st = Some r" and "P st"
    and "\<And>t t'. P t \<Longrightarrow> sc_stack (ls_sched t) \<noteq> [] \<Longrightarrow> loopStep en sd t = Continue t' \<Longrightarrow> P t'"
    and "\<And>t. P t \<Longrightarrow> sc_stack (ls_sched t) = [] \<Longrightarrow> Q (Stop t)"
    and "\<And>t. P t \<Longrightarrow> sc_stack (ls_sched t) \<noteq> [] \<Longrightarrow> (\<forall>t'. loopStep en sd t \<noteq> Continue t') \<Longrightarrow> Q (loopStep en sd t)"
  shows "Q r"
proof -
  let ?H = "\<lambda>en sd. (\<forall>t t'. P t \<longrightarrow> sc_stack (ls_sched t) \<noteq> [] \<longrightarrow> loopStep en sd t = Continue t' \<longrightarrow> P t') \<and>
    (\<forall>t. P t \<longrightarrow> sc_stack (ls_sched t) = [] \<longrightarrow> Q (Stop t)) \<and>
    (\<forall>t. P t \<longrightarrow> sc_stack (ls_sched t) \<noteq> [] \<longrightarrow> (\<forall>t'. loopStep en sd t \<noteq> Continue t') \<longrightarrow> Q (loopStep en sd t))"
  have "P st \<longrightarrow> ?H en sd \<longrightarrow> Q r"
  proof (rule runLoop.raw_induct[where P = "\<lambda>en sd st r. P st \<longrightarrow> ?H en sd \<longrightarrow> Q r", OF _ assms(1)], intro impI)
    fix f :: "'a Engine \<Rightarrow> StartData \<Rightarrow> 'a LoopState \<Rightarrow> 'a StepEnd option" and en sd st r
    assume IH: "\<And>en sd st r. f en sd st = Some r \<Longrightarrow> P st \<longrightarrow> ?H en sd \<longrightarrow> Q r"
      and eq: "(if sc_stack (ls_sched st) = [] then Some (Stop st)
        else case loopStep en sd st of Continue st' \<Rightarrow> f en sd st' | r \<Rightarrow> Some r) = Some r"
      and P: "P st" and H: "?H en sd"
    show "Q r"
    proof (cases "sc_stack (ls_sched st) = []")
      case True
      with eq P H show ?thesis by auto
    next
      case False
      show ?thesis
      proof (cases "\<exists>st'. loopStep en sd st = Continue st'")
        case True
        then obtain st' where st': "loopStep en sd st = Continue st'" ..
        then have "P st'" using P H False by blast
        moreover have "f en sd st' = Some r" using eq False st' by simp
        ultimately show ?thesis using IH H by blast
      next
        case nc: False
        then have "r = loopStep en sd st" using eq False by (cases "loopStep en sd st") auto
        with nc H P False show ?thesis by blast
      qed
    qed
  qed
  moreover have "?H en sd" using assms(3-5) by blast
  ultimately show ?thesis using assms(2) by blast
qed

section \<open>One iteration\<close>

definition keeps_runs :: "'w Engine \<Rightarrow> bool" where
  "keeps_runs en \<longleftrightarrow> quiet en \<and> calls_within (=) en"

lemma keeps_runs_lawful: "keeps_runs en \<Longrightarrow> lawful (=) en"
  by (simp add: keeps_runs_def lawful_def reflp_def transp_def)

text \<open>An iteration records nothing, or one run of the node of its entry.\<close>

lemma iteration_records:
  assumes "keeps_runs en" and "sc_stack (ls_sched st) = item # rest"
  obtains n i otd where "records n i otd (runDataOf st) (runDataOf (stepState (loopStep en sd st)))"
    and "\<forall>td. otd = Some td \<longrightarrow> td_executionIndex td = Some (ls_executionIndex st) \<and>
      \<not> isNodeFilteredOut sd n \<and> (si_runIndex item = None \<longrightarrow> i = length (runsOf (runDataOf st) n)) \<and>
      ls_executionIndex (stepState (loopStep en sd st)) = Suc (ls_executionIndex st)"
    and "ls_executionIndex st \<le> ls_executionIndex (stepState (loopStep en sd st))"
proof -
  obtain status timedOut where c: "loopStep en sd st = Stop (st\<lparr>ls_status := status, ls_timedOut := timedOut\<rparr>) \<or>
      loopStep en sd st = runItem en sd item
        (st\<lparr>ls_status := status, ls_timedOut := timedOut, ls_sched := (ls_sched st)\<lparr>sc_stack := rest\<rparr>\<rparr>)"
    by (rule loopStep_cases[OF assms(2)])
  let ?st = "st\<lparr>ls_status := status, ls_timedOut := timedOut, ls_sched := (ls_sched st)\<lparr>sc_stack := rest\<rparr>\<rparr>"
  have same: "ls_executionIndex ?st = ls_executionIndex st" "runDataOf ?st = runDataOf st" by simp_all
  from c show thesis
  proof
    assume "loopStep en sd st = Stop (st\<lparr>ls_status := status, ls_timedOut := timedOut\<rparr>)"
    with that[of "[]" 0 None] show thesis by simp
  next
    let ?res = "runItem en sd item ?st"
    assume r: "loopStep en sd st = ?res"
    obtain n i where e: "step_effect (=) n i (ls_executionIndex ?st) (?st\<lparr>ls_executionIndex := Suc (ls_executionIndex ?st)\<rparr>)
        (stepState ?res)"
      "runDataOf (stepState ?res) = runDataOf ?st \<or>
        (\<exists>node. si_node item = Some node \<and> n = node_name node \<and> i = computeRunIndex item node (runDataOf ?st) \<and>
          \<not> isNodeFilteredOut sd n)"
      using runItem_effect[OF keeps_runs_lawful[OF assms(1)] refl[of ?res]] by blast
    from e(1) obtain otd where o: "records n i otd (runDataOf st) (runDataOf (stepState ?res))"
      "\<forall>td. otd = Some td \<longrightarrow> td_executionIndex td = Some (ls_executionIndex st)"
      "ls_executionIndex (stepState ?res) = Suc (ls_executionIndex st)"
      using same by (auto simp: step_effect_def)
    show thesis
    proof (cases "runDataOf (stepState ?res) = runDataOf ?st")
      case True
      with same r o(3) that[of n i None] show thesis by simp
    next
      case False
      with e(2) have "\<not> isNodeFilteredOut sd n" "si_runIndex item = None \<longrightarrow> i = length (runsOf (runDataOf st) n)"
        using same by (auto simp: computeRunIndex_def runsOf_def split: option.splits)
      with o r that[of n i otd] show thesis by simp
    qed
  qed
qed

lemma iteration_fresh:
  assumes "keeps_runs en" and "fresh_stack (sc_stack (ls_sched st))" and "sc_stack (ls_sched st) \<noteq> []"
    and "loopStep en sd st = Continue st'"
  shows "fresh_stack (sc_stack (ls_sched st'))"
proof -
  obtain item rest where s: "sc_stack (ls_sched st) = item # rest" using assms(3) by (cases "sc_stack (ls_sched st)") auto
  obtain status timedOut where c: "loopStep en sd st = Stop (st\<lparr>ls_status := status, ls_timedOut := timedOut\<rparr>) \<or>
      loopStep en sd st = runItem en sd item
        (st\<lparr>ls_status := status, ls_timedOut := timedOut, ls_sched := (ls_sched st)\<lparr>sc_stack := rest\<rparr>\<rparr>)"
    by (rule loopStep_cases[OF s])
  let ?st = "st\<lparr>ls_status := status, ls_timedOut := timedOut, ls_sched := (ls_sched st)\<lparr>sc_stack := rest\<rparr>\<rparr>"
  define st2 where "st2 = ?st"
  have run: "runItem en sd item st2 = Continue st'" using c assms(4) unfolding st2_def by auto
  have fresh: "fresh_stack (sc_stack (ls_sched st2))" "si_runIndex item = None" using assms(2) s by (simp_all add: st2_def)
  show ?thesis
  proof (rule runItem_continues[OF keeps_runs_lawful[OF assms(1)] run])
    fix node
    assume "proceeds (ls_workflow st2) (node_name node) (ls_sched st2) (ls_sched st') \<or>
      (\<exists>d. \<not> inputDataReady (ls_workflow st2) (node_name node) d 0 (numberOfInputs (ls_workflow st2) (node_name node)) \<and>
        d = addPairedItemLineage (si_metadata item) (si_data item) \<and>
        ls_sched st' = (ls_sched st2)\<lparr>sc_stack := sc_stack (ls_sched st2) @ [item\<lparr>si_data := d\<rparr>]\<rparr>)"
    then show ?thesis using fresh by (elim disjE exE conjE) (simp_all add: proceeds_def)
  qed
qed

section \<open>The runs of an execution\<close>

text \<open>The execution indices of the recorded runs are below a bound, and no two runs share one.\<close>

definition numbered :: "IRunData \<Rightarrow> nat \<Rightarrow> bool" where
  "numbered r k \<longleftrightarrow>
     (\<forall>n i e. i < length (runsOf r n) \<and> td_executionIndex (runsOf r n ! i) = Some e \<longrightarrow> e < k \<and>
       (\<forall>m j. j < length (runsOf r m) \<and> td_executionIndex (runsOf r m ! j) = Some e \<longrightarrow> m = n \<and> j = i))"

definition extends :: "IRunData \<Rightarrow> IRunData \<Rightarrow> bool" where
  "extends r r' \<longleftrightarrow> (\<forall>n. \<exists>more. runsOf r' n = runsOf r n @ more)"

lemma extends_refl: "extends r r" by (simp add: extends_def)

lemma extends_trans: "extends r r' \<Longrightarrow> extends r' r'' \<Longrightarrow> extends r r''"
  unfolding extends_def by (metis append.assoc)

lemma records_append:
  assumes "records n i otd r r'" and "\<forall>td. otd = Some td \<longrightarrow> i = length (runsOf r n)"
  shows "runsOf r' m = runsOf r m @ (case otd of None \<Rightarrow> [] | Some td \<Rightarrow> if m = n then [td] else [])"
  using assms by (cases otd) auto

lemma numbered_mono: "numbered r k \<Longrightarrow> k \<le> k' \<Longrightarrow> numbered r k'"
  unfolding numbered_def by (meson order_less_le_trans)

lemma numbered_records:
  assumes "numbered r k" and "records n i otd r r'"
    and "\<forall>td. otd = Some td \<longrightarrow> td_executionIndex td = Some k \<and> i = length (runsOf r n) \<and> k' = Suc k" and "k \<le> k'"
  shows "numbered r' k'" and "extends r r'"
proof -
  have app: "runsOf r' m = runsOf r m @ (case otd of None \<Rightarrow> [] | Some td \<Rightarrow> if m = n then [td] else [])" for m
    using assms(2,3) by (intro records_append) auto
  then show "extends r r'" unfolding extends_def by blast
  show "numbered r' k'"
  proof (cases otd)
    case None
    then have "runsOf r' m = runsOf r m" for m using app by simp
    then have "numbered r' k" using assms(1) by (simp add: numbered_def)
    then show ?thesis using assms(4) by (rule numbered_mono)
  next
    case (Some td)
    have new: "td_executionIndex td = Some k" "k' = Suc k" using assms(3) Some by auto
    have run: "(i < length (runsOf r m) \<and> runsOf r' m ! i = runsOf r m ! i) \<or> (m = n \<and> i = length (runsOf r n) \<and> runsOf r' m ! i = td)"
      if "i < length (runsOf r' m)" for m i
      using that unfolding app Some by (auto simp: nth_append split: if_splits)
    have old: "e < k" if "i < length (runsOf r m)" "td_executionIndex (runsOf r m ! i) = Some e" for m i e
      using assms(1) that unfolding numbered_def by blast
    have uniq: "m = m' \<and> i = j" if "i < length (runsOf r m)" "td_executionIndex (runsOf r m ! i) = Some e"
      "j < length (runsOf r m')" "td_executionIndex (runsOf r m' ! j) = Some e" for m m' i j e
      using assms(1) that unfolding numbered_def by blast
    show ?thesis
      unfolding numbered_def
    proof (intro allI impI conjI)
      fix m i e
      assume m: "i < length (runsOf r' m) \<and> td_executionIndex (runsOf r' m ! i) = Some e"
      show "e < k'"
      proof (cases "m = n \<and> i = length (runsOf r n)")
        case True
        with run[of i m] m new show ?thesis by auto
      next
        case False
        with run[of i m] m old[of i m e] new show ?thesis by auto
      qed
      fix m' j
      assume m': "j < length (runsOf r' m') \<and> td_executionIndex (runsOf r' m' ! j) = Some e"
      have "m = m' \<and> i = j"
      proof (cases "e = k")
        case True
        have "m = n \<and> i = length (runsOf r n)" using run[of i m] m old[of i m e] True by auto
        moreover have "m' = n \<and> j = length (runsOf r n)" using run[of j m'] m' old[of j m' e] True by auto
        ultimately show ?thesis by simp
      next
        case False
        have "i < length (runsOf r m) \<and> td_executionIndex (runsOf r m ! i) = Some e" using run[of i m] m new False by auto
        moreover have "j < length (runsOf r m') \<and> td_executionIndex (runsOf r m' ! j) = Some e"
          using run[of j m'] m' new False by auto
        ultimately show ?thesis using uniq by blast
      qed
      then show "m' = m" "j = i" by simp_all
    qed
  qed
qed





end
