(* ===== verification/Execution_Stops.thy ===== *)
theory Execution_Stops
  imports Execution_Records
begin

text \<open>
  How an execution is left in the middle: after a node that failed, or to wait. In both cases the entry of the node
  is in front of the stack again, so that the execution can be taken up there.
\<close>

section \<open>The iteration that stops\<close>

lemma completeTry_last:
  assumes "completeTry pinned shared node ts = (Produced, ts')" and "ts_data ts' \<noteq> None"
    and "ns_alwaysOutputData (node_settings node) \<noteq> Some True"
  shows "ls_lastNodeExecuted (ts_loop ts') = Some (node_name node)"
  using assms
  by (auto simp: completeTry_def Let_def ensureAlwaysOutputData_def split: prod.splits option.splits sum.splits if_splits)

lemma attempt_last:
  assumes "attempt en node runIndex left ts = (Produced, left', ts')" and "ts_data ts' \<noteq> None"
    and "ns_alwaysOutputData (node_settings node) \<noteq> Some True"
  shows "ls_lastNodeExecuted (ts_loop ts') = Some (node_name node)"
  using assms
  by (auto simp: attempt_def handleReply_def Let_def split: prod.splits option.splits sum.splits NodeReply.splits
      intro: completeTry_last[OF _ assms(2,3)])

text \<open>After the tries the last executed node is the one they ran.\<close>

lemma tryLoop_last:
  assumes "tryLoop en node runIndex left ts = (fin, ts')"
  shows "fin = Raised e \<Longrightarrow> ls_lastNodeExecuted (ts_loop ts') = Some (node_name node)"
    and "fin = Produced \<Longrightarrow> ts_data ts' \<noteq> None \<Longrightarrow> ns_alwaysOutputData (node_settings node) \<noteq> Some True \<Longrightarrow>
      ls_lastNodeExecuted (ts_loop ts') = Some (node_name node)"
proof -
  have "(fin = Raised e \<longrightarrow> ls_lastNodeExecuted (ts_loop ts') = Some (node_name node)) \<and>
    (fin = Produced \<and> ts_data ts' \<noteq> None \<and> ns_alwaysOutputData (node_settings node) \<noteq> Some True \<longrightarrow>
      ls_lastNodeExecuted (ts_loop ts') = Some (node_name node))"
    using assms
  proof (induction left arbitrary: ts rule: less_induct)
    case (less left)
    obtain end1 left1 ts1 where a: "attempt en node runIndex left ts = (end1, left1, ts1)" by (rule prod_cases3)
    show ?case
    proof (cases "\<exists>e. end1 = Raised e")
      case True
      then obtain e1 where e: "end1 = Raised e1" ..
      let ?ts = "ts1\<lparr>ts_loop := reportNodeExecutionError node (ts_loop ts1)\<rparr>"
      show ?thesis
      proof (cases "left1 = 0")
        case True
        with less.prems a e show ?thesis by (auto simp: tryLoop.simps[of _ _ _ left] Let_def reportNodeExecutionError_def)
      next
        case False
        with less.prems a e have "tryLoop en node runIndex (left1 - 1) ?ts = (fin, ts')"
          by (simp add: tryLoop.simps[of _ _ _ left] Let_def)
        with less.IH[of "left1 - 1" ?ts] False attempt_left[OF a] show ?thesis by simp
      qed
    next
      case False
      with less.prems a attempt_last[of en node runIndex left ts left1 ts1] show ?thesis
        by (cases end1) (auto simp: tryLoop.simps[of _ _ _ left])
    qed
  qed
  then show "fin = Raised e \<Longrightarrow> ls_lastNodeExecuted (ts_loop ts') = Some (node_name node)"
    and "fin = Produced \<Longrightarrow> ts_data ts' \<noteq> None \<Longrightarrow> ns_alwaysOutputData (node_settings node) \<noteq> Some True \<Longrightarrow>
      ls_lastNodeExecuted (ts_loop ts') = Some (node_name node)" by blast+
qed

text \<open>The state after an entry was put back: one run more, the rest of the stack and the waiting list as before.\<close>

definition put_back :: "StackItem \<Rightarrow> string \<Rightarrow> nat \<Rightarrow> ExecutionError option \<Rightarrow> 'w LoopState \<Rightarrow> 'w LoopState \<Rightarrow> bool" where
  "put_back item name runIndex ee st st' \<longleftrightarrow>
     sc_stack (ls_sched st') = item # sc_stack (ls_sched st) \<and> sc_waiting (ls_sched st') = sc_waiting (ls_sched st) \<and>
     ls_executionError st' = ee \<and> ls_lastNodeExecuted st' = ls_lastNodeExecuted st \<and>
     (\<exists>td. records name runIndex (Some td) (runDataOf st) (runDataOf st') \<and>
        (\<forall>e. ee = Some e \<longrightarrow> td_error td = Some (err_message e) \<and> td_executionStatus td = Some ''error''))"

lemma rewireOutputLog_error [simp]:
  "td_error (rewireOutputLog node r i outs td) = td_error td"
  "td_executionStatus (rewireOutputLog node r i outs td) = td_executionStatus td"
  by (simp_all add: rewireOutputLog_def split: option.splits)

lemma goOn_stops:
  assumes "goOn en sd node item runIndex taskData data st = Stop st'"
    and "\<forall>e. ls_executionError st = Some e \<longrightarrow> td_error taskData = Some (err_message e) \<and> td_executionStatus taskData = Some ''error''"
  shows "put_back item (node_name node) runIndex (ls_executionError st) st st'" and "data \<noteq> None"
proof -
  obtain outs where o: "normalizeNodeErrors data = Inr outs" using assms(1) by (auto simp: goOn_def split: sum.splits)
  then show "data \<noteq> None" by (auto simp: normalizeNodeErrors_def)
  let ?td = "rewireOutputLog node (runDataOf st) runIndex outs (taskData\<lparr>td_data := Some [(main_type, outs)]\<rparr>)"
  have "st' = pushExecutionStack item (emit (NodeExecuteAfter (node_name node) ?td)
      (setRunData (upsertTaskData (runDataOf st) (node_name node) runIndex ?td) st))"
    using assms(1) o by (auto simp: goOn_def Let_def split: sum.splits if_splits)
  with records_upsert[of "node_name node" runIndex ?td "runDataOf st"] assms(2)
  show "put_back item (node_name node) runIndex (ls_executionError st) st st'"
    unfolding put_back_def by (auto simp: setRunData_def emit_def pushExecutionStack_def intro!: exI[of _ ?td])
qed

lemma put_back_ensure:
  assumes "put_back item n i ee (setRunData (jset (runDataOf st) n []) st) st'" and "jget (runDataOf st) n = None"
  shows "put_back item n i ee st st'"
  using assms records_ensure[of "runDataOf st" n i "Some _" "runDataOf st'"]
  unfolding put_back_def setRunData_def by (auto simp del: records.simps)

lemma finishTries_stops:
  assumes "finishTries en sd node runIndex executionIndex source ee ts = Stop st'"
  shows "put_back (ts_item ts) (node_name node) runIndex ee (ts_loop ts) st' \<and> (ee \<noteq> None \<or> ts_data ts \<noteq> None)"
proof -
  let ?st = "(ts_loop ts)\<lparr>ls_executionError := ee\<rparr>"
  let ?st1 = "if jget (runDataOf ?st) (node_name node) = None
    then setRunData (jset (runDataOf ?st) (node_name node) []) ?st else ?st"
  let ?td = "createTaskData executionIndex source (ts_item ts) (ls_waitTill ?st1)"
  have ensure: "put_back (ts_item ts) (node_name node) runIndex ee (ts_loop ts) st'"
    if "put_back (ts_item ts) (node_name node) runIndex ee ?st1 st'"
    using that put_back_ensure[of "ts_item ts" "node_name node" runIndex ee ?st st']
    by (auto simp: put_back_def simp del: records.simps split: if_splits)
  have e1: "ls_executionError ?st1 = ee" by (simp add: setRunData_def)
  show ?thesis
  proof (cases ee)
    case None
    with assms have "goOn en sd node (ts_item ts) runIndex ?td (ts_data ts) ?st1 = Stop st'"
      by (simp only: finishTries_def Let_def option.case)
    from goOn_stops[OF this, unfolded e1] None ensure show ?thesis by blast
  next
    case (Some e)
    obtain goes data td' st2 where h: "handleNodeExecutionError en node (ts_item ts) ?td e (ts_data ts) runIndex ?st1 =
        (goes, data, td', st2)" by (metis prod_cases4)
    have "put_back (ts_item ts) (node_name node) runIndex ee ?st1 st'"
    proof (cases goes)
      case True
      with h have s: "td_error td' = Some (err_message e)" "td_executionStatus td' = Some ''error''"
        "st2 = emit (SendErrorChunk (node_name node) runIndex) ?st1"
        by (auto simp: handleNodeExecutionError_def Let_def split: if_splits)
      from assms Some h True have "goOn en sd node (ts_item ts) runIndex td' data st2 = Stop st'"
        by (simp only: finishTries_def Let_def option.case prod.case bool.case if_True)
      moreover have "ls_executionError st2 = ee" using s(3) e1 by (simp add: emit_def)
      ultimately have "put_back (ts_item ts) (node_name node) runIndex ee st2 st'"
        using goOn_stops(1)[of en sd node "ts_item ts" runIndex td' data st2 st'] s Some by simp
      then show ?thesis using s(3) by (simp add: put_back_def emit_def del: records.simps)
    next
      case False
      with assms Some h have "st' = st2"
        by (simp only: finishTries_def Let_def option.case prod.case bool.case if_False StepEnd.inject)
      moreover let ?td2 = "rewireOutputLog node (runDataOf ?st1) runIndex (errorOutput e)
        (?td\<lparr>td_error := Some (err_message e), td_executionStatus := Some ''error''\<rparr>)"
      note records_upsert[of "node_name node" runIndex ?td2 "runDataOf ?st1"]
      ultimately show ?thesis
        using h False Some unfolding handleNodeExecutionError_def Let_def put_back_def
        by (auto simp: setRunData_def emit_def pushExecutionStack_def simp del: records.simps split: if_splits
            intro!: exI[of _ ?td2])
    qed
    with ensure Some show ?thesis by simp
  qed
qed

lemma runTries_stops:
  assumes "keeps_runs en" and "runTries en sd node item runIndex executionIndex st = Stop st'"
  obtains item' where "same_item item item'" and "put_back item' (node_name node) runIndex (ls_executionError st')
      (st\<lparr>ls_lastNodeExecuted := ls_lastNodeExecuted st'\<rparr>) st'"
    and "ls_executionError st' \<noteq> None \<or> ns_alwaysOutputData (node_settings node) \<noteq> Some True \<longrightarrow>
      ls_lastNodeExecuted st' = Some (node_name node)"
proof -
  let ?ts = "\<lparr>ts_item = item, ts_data = None, ts_responses = makeEngineResponse, ts_loop = st\<rparr>"
  obtain fin ts where t: "tryLoop en node runIndex (fst (getRetryParams item node) - 1) ?ts = (fin, ts)" by fastforce
  have f: "frame (=) st (ts_loop ts)" "same_item item (ts_item ts)"
    using tryLoop_frame[OF keeps_runs_lawful[OF assms(1)] t] by (auto simp: try_frame_def)
  note ff = frame_fields[OF f(1)]
  note last = tryLoop_last[OF t]
  obtain ee where ee: "finishTries en sd node runIndex executionIndex (sourceOf item) ee ts = Stop st'"
    "(case ee of None \<Rightarrow> fin = Produced | Some e \<Rightarrow> fin = Raised e)"
    using assms(2) t by (cases fin) (auto simp: runTries_def intro: that[of None] that[of "Some _"])
  from finishTries_stops[OF ee(1)] have p: "put_back (ts_item ts) (node_name node) runIndex ee (ts_loop ts) st'"
    "ee \<noteq> None \<or> ts_data ts \<noteq> None" by auto
  then have e: "ls_executionError st' = ee" and l: "ls_lastNodeExecuted st' = ls_lastNodeExecuted (ts_loop ts)"
    by (simp_all add: put_back_def)
  show thesis
  proof (rule that[OF f(2)])
    show "put_back (ts_item ts) (node_name node) runIndex (ls_executionError st')
        (st\<lparr>ls_lastNodeExecuted := ls_lastNodeExecuted st'\<rparr>) st'"
      using p(1) e ff by (simp add: put_back_def del: records.simps)
    show "ls_executionError st' \<noteq> None \<or> ns_alwaysOutputData (node_settings node) \<noteq> Some True \<longrightarrow>
      ls_lastNodeExecuted st' = Some (node_name node)"
      using e l last ee(2) p(2) by (cases ee) auto
  qed
qed

text \<open>An iteration of which the execution does not come back, unless it was stopped from outside.\<close>

lemma iteration_stops:
  assumes "keeps_runs en" and "sc_stack (ls_sched st) = item # rest" and "si_runIndex item = None"
    and "\<not> fst (shouldStopExecuting en st)" and "loopStep en sd st = Stop st'"
  obtains node item' td where "si_node item = Some node" and "same_item item item'"
    and "sc_stack (ls_sched st') = item' # rest" and "sc_waiting (ls_sched st') = sc_waiting (ls_sched st)"
    and "\<forall>m. runsOf (runDataOf st') m = runsOf (runDataOf st) m @ (if m = node_name node then [td] else [])"
    and "\<forall>e. ls_executionError st' = Some e \<longrightarrow> td_error td = Some (err_message e) \<and> td_executionStatus td = Some ''error''"
    and "ls_executionError st' \<noteq> None \<or> ns_alwaysOutputData (node_settings node) \<noteq> Some True \<longrightarrow>
      ls_lastNodeExecuted st' = Some (node_name node)"
proof -
  obtain st1 where s: "shouldStopExecuting en st = (False, st1)" using assms(4) by (cases "shouldStopExecuting en st") auto
  then have s1: "ls_sched st1 = ls_sched st" by (auto simp: shouldStopExecuting_def Let_def split: if_splits)
  define st2 where "st2 = st1\<lparr>ls_sched := (ls_sched st1)\<lparr>sc_stack := rest\<rparr>\<rparr>"
  have run: "runItem en sd item st2 = Stop st'" using assms(2,5) s s1 by (simp add: loopStep_def st2_def)
  have f2: "runDataOf st2 = runDataOf st" "sc_stack (ls_sched st2) = rest" "sc_waiting (ls_sched st2) = sc_waiting (ls_sched st)"
    using s1 by (simp_all add: st2_def)
  let ?item = "item\<lparr>si_data := addPairedItemLineage (si_metadata item) (si_data item)\<rparr>"
  let ?st = "st2\<lparr>ls_executionIndex := Suc (ls_executionIndex st2), ls_executionError := None\<rparr>"
  obtain node st3 where n: "si_node item = Some node"
    "runTries en sd node ?item (computeRunIndex ?item node (runDataOf ?st)) (ls_executionIndex st2) st3 = Stop st'"
    "st3 = ?st \<or> st3 = emit (NodeExecuteBefore (node_name node)) ?st"
    using run by (auto simp: runItem_def Let_def ensureInputData_def split: option.splits if_splits prod.splits)
  have f3: "runDataOf st3 = runDataOf st" "sc_stack (ls_sched st3) = rest" "sc_waiting (ls_sched st3) = sc_waiting (ls_sched st)"
    using n(3) f2 by (auto simp: emit_def)
  obtain item' where i: "same_item ?item item'"
    "put_back item' (node_name node) (computeRunIndex ?item node (runDataOf ?st)) (ls_executionError st')
      (st3\<lparr>ls_lastNodeExecuted := ls_lastNodeExecuted st'\<rparr>) st'"
    "ls_executionError st' \<noteq> None \<or> ns_alwaysOutputData (node_settings node) \<noteq> Some True \<longrightarrow>
      ls_lastNodeExecuted st' = Some (node_name node)"
    by (rule runTries_stops[OF assms(1) n(2)])
  have idx: "computeRunIndex ?item node (runDataOf ?st) = length (runsOf (runDataOf st) (node_name node))"
    using assms(3) f2 by (auto simp: computeRunIndex_def runsOf_def split: option.splits)
  from i(2) obtain td where td: "records (node_name node) (length (runsOf (runDataOf st) (node_name node))) (Some td)
      (runDataOf st) (runDataOf st')"
    "\<forall>e. ls_executionError st' = Some e \<longrightarrow> td_error td = Some (err_message e) \<and> td_executionStatus td = Some ''error''"
    unfolding idx put_back_def using f3 by auto
  show thesis
  proof (rule that[OF n(1) _ _ _ _ td(2)])
    show "same_item item item'" using i(1) by (rule same_item_trans[rotated]) simp
    show "sc_stack (ls_sched st') = item' # rest" "sc_waiting (ls_sched st') = sc_waiting (ls_sched st)"
      using i(2) f3 by (simp_all add: put_back_def)
    show "\<forall>m. runsOf (runDataOf st') m = runsOf (runDataOf st) m @ (if m = node_name node then [td] else [])"
      using td(1) by simp
    show "ls_executionError st' \<noteq> None \<or> ns_alwaysOutputData (node_settings node) \<noteq> Some True \<longrightarrow>
      ls_lastNodeExecuted st' = Some (node_name node)" by (rule i(3))
  qed
qed

section \<open>After a failure and after a wait\<close>



lemma disableFirst_front:
  assumes "si_node item = Some node" and "Option.bind (si_metadata item) tm_resumeError = None"
  shows "disableFirst (item # rest) = Inr (item\<lparr>si_node := Some (node\<lparr>node_disabled := Some True\<rparr>)\<rparr> #
    map (\<lambda>i. if si_node i = Some node then i\<lparr>si_node := Some (node\<lparr>node_disabled := Some True\<rparr>)\<rparr> else i) rest)"
  using assms by (simp add: disableFirst_def defined_def)



end
