(* ===== verification/Execution_Corners.thy ===== *)
theory Execution_Corners
  imports Execution_Stops
begin

text \<open>
  What the loop does in some corner cases, each on a small execution that is evaluated.
\<close>

definition with_settings :: "(NodeSettings \<Rightarrow> NodeSettings) \<Rightarrow> INode \<Rightarrow> INode" where
  "with_settings f n = n\<lparr>node_settings := f (node_settings n)\<rparr>"

definition run_of :: "nat Engine \<Rightarrow> RunnableWorkflow \<Rightarrow> nat Run option" where
  "run_of en w = (case wf_nodes w of
     [] \<Rightarrow> None
   | (_, n) # _ \<Rightarrow> (case processRunExecutionData en all_nodes (ex_start w n) of Inr r \<Rightarrow> r | Inl _ \<Rightarrow> None))"

text \<open>Three tries can be five calls: a failure the node reports in its output is retried inside the try, and when
  that retry throws, \<^verbatim>\<open>tryIndex\<close> has not been counted up.\<close>

definition flaky_engine :: "nat Engine" where
  "flaky_engine = ex_engine 1 (\<lambda>_ k.
     (if even k then Output (Some [Value [plain_item [(''error'', JStr ''no'')]]]) (SharedArrays [])
      else Throws (ex_error ''no''), None))"

definition three_tries :: INode where
  "three_tries = with_settings (\<lambda>s. s\<lparr>ns_retryOnFail := Some True, ns_maxTries := Some 3\<rparr>) (ex_node ''a'')"

lemma three_tries_five_calls:
  "fst (getRetryParams \<lparr>si_node = Some three_tries, si_data = [], si_source = None, si_runIndex = None, si_metadata = None\<rparr>
      three_tries) = 3"
  "map_option (\<lambda>r. ls_world (run_state r)) (run_of flaky_engine (ex_workflow [three_tries] [])) = Some 5"
  by code_simp+

text \<open>A node that fails and continues leaves its error behind when it is the last to run: the status is
  \<open>error\<close>, although the same node earlier in the workflow gives \<open>success\<close>.\<close>

definition fails_at :: "string \<Rightarrow> nat Engine" where
  "fails_at n = ex_engine 1 (\<lambda>call _. (if node_name (nc_node call) = n then Throws (ex_error ''no'') else pass_on call, None))"

definition continues :: "string \<Rightarrow> INode" where
  "continues n = with_settings (\<lambda>s. s\<lparr>ns_onError := Some ''continueRegularOutput''\<rparr>) (ex_node n)"

lemma continued_error_decides_status:
  "map_option run_status (run_of (fails_at ''a'') (ex_workflow [continues ''a'', continues ''b''] [(''a'', 0, ''b'', 0)])) =
     Some ''success''"
  "map_option run_status (run_of (fails_at ''b'') (ex_workflow [continues ''a'', continues ''b''] [(''a'', 0, ''b'', 0)])) =
     Some ''error''"
  by code_simp+

text \<open>A node that returns \<^verbatim>\<open>null\<close> when the stack is empty ends the execution, and a node that waits with data on
  one of its inputs never runs; with an empty output it does.\<close>

definition silent_engine :: "INodeExecutionData list slot list option \<Rightarrow> nat Engine" where
  "silent_engine outs = ex_engine 1 (\<lambda>call _. (if node_name (nc_node call) = ''b'' then Output outs (SharedArrays []) else pass_on call, None))"

lemma null_output_ends_execution:
  "map_option (\<lambda>r. runCounts (run_state r)) (run_of (silent_engine (Some [Value []])) diamond) =
     Some [(''a'', 1), (''b'', 1), (''m'', 1)]"
  "map_option (\<lambda>r. (run_status r, runCounts (run_state r), jkeys (sc_waiting (ls_sched (run_state r)))))
     (run_of (silent_engine None) diamond) = Some (''success'', [(''a'', 1)], [''m''])"
  by code_simp+

text \<open>A node with an error output that waits and returns its input: the items are moved out of the array the stack
  entry holds, so that nothing is left of them after the wait.\<close>

definition wait_node :: INode where
  "wait_node = with_settings (\<lambda>s. s\<lparr>ns_onError := Some ''continueErrorOutput''\<rparr>) (ex_node ''a'')"

lemma error_output_drains_waiting_entry:
  "map_option (\<lambda>r. (run_status r, map si_data (sc_stack (ls_sched (run_state r)))))
     (run_of (ex_engine 2 (\<lambda>call _. (pass_on call, Some 60))) (ex_workflow [wait_node] [])) =
   Some (''waiting'', [[(main_type, [Value []])]])"
  by code_simp

text \<open>A node that continues on error but has no items on its first input throws from the loop.\<close>

lemma continue_without_input_throws:
  "outputAfterError (continues ''a'') [(main_type, [Null, Value [empty_item]])] e None = None"
  "normalizeNodeErrors None = Inl TypeError"
  by (simp_all add: outputAfterError_def continues_def with_settings_def ex_node_def slot_get_def normalizeNodeErrors_def
      bind_res_def defined_def)

text \<open>The run indices are compared as strings.\<close>

lemma firstKey_as_strings: "firstKey [2, 10] = Some 10"
  by code_simp

text \<open>A node that waits without an output and always outputs data is not the last executed one, so the wait takes
  back a run of the node before it.\<close>

definition silent_wait :: "nat Engine" where
  "silent_wait = ex_engine 1 (\<lambda>call _. if node_name (nc_node call) = ''b'' then (Output None (SharedArrays []), Some 60)
     else (pass_on call, None))"

definition always_b :: INode where
  "always_b = with_settings (\<lambda>s. s\<lparr>ns_alwaysOutputData := Some True\<rparr>) (ex_node ''b'')"

lemma wait_takes_back_other_run:
  "map_option (\<lambda>r. (run_status r, runCounts (run_state r),
       map_sum id runCounts (handleWaitingState (run_state r))))
     (run_of silent_wait (ex_workflow [ex_node ''a'', always_b] [(''a'', 0, ''b'', 0)])) =
   Some (''waiting'', [(''a'', 1), (''b'', 1)], Inr [(''a'', 0), (''b'', 1)])"
  by code_simp

end
